(* ===== verification/Go_Prelude.thy ===== *)
theory Go_Prelude
  imports Main "HOL-Library.Monad_Syntax" "HOL-Library.Word" "HOL-Library.Multiset"
begin

text \<open>
  Shared vocabulary of the development: Go slices with their bounds checks, byte strings, the
  32-bit FNV-1a hash of Go's standard library, and the generic facts on lists, medians and
  quorums the components share.

  A Go expression that may panic (an index or a slice bound out of range, a write to a nil map)
  or that ends the process (\<^verbatim>\<open>log.Fatalf\<close>) has an option type: \<open>None\<close> is the end of the
  process, \<open>Some\<close> the value. Sequencing is \<open>Option.bind\<close>, written with \<open>do\<close>.
\<close>

named_theorems go_simps \<open>bounds-checked slice operations on indices known to be in range\<close>
named_theorems peer_defs \<open>definitions of the Raft peer operations\<close>

type_synonym bytes = "8 word list"

section \<open>Slices\<close>

definition go_len :: "'a list \<Rightarrow> int" where
  "go_len xs = int (length xs)"

definition go_nth :: "'a list \<Rightarrow> int \<Rightarrow> 'a option" where
  "go_nth xs i = (if 0 \<le> i \<and> i < go_len xs then Some (xs ! nat i) else None)"

definition go_upd :: "'a list \<Rightarrow> int \<Rightarrow> 'a \<Rightarrow> 'a list option" where
  "go_upd xs i v = (if 0 \<le> i \<and> i < go_len xs then Some (xs[nat i := v]) else None)"

definition go_from :: "'a list \<Rightarrow> int \<Rightarrow> 'a list option" where
  \<comment> \<open>\<^verbatim>\<open>xs[i:]\<close>\<close>
  "go_from xs i = (if 0 \<le> i \<and> i \<le> go_len xs then Some (drop (nat i) xs) else None)"

definition go_to :: "'a list \<Rightarrow> int \<Rightarrow> 'a list option" where
  \<comment> \<open>\<^verbatim>\<open>xs[:i]\<close>, for bounds up to the length\<close>
  "go_to xs i = (if 0 \<le> i \<and> i \<le> go_len xs then Some (take (nat i) xs) else None)"

definition go_range :: "nat \<Rightarrow> int list" where
  \<comment> \<open>the indices \<^verbatim>\<open>for i := range n\<close> visits, in order\<close>
  "go_range n = map int [0..<n]"

definition go_div :: "int \<Rightarrow> int \<Rightarrow> int" where
  \<comment> \<open>Go's integer division truncates towards zero\<close>
  "go_div a b = sgn a * sgn b * (\<bar>a\<bar> div \<bar>b\<bar>)"

section \<open>FNV-1a, 32 bits (hash/fnv)\<close>

unbundle bit_operations_syntax

fun fnv32a_write :: "32 word \<Rightarrow> bytes \<Rightarrow> 32 word" where
  "fnv32a_write h [] = h"
| "fnv32a_write h (b # bs) = fnv32a_write ((h XOR ucast b) * 16777619) bs"

definition fnv32a :: "bytes \<Rightarrow> 32 word" where
  "fnv32a bs = fnv32a_write 2166136261 bs"

definition bytes_of_string :: "string \<Rightarrow> bytes" where
  "bytes_of_string s = map (\<lambda>c. of_nat (of_char c)) s"

section \<open>Slice lemmas\<close>

lemma go_len_nonneg [simp]: "0 \<le> go_len xs"
  by (simp add: go_len_def)

lemma go_len_not_neg [simp]: "\<not> go_len xs < 0"
  by (simp add: go_len_def)

lemma go_len_Nil [simp]: "go_len [] = 0"
  by (simp add: go_len_def)

lemma go_len_Cons [simp]: "go_len (x # xs) = go_len xs + 1"
  by (simp add: go_len_def)

lemma go_len_append [simp]: "go_len (xs @ ys) = go_len xs + go_len ys"
  by (simp add: go_len_def)

lemma go_len_update [simp]: "go_len (xs[i := v]) = go_len xs"
  by (simp add: go_len_def)

lemma go_len_pos [simp]: "0 < go_len xs \<longleftrightarrow> xs \<noteq> []"
  by (simp add: go_len_def)

lemma go_len_take: "go_len (take k xs) = min (go_len xs) (int k)"
  by (simp add: go_len_def)

lemma go_len_drop: "go_len (drop k xs) = max 0 (go_len xs - int k)"
  by (simp add: go_len_def)

lemma go_nth_Some_iff: "go_nth xs i = Some x \<longleftrightarrow> 0 \<le> i \<and> i < go_len xs \<and> xs ! nat i = x"
  by (auto simp: go_nth_def)

lemma go_nth_None_iff: "go_nth xs i = None \<longleftrightarrow> i < 0 \<or> go_len xs \<le> i"
  by (auto simp: go_nth_def)

lemma go_nth_in [go_simps]: "0 \<le> i \<Longrightarrow> i < go_len xs \<Longrightarrow> go_nth xs i = Some (xs ! nat i)"
  by (simp add: go_nth_def)

lemma go_nth_last [go_simps]: "xs \<noteq> [] \<Longrightarrow> go_nth xs (go_len xs - 1) = Some (last xs)"
  by (simp add: go_nth_def go_len_def last_conv_nth nat_diff_distrib')

lemma go_nth_zero [go_simps]: "xs \<noteq> [] \<Longrightarrow> go_nth xs 0 = Some (hd xs)"
  by (simp add: go_nth_def hd_conv_nth)

lemma go_upd_Some_iff: "go_upd xs i v = Some ys \<longleftrightarrow> 0 \<le> i \<and> i < go_len xs \<and> ys = xs[nat i := v]"
  by (auto simp: go_upd_def)

lemma go_upd_in [go_simps]: "0 \<le> i \<Longrightarrow> i < go_len xs \<Longrightarrow> go_upd xs i v = Some (xs[nat i := v])"
  by (simp add: go_upd_def)

lemma go_from_Some_iff: "go_from xs i = Some ys \<longleftrightarrow> 0 \<le> i \<and> i \<le> go_len xs \<and> ys = drop (nat i) xs"
  by (auto simp: go_from_def)

lemma go_from_in [go_simps]: "0 \<le> i \<Longrightarrow> i \<le> go_len xs \<Longrightarrow> go_from xs i = Some (drop (nat i) xs)"
  by (simp add: go_from_def)

lemma go_to_Some_iff: "go_to xs i = Some ys \<longleftrightarrow> 0 \<le> i \<and> i \<le> go_len xs \<and> ys = take (nat i) xs"
  by (auto simp: go_to_def)

lemma go_to_in [go_simps]: "0 \<le> i \<Longrightarrow> i \<le> go_len xs \<Longrightarrow> go_to xs i = Some (take (nat i) xs)"
  by (simp add: go_to_def)

lemma set_go_range [simp]: "set (go_range n) = {0..<int n}"
  by (auto simp: go_range_def image_iff) (metis atLeastLessThan_iff le0 nat_eq_iff of_nat_less_iff)

lemma go_div_nat: "0 \<le> a \<Longrightarrow> 0 < b \<Longrightarrow> go_div a b = a div b"
  by (cases "a = 0") (auto simp: go_div_def)

lemma bind_Some_iff:
  "Option.bind m f = Some y \<longleftrightarrow> (\<exists>x. m = Some x \<and> f x = Some y)"
  by (cases m) auto

section \<open>Quorums\<close>

text \<open>
  An interface for a family of vote sets any two of which share a voter. The cluster model
  interprets it with the sets that reach Raft's \<^verbatim>\<open>majorityThreshold\<close>.
\<close>

locale quorum_family =
  fixes quorum :: "'a set \<Rightarrow> bool"
  assumes intersect: "quorum P \<Longrightarrow> quorum Q \<Longrightarrow> P \<inter> Q \<noteq> {}"
begin

lemma common_member:
  assumes "quorum P" and "quorum Q"
  obtains x where "x \<in> P" and "x \<in> Q"
  using intersect [OF assms] by blast

text \<open>Two candidates each backed by a quorum of single-valued ballots are the same candidate.\<close>

lemma same_choice:
  assumes "quorum P" and "quorum Q"
    and "\<And>x. x \<in> P \<Longrightarrow> ballot x c" and "\<And>x. x \<in> Q \<Longrightarrow> ballot x d"
    and "\<And>x. ballot x c \<Longrightarrow> ballot x d \<Longrightarrow> c = d"
  shows "c = d"
  using assms by (meson common_member)

end

lemma card_quorum_intersect:
  assumes "finite U" and "P \<subseteq> U" and "Q \<subseteq> U" and "card U < card P + card Q"
  shows "P \<inter> Q \<noteq> {}"
proof
  assume "P \<inter> Q = {}"
  then have "card P + card Q = card (P \<union> Q)"
    using assms by (metis card_Un_disjoint finite_subset)
  also have "\<dots> \<le> card U"
    using assms by (simp add: card_mono)
  finally show False using assms(4) by simp
qed

section \<open>Medians of sorted lists\<close>

lemma sorted_ge_count:
  fixes xs :: "'a::linorder list"
  assumes "sorted xs" and "k < length xs"
  shows "length xs - k \<le> length (filter (\<lambda>x. xs ! k \<le> x) xs)"
proof -
  have split: "filter (\<lambda>x. xs ! k \<le> x) xs
    = filter (\<lambda>x. xs ! k \<le> x) (take k xs) @ filter (\<lambda>x. xs ! k \<le> x) (drop k xs)"
    by (metis append_take_drop_id filter_append)
  have "\<forall>x \<in> set (drop k xs). xs ! k \<le> x"
    using assms by (auto simp: in_set_conv_nth sorted_iff_nth_mono)
  then have "filter (\<lambda>x. xs ! k \<le> x) (drop k xs) = drop k xs" by simp
  then show ?thesis by (simp add: split)
qed

lemma filter_sort_length:
  "length (filter P (sort xs)) = length (filter P xs)"
  by (metis mset_filter mset_sort size_mset)

lemma sort_ge_count:
  fixes xs :: "'a::linorder list"
  assumes "k < length xs"
  shows "length xs - k \<le> length (filter (\<lambda>x. sort xs ! k \<le> x) xs)"
  using sorted_ge_count [of "sort xs" k] assms by (simp add: filter_sort_length)

end
