(* ===== verification/Raft_Peer.thy ===== *)
theory Raft_Peer
  imports Go_Prelude
begin

text \<open>
  One Raft peer: the state of \<^verbatim>\<open>src/src/raft1/raft.go\<close> and every operation of it, with the
  persister of \<^verbatim>\<open>src/src/tester1/persister.go\<close> it saves to.

  An operation that runs under \<^verbatim>\<open>rf.mu\<close> is a function from the peer's state to its new state;
  \<open>None\<close> is a Go panic. A goroutine the operation starts (\<^verbatim>\<open>go rf.sendEntries(...)\<close>) is a value
  of type \<open>goroutine\<close> in the result. A sender such as \<^verbatim>\<open>sendEntries\<close> is split where it blocks: the
  arguments it puts on the wire are computed by \<open>..._args\<close>, and the code after \<^verbatim>\<open>Call\<close> returns is the
  operation \<open>..._reply\<close>. Wall-clock time is an argument \<open>now\<close> in milliseconds.
  The byte string the persister holds is the sequence of values the encoder wrote.
\<close>

section \<open>Data\<close>

datatype RaftState = NoState | FollowerState | CandidateState | LeaderState
  \<comment> \<open>\<open>NoState\<close> is the zero value of the string type, which \<^verbatim>\<open>Make\<close> leaves in place\<close>

definition ElectionTimeout :: int where
  "ElectionTimeout = 550"

record 'c LogEntry =
  Term :: int
  Command :: "'c option"

text \<open>The values \<^verbatim>\<open>persist\<close> encodes, one constructor per Go type.\<close>

datatype 'c gobval = GInt int | GLog "'c LogEntry list"

record 'c Persister =
  raftstate :: "'c gobval list"
  psnapshot :: bytes

record 'c Raft =
  npeers :: nat
  persister :: "'c Persister"
  me :: int
  majorityThreshold :: int
  votesReceived :: "bool list"
  lastHeartBeat :: int
  rstate :: RaftState
  currentTerm :: int
  votedFor :: int
  rlog :: "'c LogEntry list"
  commitIndex :: int
  lastApplied :: int
  nextIndex :: "int list"
  matchIndex :: "int list"
  isSnapshotApplied :: bool
  snapshotLastIndex :: int
  snapshotLastTerm :: int
  snapshot :: bytes

record RequestVoteArgs =
  rv_Term :: int
  rv_CandidateId :: int
  rv_LastLogIndex :: int
  rv_LastLogTerm :: int

record RequestVoteReply =
  rvr_Term :: int
  rvr_VoteGranted :: bool

record 'c AppendEntriesArgs =
  ae_Term :: int
  ae_LeaderId :: int
  ae_LeaderCommit :: int
  ae_PrevLogIndex :: int
  ae_PrevLogTerm :: int
  ae_Entries :: "'c LogEntry list"

record AppendEntriesReply =
  aer_Term :: int
  aer_Success :: bool
  aer_FailedTerm :: int
  aer_FailedFirstIndex :: int

record InstallSnapshotArgs =
  is_Term :: int
  is_LeaderId :: int
  is_LastIncludedIndex :: int
  is_LastIncludedTerm :: int
  is_Data :: bytes

record InstallSnapshotReply =
  isr_Term :: int

text \<open>The goroutines a peer starts, with the arguments the \<^verbatim>\<open>go\<close> statement evaluates.\<close>

datatype 'c goroutine =
    SendRequestVote int int int int
      \<comment> \<open>requestedServerId, term, lastLogIndex, lastLogTerm\<close>
  | SendEntries int int int int int "'c LogEntry list"
      \<comment> \<open>requestedServerId, term, logIndexToAppend, logTermToAppend, commitIndex, entries\<close>
  | SendInstallSnapshot int int int int bytes
      \<comment> \<open>requestedServerId, term, snapshotIndex, snapshotTerm, data\<close>
  | StartElection
  | RunHeartbeatCycle

datatype 'c ApplyMsg =
    CommandMsg "'c option" int
      \<comment> \<open>CommandValid: Command, CommandIndex\<close>
  | SnapshotMsg bytes int int
      \<comment> \<open>SnapshotValid: Snapshot, SnapshotTerm, SnapshotIndex\<close>

text \<open>Where the goroutine \<^verbatim>\<open>applyTicker\<close> stands: at the top of its loop, or blocked on a channel send.\<close>

datatype apply_pc = ApplyTop | SentSnapshot int | SentCommand

section \<open>Persistence\<close>

definition Save :: "'c gobval list \<Rightarrow> bytes \<Rightarrow> 'c Persister \<Rightarrow> 'c Persister" where
  "Save rs sn ps = ps\<lparr>raftstate := rs, psnapshot := sn\<rparr>"

definition MakePersister :: "'c Persister" where
  "MakePersister = \<lparr>raftstate = [], psnapshot = []\<rparr>"

definition encode_state :: "'c Raft \<Rightarrow> 'c gobval list" where
  "encode_state rf =
     [GInt (currentTerm rf), GInt (votedFor rf), GLog (rlog rf),
      GInt (snapshotLastIndex rf), GInt (snapshotLastTerm rf)]"

definition persist :: "'c Raft \<Rightarrow> 'c Raft" where
  "persist rf = rf\<lparr>persister := Save (encode_state rf) (snapshot rf) (persister rf)\<rparr>"

fun decode_int :: "'c gobval list \<Rightarrow> (int \<times> 'c gobval list) option" where
  "decode_int (GInt i # b) = Some (i, b)"
| "decode_int _ = None"

fun decode_log :: "'c gobval list \<Rightarrow> ('c LogEntry list \<times> 'c gobval list) option" where
  "decode_log (GLog l # b) = Some (l, b)"
| "decode_log _ = None"

definition readPersist :: "'c gobval list \<Rightarrow> 'c Raft \<Rightarrow> 'c Raft option" where
  "readPersist data rf =
     (if go_len data < 1 then Some rf
      else do {
        (term, b1) \<leftarrow> decode_int data;
        (vote, b2) \<leftarrow> decode_int b1;
        (l, b3) \<leftarrow> decode_log b2;
        (sli, b4) \<leftarrow> decode_int b3;
        (slt, b5) \<leftarrow> decode_int b4;
        Some (rf\<lparr>currentTerm := term, votedFor := vote, rlog := l,
                 snapshotLastIndex := sli, snapshotLastTerm := slt,
                 lastApplied := sli, commitIndex := sli\<rparr>)
      })"

definition Make :: "nat \<Rightarrow> int \<Rightarrow> 'c Persister \<Rightarrow> 'c Raft option" where
  "Make n i ps =
     (let rf = \<lparr>npeers = n, persister = ps, me = i,
                majorityThreshold = go_div (int n + 1) 2,
                votesReceived = [], lastHeartBeat = 0, rstate = NoState,
                currentTerm = 0, votedFor = -1,
                rlog = [\<lparr>Term = 0, Command = None\<rparr>],
                commitIndex = 0, lastApplied = 0,
                nextIndex = replicate n 0, matchIndex = replicate n 0,
                isSnapshotApplied = True,
                snapshotLastIndex = 0, snapshotLastTerm = 0, snapshot = []\<rparr>
      in do {
        rf1 \<leftarrow> readPersist (raftstate ps) rf;
        Some (rf1\<lparr>snapshot := psnapshot ps\<rparr>)
      })"

definition GetState :: "'c Raft \<Rightarrow> int \<times> bool" where
  "GetState rf = (currentTerm rf, rstate rf = LeaderState)"

definition PersistBytes :: "('c gobval list \<Rightarrow> int) \<Rightarrow> 'c Raft \<Rightarrow> int" where
  \<comment> \<open>the argument gives the length of the encoded byte string\<close>
  "PersistBytes enc_size rf = enc_size (raftstate (persister rf))"

section \<open>Helpers\<close>

definition becomeFollower :: "int \<Rightarrow> 'c Raft \<Rightarrow> 'c Raft" where
  "becomeFollower term rf = rf\<lparr>currentTerm := term, votedFor := -1, rstate := FollowerState\<rparr>"

fun countVotes_loop :: "bool list \<Rightarrow> int \<Rightarrow> int" where
  "countVotes_loop [] n = n"
| "countVotes_loop (v # vs) n = countVotes_loop vs (if v then n + 1 else n)"

definition countVotes :: "'c Raft \<Rightarrow> int" where
  "countVotes rf = countVotes_loop (votesReceived rf) 0"

definition absoluteIndexToLogIndex :: "'c Raft \<Rightarrow> int \<Rightarrow> int" where
  "absoluteIndexToLogIndex rf index = index - snapshotLastIndex rf"

definition logLength :: "'c Raft \<Rightarrow> int" where
  "logLength rf = go_len (rlog rf) + snapshotLastIndex rf"

definition updateCommitIndex :: "'c Raft \<Rightarrow> 'c Raft option" where
  "updateCommitIndex rf =
     (let tmp = sort (matchIndex rf)
      in do {
        median \<leftarrow> go_nth tmp (go_div (go_len tmp - 1) 2);
        e \<leftarrow> go_nth (rlog rf) (absoluteIndexToLogIndex rf median);
        Some (if Term e = currentTerm rf then rf\<lparr>commitIndex := median\<rparr> else rf)
      })"

definition trimLogFrom :: "int \<Rightarrow> int \<Rightarrow> 'c Raft \<Rightarrow> 'c Raft option" where
  "trimLogFrom absoluteIndex term rf = do {
     rest \<leftarrow> go_from (rlog rf) (absoluteIndexToLogIndex rf absoluteIndex + 1);
     Some (rf\<lparr>rlog := \<lparr>Term = term, Command = None\<rparr> # rest\<rparr>)
   }"

section \<open>Snapshots taken by the service\<close>

definition Snapshot :: "int \<Rightarrow> bytes \<Rightarrow> 'c Raft \<Rightarrow> 'c Raft option" where
  "Snapshot index snap rf =
     (if snapshotLastIndex rf \<ge> index then Some (persist rf)
      else do {
        e \<leftarrow> go_nth (rlog rf) (absoluteIndexToLogIndex rf index);
        rf1 \<leftarrow> Some (rf\<lparr>snapshotLastTerm := Term e, snapshot := snap\<rparr>);
        rf2 \<leftarrow> trimLogFrom index (snapshotLastTerm rf1) rf1;
        Some (persist (rf2\<lparr>snapshotLastIndex := index\<rparr>))
      })"

section \<open>Sending entries\<close>

fun sendLoop :: "'c Raft \<Rightarrow> int list \<Rightarrow> 'c goroutine list option" where
  "sendLoop rf [] = Some []"
| "sendLoop rf (index # is) =
     (if index \<noteq> me rf then do {
        commonIndex \<leftarrow> go_nth (nextIndex rf) index;
        g \<leftarrow> (if commonIndex > snapshotLastIndex rf then do {
                let logIndex = absoluteIndexToLogIndex rf commonIndex;
                prev \<leftarrow> go_nth (rlog rf) (logIndex - 1);
                entries \<leftarrow> go_from (rlog rf) logIndex;
                Some (SendEntries index (currentTerm rf) (commonIndex - 1) (Term prev)
                        (commitIndex rf) entries)
              }
              else Some (SendInstallSnapshot index (currentTerm rf) (snapshotLastIndex rf)
                           (snapshotLastTerm rf) (snapshot rf)));
        gs \<leftarrow> sendLoop rf is;
        Some (g # gs)
      }
      else sendLoop rf is)"

definition StartSendEntries :: "int \<Rightarrow> 'c Raft \<Rightarrow> ('c Raft \<times> 'c goroutine list) option" where
  "StartSendEntries now rf = do {
     let rf1 = rf\<lparr>lastHeartBeat := now\<rparr>;
     gs \<leftarrow> sendLoop rf1 (go_range (npeers rf1));
     Some (rf1, gs)
   }"

definition runHeartbeatCycle :: "int \<Rightarrow> 'c Raft \<Rightarrow> ('c Raft \<times> 'c goroutine list) option" where
  \<comment> \<open>one turn of the loop: \<^verbatim>\<open>return\<close> when no longer the leader, else send and go on\<close>
  "runHeartbeatCycle now rf =
     (if rstate rf \<noteq> LeaderState then Some (rf, [])
      else do {
        (rf1, gs) \<leftarrow> StartSendEntries now rf;
        Some (rf1, gs @ [RunHeartbeatCycle])
      })"

definition Start :: "int \<Rightarrow> 'c \<Rightarrow> 'c Raft \<Rightarrow> ('c Raft \<times> 'c goroutine list \<times> int \<times> int \<times> bool) option" where
  "Start now command rf =
     (if rstate rf \<noteq> LeaderState
      then Some (persist rf, [], commitIndex rf, currentTerm rf, False)
      else do {
        let rf1 = rf\<lparr>rlog := rlog rf @ [\<lparr>Term = currentTerm rf, Command = Some command\<rparr>]\<rparr>;
        mi \<leftarrow> go_upd (matchIndex rf1) (me rf1) (logLength rf1 - 1);
        (rf2, gs) \<leftarrow> StartSendEntries now (rf1\<lparr>matchIndex := mi\<rparr>);
        Some (persist rf2, gs, logLength rf2 - 1, currentTerm rf2, True)
      })"

section \<open>Leader election\<close>

definition RequestVote :: "RequestVoteArgs \<Rightarrow> 'c Raft \<Rightarrow> ('c Raft \<times> RequestVoteReply) option" where
  "RequestVote args rf =
     (let replyTerm = currentTerm rf
      in if rv_Term args < currentTerm rf
         then Some (persist rf, \<lparr>rvr_Term = replyTerm, rvr_VoteGranted = False\<rparr>)
         else do {
           let rf1 = (if rv_Term args > currentTerm rf then becomeFollower (rv_Term args) rf else rf);
           let myLastLogIndex = logLength rf1 - 1;
           e \<leftarrow> go_nth (rlog rf1) (go_len (rlog rf1) - 1);
           let myLastLogTerm = Term e;
           let myLogOlder =
             (if myLastLogTerm > rv_LastLogTerm args then True
              else if myLastLogTerm = rv_LastLogTerm args then myLastLogIndex > rv_LastLogIndex args
              else False);
           (if (votedFor rf1 = -1 \<or> votedFor rf1 = rv_CandidateId args) \<and> \<not> myLogOlder
            then Some (persist (rf1\<lparr>votedFor := rv_CandidateId args\<rparr>),
                       \<lparr>rvr_Term = replyTerm, rvr_VoteGranted = True\<rparr>)
            else Some (persist rf1, \<lparr>rvr_Term = replyTerm, rvr_VoteGranted = False\<rparr>))
         })"

definition sendRequestVote_args :: "int \<Rightarrow> int \<Rightarrow> int \<Rightarrow> int \<Rightarrow> RequestVoteArgs" where
  "sendRequestVote_args i term lastLogIndex lastLogTerm =
     \<lparr>rv_Term = term, rv_CandidateId = i,
      rv_LastLogIndex = lastLogIndex, rv_LastLogTerm = lastLogTerm\<rparr>"

definition becomeLeader :: "'c Raft \<Rightarrow> 'c Raft option" where
  \<comment> \<open>the body of the winning branch of \<^verbatim>\<open>sendRequestVote\<close>\<close>
  "becomeLeader rf = do {
     let rf1 = rf\<lparr>rstate := LeaderState,
                  nextIndex := map (\<lambda>_. logLength rf) (nextIndex rf),
                  matchIndex := map (\<lambda>_. commitIndex rf) (matchIndex rf)\<rparr>;
     mi \<leftarrow> go_upd (matchIndex rf1) (me rf1) (logLength rf1 - 1);
     Some (rf1\<lparr>matchIndex := mi\<rparr>)
   }"

definition sendRequestVote_reply ::
  "int \<Rightarrow> int \<Rightarrow> RequestVoteReply \<Rightarrow> 'c Raft \<Rightarrow> ('c Raft \<times> 'c goroutine list) option" where
  "sendRequestVote_reply requestedServerId term reply rf =
     (if rvr_Term reply > currentTerm rf
      then Some (persist (becomeFollower (rvr_Term reply) rf), [])
      else if rstate rf = LeaderState \<or> term \<noteq> currentTerm rf then Some (persist rf, [])
      else if rvr_VoteGranted reply then do {
        vs \<leftarrow> go_upd (votesReceived rf) requestedServerId True;
        let rf1 = rf\<lparr>votesReceived := vs\<rparr>;
        (if countVotes rf1 \<ge> majorityThreshold rf1 then do {
           rf2 \<leftarrow> becomeLeader rf1;
           Some (persist rf2, [RunHeartbeatCycle])
         }
         else Some (persist rf1, []))
      }
      else Some (persist rf, []))"

fun voteLoop :: "'c Raft \<Rightarrow> int \<Rightarrow> int list \<Rightarrow> 'c goroutine list option" where
  "voteLoop rf lastLogIndex [] = Some []"
| "voteLoop rf lastLogIndex (index # is) =
     (if index \<noteq> me rf then do {
        e \<leftarrow> go_nth (rlog rf) (go_len (rlog rf) - 1);
        gs \<leftarrow> voteLoop rf lastLogIndex is;
        Some (SendRequestVote index (currentTerm rf) lastLogIndex (Term e) # gs)
      }
      else voteLoop rf lastLogIndex is)"

definition startElection :: "'c Raft \<Rightarrow> ('c Raft \<times> 'c goroutine list) option" where
  "startElection rf = do {
     let rf1 = rf\<lparr>currentTerm := currentTerm rf + 1, rstate := CandidateState, votedFor := me rf\<rparr>;
     vs \<leftarrow> go_upd (replicate (npeers rf1) False) (me rf1) True;
     let rf2 = rf1\<lparr>votesReceived := vs\<rparr>;
     let lastLogIndex = logLength rf2 - 1;
     gs \<leftarrow> voteLoop rf2 lastLogIndex (go_range (npeers rf2));
     Some (persist rf2, gs)
   }"

definition ticker :: "int \<Rightarrow> 'c Raft \<Rightarrow> 'c Raft \<times> 'c goroutine list" where
  \<comment> \<open>one turn of the loop\<close>
  "ticker now rf =
     (if now - lastHeartBeat rf > ElectionTimeout
      then (rf\<lparr>lastHeartBeat := now\<rparr>, [StartElection])
      else (rf, []))"

section \<open>Log replication\<close>

fun scanTerm :: "'c LogEntry list \<Rightarrow> int \<Rightarrow> nat \<Rightarrow> int \<Rightarrow> int option" where
  \<comment> \<open>the loop \<^verbatim>\<open>for i := realStartIndex; i >= 0; i--\<close> of \<^verbatim>\<open>buildFailedReply\<close>\<close>
  "scanTerm l t 0 first =
     do { e \<leftarrow> go_nth l 0; Some (if t = Term e then 0 else first) }"
| "scanTerm l t (Suc i) first =
     do { e \<leftarrow> go_nth l (int (Suc i));
          scanTerm l t i (if t = Term e then int (Suc i) else first) }"

definition buildFailedReply :: "int \<Rightarrow> 'c Raft \<Rightarrow> AppendEntriesReply \<Rightarrow> AppendEntriesReply option" where
  "buildFailedReply realStartIndex rf reply = do {
     e \<leftarrow> go_nth (rlog rf) realStartIndex;
     let failedTerm = Term e;
     first \<leftarrow> (if failedTerm = snapshotLastTerm rf then Some (snapshotLastIndex rf)
               else do {
                 f \<leftarrow> scanTerm (rlog rf) failedTerm (nat realStartIndex) realStartIndex;
                 Some (f + snapshotLastIndex rf)
               });
     Some (reply\<lparr>aer_Success := False, aer_FailedTerm := failedTerm,
                 aer_FailedFirstIndex := max first 1\<rparr>)
   }"

fun matchEntries :: "'c Raft \<Rightarrow> int \<Rightarrow> 'c LogEntry list \<Rightarrow> ('c Raft \<times> 'c LogEntry list) option" where
  \<comment> \<open>the reconciliation loop of \<^verbatim>\<open>AppendEntries\<close>; the list is \<^verbatim>\<open>args.Entries[entriesPointer:]\<close>\<close>
  "matchEntries rf logPointer [] = Some (rf, [])"
| "matchEntries rf logPointer (e # es) =
     (if logPointer < logLength rf then do {
        x \<leftarrow> go_nth (rlog rf) (absoluteIndexToLogIndex rf logPointer);
        (if Term x \<noteq> Term e then do {
           l \<leftarrow> go_to (rlog rf) (absoluteIndexToLogIndex rf logPointer);
           Some (rf\<lparr>rlog := l\<rparr>, e # es)
         }
         else matchEntries rf (logPointer + 1) es)
      }
      else Some (rf, e # es))"

definition AppendEntries ::
  "int \<Rightarrow> 'c AppendEntriesArgs \<Rightarrow> 'c Raft \<Rightarrow> ('c Raft \<times> AppendEntriesReply) option" where
  "AppendEntries now args rf =
     (let reply = \<lparr>aer_Term = currentTerm rf, aer_Success = False, aer_FailedTerm = 0,
                   aer_FailedFirstIndex = 0\<rparr>
      in if ae_Term args < currentTerm rf then Some (persist rf, reply)
         else
           let rf1 = rf\<lparr>rstate := FollowerState\<rparr>;
               rf2 = (if ae_Term args > currentTerm rf1 then becomeFollower (ae_Term args) rf1 else rf1);
               rf3 = rf2\<lparr>lastHeartBeat := now\<rparr>
           in if logLength rf3 \<le> ae_PrevLogIndex args then do {
                r \<leftarrow> buildFailedReply (go_len (rlog rf3) - 1) rf3 reply;
                Some (persist rf3, r)
              }
              else if snapshotLastIndex rf3 > ae_PrevLogIndex args
              then Some (persist rf3,
                     reply\<lparr>aer_Success := False, aer_FailedTerm := snapshotLastTerm rf3,
                           aer_FailedFirstIndex := snapshotLastIndex rf3\<rparr>)
              else do {
                let realIndex = absoluteIndexToLogIndex rf3 (ae_PrevLogIndex args);
                e \<leftarrow> go_nth (rlog rf3) realIndex;
                (if Term e \<noteq> ae_PrevLogTerm args then do {
                   r \<leftarrow> buildFailedReply realIndex rf3 reply;
                   Some (persist rf3, r)
                 }
                 else do {
                   (rf4, rest) \<leftarrow> matchEntries rf3 (ae_PrevLogIndex args + 1) (ae_Entries args);
                   let rf5 = rf4\<lparr>rlog := rlog rf4 @ rest\<rparr>;
                   let rf6 = (if ae_LeaderCommit args > commitIndex rf5
                              then rf5\<lparr>commitIndex := min (ae_LeaderCommit args) (logLength rf5 - 1)\<rparr>
                              else rf5);
                   Some (persist rf6, reply\<lparr>aer_Success := True\<rparr>)
                 })
              })"

definition sendEntries_args ::
  "int \<Rightarrow> int \<Rightarrow> int \<Rightarrow> int \<Rightarrow> int \<Rightarrow> 'c LogEntry list \<Rightarrow> 'c AppendEntriesArgs" where
  "sendEntries_args i term logIndexToAppend logTermToAppend commit entries =
     \<lparr>ae_Term = term, ae_LeaderId = i, ae_LeaderCommit = commit,
      ae_PrevLogIndex = logIndexToAppend, ae_PrevLogTerm = logTermToAppend, ae_Entries = entries\<rparr>"

definition sendEntries_reply ::
  "int \<Rightarrow> 'c AppendEntriesArgs \<Rightarrow> AppendEntriesReply option \<Rightarrow> 'c Raft \<Rightarrow> 'c Raft option" where
  \<comment> \<open>\<open>None\<close> for the reply is \<^verbatim>\<open>receivedResponse == false\<close>\<close>
  "sendEntries_reply requestedServerId args response rf =
     (case response of
        None \<Rightarrow> Some (persist rf)
      | Some reply \<Rightarrow>
          if aer_Term reply > currentTerm rf then Some (persist (becomeFollower (aer_Term reply) rf))
          else if rstate rf \<noteq> LeaderState \<or> currentTerm rf \<noteq> ae_Term args then Some (persist rf)
          else do {
            next \<leftarrow> go_nth (nextIndex rf) requestedServerId;
            (if ae_PrevLogIndex args \<noteq> next - 1 then Some (persist rf)
             else if \<not> aer_Success reply then do {
               ni \<leftarrow> go_upd (nextIndex rf) requestedServerId (aer_FailedFirstIndex reply);
               Some (persist (rf\<lparr>nextIndex := ni\<rparr>))
             }
             else do {
               ni \<leftarrow> go_upd (nextIndex rf) requestedServerId
                        (ae_PrevLogIndex args + go_len (ae_Entries args) + 1);
               mi \<leftarrow> go_upd (matchIndex rf) requestedServerId
                        (ae_PrevLogIndex args + go_len (ae_Entries args));
               rf1 \<leftarrow> updateCommitIndex (rf\<lparr>nextIndex := ni, matchIndex := mi\<rparr>);
               Some (persist rf1)
             })
          })"

section \<open>Applying\<close>

definition applyCommands :: "'c Raft \<Rightarrow> ('c Raft \<times> apply_pc \<times> 'c ApplyMsg option) option" where
  \<comment> \<open>the test of the second inner loop, up to its channel send or to the sleep\<close>
  "applyCommands rf =
     (if commitIndex rf > lastApplied rf then do {
        let rf1 = rf\<lparr>lastApplied := lastApplied rf + 1\<rparr>;
        entry \<leftarrow> go_nth (rlog rf1) (absoluteIndexToLogIndex rf1 (lastApplied rf1));
        Some (rf1, SentCommand, Some (CommandMsg (Command entry) (lastApplied rf1)))
      }
      else Some (rf, ApplyTop, None))"

definition applySnapshots :: "'c Raft \<Rightarrow> ('c Raft \<times> apply_pc \<times> 'c ApplyMsg option) option" where
  \<comment> \<open>the test of the first inner loop\<close>
  "applySnapshots rf =
     (if \<not> isSnapshotApplied rf
      then Some (rf\<lparr>lastApplied := snapshotLastIndex rf\<rparr>, SentSnapshot (snapshotLastIndex rf),
                 Some (SnapshotMsg (snapshot rf) (snapshotLastTerm rf) (snapshotLastIndex rf)))
      else applyCommands rf)"

definition applyTicker :: "apply_pc \<Rightarrow> 'c Raft \<Rightarrow> ('c Raft \<times> apply_pc \<times> 'c ApplyMsg option) option" where
  \<comment> \<open>from \<^verbatim>\<open>rf.mu.Lock()\<close> to the next \<^verbatim>\<open>rf.mu.Unlock()\<close>, with the message then sent\<close>
  "applyTicker pc rf =
     (case pc of
        ApplyTop \<Rightarrow> applySnapshots rf
      | SentSnapshot i \<Rightarrow>
          applySnapshots (if i = snapshotLastIndex rf then rf\<lparr>isSnapshotApplied := True\<rparr> else rf)
      | SentCommand \<Rightarrow>
          if \<not> isSnapshotApplied rf then Some (rf, ApplyTop, None) else applyCommands rf)"

section \<open>Installing snapshots\<close>

definition InstallSnapshot ::
  "int \<Rightarrow> InstallSnapshotArgs \<Rightarrow> 'c Raft \<Rightarrow> ('c Raft \<times> InstallSnapshotReply) option" where
  "InstallSnapshot now args rf =
     (let reply = \<lparr>isr_Term = currentTerm rf\<rparr>
      in if is_Term args < currentTerm rf then Some (persist rf, reply)
         else
           let rf1 = rf\<lparr>lastHeartBeat := now\<rparr>
           in if snapshotLastIndex rf1 \<ge> is_LastIncludedIndex args then Some (persist rf1, reply)
              else do {
                let logIndex = absoluteIndexToLogIndex rf1 (is_LastIncludedIndex args);
                same \<leftarrow> (if logIndex < go_len (rlog rf1)
                         then do { e \<leftarrow> go_nth (rlog rf1) logIndex;
                                   Some (Term e = is_LastIncludedTerm args) }
                         else Some False);
                rf2 \<leftarrow> (if same
                        then trimLogFrom (is_LastIncludedIndex args) (is_LastIncludedTerm args) rf1
                        else Some (rf1\<lparr>rlog := [\<lparr>Term = is_LastIncludedTerm args, Command = None\<rparr>]\<rparr>));
                Some (persist (rf2\<lparr>commitIndex := max (commitIndex rf2) (is_LastIncludedIndex args),
                                   snapshotLastIndex := is_LastIncludedIndex args,
                                   snapshotLastTerm := is_LastIncludedTerm args,
                                   snapshot := is_Data args,
                                   isSnapshotApplied := False\<rparr>), reply)
              })"

definition sendInstallSnapshot_args ::
  "int \<Rightarrow> int \<Rightarrow> int \<Rightarrow> int \<Rightarrow> bytes \<Rightarrow> InstallSnapshotArgs" where
  "sendInstallSnapshot_args i term snapshotIndex snapshotTerm data =
     \<lparr>is_Term = term, is_LeaderId = i, is_LastIncludedIndex = snapshotIndex,
      is_LastIncludedTerm = snapshotTerm, is_Data = data\<rparr>"

definition sendInstallSnapshot_reply ::
  "int \<Rightarrow> InstallSnapshotArgs \<Rightarrow> InstallSnapshotReply option \<Rightarrow> 'c Raft \<Rightarrow> 'c Raft option" where
  "sendInstallSnapshot_reply requestedServerId args response rf =
     (case response of
        None \<Rightarrow> Some (persist rf)
      | Some reply \<Rightarrow>
          if isr_Term reply > currentTerm rf then Some (persist (becomeFollower (isr_Term reply) rf))
          else if rstate rf \<noteq> LeaderState \<or> currentTerm rf \<noteq> is_Term args
                  \<or> is_LastIncludedIndex args \<noteq> snapshotLastIndex rf
          then Some (persist rf)
          else do {
            next \<leftarrow> go_nth (nextIndex rf) requestedServerId;
            ni \<leftarrow> go_upd (nextIndex rf) requestedServerId (max (is_LastIncludedIndex args + 1) next);
            match \<leftarrow> go_nth (matchIndex rf) requestedServerId;
            mi \<leftarrow> go_upd (matchIndex rf) requestedServerId (max (is_LastIncludedIndex args) match);
            rf1 \<leftarrow> updateCommitIndex (rf\<lparr>nextIndex := ni, matchIndex := mi\<rparr>);
            Some (persist rf1)
          })"

lemmas raft_ops = RequestVote_def AppendEntries_def InstallSnapshot_def Start_def startElection_def
  sendRequestVote_reply_def sendEntries_reply_def sendInstallSnapshot_reply_def Snapshot_def

end
