(* ===== verification/Raft_Peer_Props.thy ===== *)
theory Raft_Peer_Props
  imports Raft_Peer
begin

text \<open>
  Correctness of a single Raft peer: the well-formedness invariant of its state, that every RPC
  handler returns and keeps it whatever the arguments, what \<^verbatim>\<open>AppendEntries\<close> does to the log, when
  a vote is granted, when the commit index moves, and that a crash loses nothing that was saved.
\<close>

section \<open>Vocabulary\<close>

definition wf_raft :: "'c Raft \<Rightarrow> bool" where
  "wf_raft rf \<longleftrightarrow> rlog rf \<noteq> [] \<and> Term (hd (rlog rf)) = snapshotLastTerm rf
     \<and> 0 \<le> snapshotLastIndex rf
     \<and> length (nextIndex rf) = npeers rf \<and> length (matchIndex rf) = npeers rf
     \<and> 0 \<le> me rf \<and> me rf < int (npeers rf)
     \<and> majorityThreshold rf = go_div (int (npeers rf) + 1) 2"

text \<open>The part of the state \<^verbatim>\<open>persist\<close> writes, and that it has been written.\<close>

definition saved :: "'c Raft \<Rightarrow> bool" where
  "saved rf \<longleftrightarrow> raftstate (persister rf) = encode_state rf \<and> psnapshot (persister rf) = snapshot rf"

text \<open>What an \<^verbatim>\<open>AppendEntries\<close> does to the entries after the common index.\<close>

fun ae_merge :: "'c LogEntry list \<Rightarrow> 'c LogEntry list \<Rightarrow> 'c LogEntry list" where
  "ae_merge xs [] = xs"
| "ae_merge [] (y # ys) = y # ys"
| "ae_merge (x # xs) (y # ys) = (if Term x \<noteq> Term y then y # ys else x # ae_merge xs ys)"

text \<open>The state in which \<^verbatim>\<open>AppendEntries\<close> runs its consistency check.\<close>

definition ae_enter :: "int \<Rightarrow> 'c AppendEntriesArgs \<Rightarrow> 'c Raft \<Rightarrow> 'c Raft" where
  "ae_enter now args rf =
     (let rf1 = rf\<lparr>rstate := FollowerState\<rparr>
      in (if ae_Term args > currentTerm rf1 then becomeFollower (ae_Term args) rf1 else rf1)
           \<lparr>lastHeartBeat := now\<rparr>)"

definition commit_to :: "int \<Rightarrow> 'c Raft \<Rightarrow> 'c Raft" where
  "commit_to lc rf = (if lc > commitIndex rf then rf\<lparr>commitIndex := min lc (logLength rf - 1)\<rparr> else rf)"

text \<open>A candidate's log is at least as up to date as a peer's (last term, then last index).\<close>

definition up_to_date :: "RequestVoteArgs \<Rightarrow> 'c Raft \<Rightarrow> bool" where
  "up_to_date args rf \<longleftrightarrow>
     (Term (last (rlog rf)) < rv_LastLogTerm args
      \<or> Term (last (rlog rf)) = rv_LastLogTerm args \<and> logLength rf - 1 \<le> rv_LastLogIndex args)"

text \<open>Concrete peers of a cluster of three, with two entries of terms 1 and 2 in the log.\<close>

definition demo_log :: "nat LogEntry list" where
  "demo_log = [\<lparr>Term = 0, Command = None\<rparr>, \<lparr>Term = 1, Command = Some 7\<rparr>, \<lparr>Term = 2, Command = Some 8\<rparr>]"

definition demo_peer :: "int \<Rightarrow> nat Raft" where
  "demo_peer i = (the (Make 3 i MakePersister))\<lparr>currentTerm := 2, rlog := demo_log\<rparr>"

definition demo_leader :: "nat Raft" where
  "demo_leader = (demo_peer 0)\<lparr>rstate := LeaderState, nextIndex := [3, 3, 3], matchIndex := [2, 2, 0]\<rparr>"

definition demo_append :: "int \<Rightarrow> nat AppendEntriesArgs" where
  "demo_append prevTerm = \<lparr>ae_Term = 3, ae_LeaderId = 0, ae_LeaderCommit = 1, ae_PrevLogIndex = 1,
     ae_PrevLogTerm = prevTerm, ae_Entries = [\<lparr>Term = 3, Command = Some 9\<rparr>]\<rparr>"

definition demo_vote :: RequestVoteArgs where
  "demo_vote = \<lparr>rv_Term = 3, rv_CandidateId = 2, rv_LastLogIndex = 2, rv_LastLogTerm = 2\<rparr>"

section \<open>Frame lemmas\<close>

lemma persist_frame [simp]:
  "npeers (persist rf) = npeers rf" "me (persist rf) = me rf"
  "majorityThreshold (persist rf) = majorityThreshold rf"
  "votesReceived (persist rf) = votesReceived rf" "lastHeartBeat (persist rf) = lastHeartBeat rf"
  "rstate (persist rf) = rstate rf" "currentTerm (persist rf) = currentTerm rf"
  "votedFor (persist rf) = votedFor rf" "rlog (persist rf) = rlog rf"
  "commitIndex (persist rf) = commitIndex rf" "lastApplied (persist rf) = lastApplied rf"
  "nextIndex (persist rf) = nextIndex rf" "matchIndex (persist rf) = matchIndex rf"
  "isSnapshotApplied (persist rf) = isSnapshotApplied rf"
  "snapshotLastIndex (persist rf) = snapshotLastIndex rf"
  "snapshotLastTerm (persist rf) = snapshotLastTerm rf" "snapshot (persist rf) = snapshot rf"
  by (simp_all add: persist_def)

lemma saved_persist [simp]: "saved (persist rf)"
  by (simp add: saved_def persist_def Save_def encode_state_def)

lemma wf_persist [simp]: "wf_raft (persist rf) = wf_raft rf"
  by (simp add: wf_raft_def)

lemma logLength_persist [simp]: "logLength (persist rf) = logLength rf"
  by (simp add: logLength_def)

lemma becomeFollower_frame [simp]:
  "npeers (becomeFollower t rf) = npeers rf" "me (becomeFollower t rf) = me rf"
  "majorityThreshold (becomeFollower t rf) = majorityThreshold rf"
  "votesReceived (becomeFollower t rf) = votesReceived rf"
  "lastHeartBeat (becomeFollower t rf) = lastHeartBeat rf"
  "rstate (becomeFollower t rf) = FollowerState" "currentTerm (becomeFollower t rf) = t"
  "votedFor (becomeFollower t rf) = -1" "rlog (becomeFollower t rf) = rlog rf"
  "commitIndex (becomeFollower t rf) = commitIndex rf" "lastApplied (becomeFollower t rf) = lastApplied rf"
  "nextIndex (becomeFollower t rf) = nextIndex rf" "matchIndex (becomeFollower t rf) = matchIndex rf"
  "isSnapshotApplied (becomeFollower t rf) = isSnapshotApplied rf"
  "snapshotLastIndex (becomeFollower t rf) = snapshotLastIndex rf"
  "snapshotLastTerm (becomeFollower t rf) = snapshotLastTerm rf"
  "snapshot (becomeFollower t rf) = snapshot rf" "persister (becomeFollower t rf) = persister rf"
  by (simp_all add: becomeFollower_def)

lemma wf_becomeFollower [simp]: "wf_raft (becomeFollower t rf) = wf_raft rf"
  by (simp add: wf_raft_def)

lemma logLength_becomeFollower [simp]: "logLength (becomeFollower t rf) = logLength rf"
  by (simp add: logLength_def)

lemma ae_enter_frame [simp]:
  "npeers (ae_enter now args rf) = npeers rf" "me (ae_enter now args rf) = me rf"
  "majorityThreshold (ae_enter now args rf) = majorityThreshold rf"
  "votesReceived (ae_enter now args rf) = votesReceived rf"
  "rstate (ae_enter now args rf) = FollowerState"
  "rlog (ae_enter now args rf) = rlog rf"
  "commitIndex (ae_enter now args rf) = commitIndex rf" "lastApplied (ae_enter now args rf) = lastApplied rf"
  "nextIndex (ae_enter now args rf) = nextIndex rf" "matchIndex (ae_enter now args rf) = matchIndex rf"
  "isSnapshotApplied (ae_enter now args rf) = isSnapshotApplied rf"
  "snapshotLastIndex (ae_enter now args rf) = snapshotLastIndex rf"
  "snapshotLastTerm (ae_enter now args rf) = snapshotLastTerm rf"
  "snapshot (ae_enter now args rf) = snapshot rf"
  by (simp_all add: ae_enter_def Let_def)

lemma ae_enter_term [simp]:
  "currentTerm (ae_enter now args rf) = max (ae_Term args) (currentTerm rf)"
  "votedFor (ae_enter now args rf) = (if ae_Term args > currentTerm rf then -1 else votedFor rf)"
  by (auto simp: ae_enter_def Let_def)

lemma logLength_ae_enter [simp]: "logLength (ae_enter now args rf) = logLength rf"
  by (simp add: logLength_def)

lemma wf_ae_enter [simp]: "wf_raft (ae_enter now args rf) = wf_raft rf"
  by (simp add: wf_raft_def)

lemma commit_to_frame [simp]:
  "npeers (commit_to lc rf) = npeers rf" "me (commit_to lc rf) = me rf"
  "majorityThreshold (commit_to lc rf) = majorityThreshold rf"
  "votesReceived (commit_to lc rf) = votesReceived rf"
  "rstate (commit_to lc rf) = rstate rf" "currentTerm (commit_to lc rf) = currentTerm rf"
  "votedFor (commit_to lc rf) = votedFor rf" "rlog (commit_to lc rf) = rlog rf"
  "lastApplied (commit_to lc rf) = lastApplied rf"
  "nextIndex (commit_to lc rf) = nextIndex rf" "matchIndex (commit_to lc rf) = matchIndex rf"
  "isSnapshotApplied (commit_to lc rf) = isSnapshotApplied rf"
  "snapshotLastIndex (commit_to lc rf) = snapshotLastIndex rf"
  "snapshotLastTerm (commit_to lc rf) = snapshotLastTerm rf" "snapshot (commit_to lc rf) = snapshot rf"
  by (simp_all add: commit_to_def)

lemma wf_commit_to [simp]: "wf_raft (commit_to lc rf) = wf_raft rf"
  by (simp add: wf_raft_def)

lemma wf_rlogD: "wf_raft rf \<Longrightarrow> rlog rf \<noteq> []"
  by (simp add: wf_raft_def)

section \<open>The reconciliation loop\<close>

lemma matchEntries_merge:
  assumes "snapshotLastIndex rf + int k = lp" and "k \<le> length (rlog rf)"
  shows "\<exists>l rest. matchEntries rf lp es = Some (rf\<lparr>rlog := l\<rparr>, rest)
           \<and> l @ rest = take k (rlog rf) @ ae_merge (drop k (rlog rf)) es"
  using assms
proof (induction rf lp es arbitrary: k rule: matchEntries.induct)
  case (1 rf lp)
  then show ?case by (intro exI [of _ "rlog rf"] exI [of _ "[]"]) simp
next
  case (2 rf lp e es)
  show ?case
  proof (cases "k < length (rlog rf)")
    case False
    with "2.prems" show ?thesis
      by (intro exI [of _ "rlog rf"] exI [of _ "e # es"]) (auto simp: logLength_def go_len_def)
  next
    case True
    then have inr: "lp < logLength rf" "absoluteIndexToLogIndex rf lp = int k"
      using "2.prems" by (auto simp: logLength_def go_len_def absoluteIndexToLogIndex_def)
    have nth: "go_nth (rlog rf) (int k) = Some (rlog rf ! k)"
      using True by (simp add: go_nth_def go_len_def)
    have dr: "drop k (rlog rf) = rlog rf ! k # drop (Suc k) (rlog rf)"
      using True by (simp add: Cons_nth_drop_Suc)
    show ?thesis
    proof (cases "Term (rlog rf ! k) = Term e")
      case False
      with True inr nth show ?thesis
        by (intro exI [of _ "take k (rlog rf)"] exI [of _ "e # es"])
           (simp add: dr go_to_def go_len_def)
    next
      case same: True
      then obtain l rest where
        "matchEntries rf (lp + 1) es = Some (rf\<lparr>rlog := l\<rparr>, rest)"
        "l @ rest = take (Suc k) (rlog rf) @ ae_merge (drop (Suc k) (rlog rf)) es"
        using "2.IH" [of "rlog rf ! k" "Suc k"] inr nth True "2.prems" by auto
      moreover have "take (Suc k) (rlog rf) = take k (rlog rf) @ [rlog rf ! k]"
        using True by (simp add: take_Suc_conv_app_nth)
      ultimately show ?thesis
        using inr nth same by (intro exI [of _ l] exI [of _ rest]) (simp add: dr)
    qed
  qed
qed

lemma ae_merge_no_conflict:
  "(\<forall>i < min (length xs) (length ys). Term (xs ! i) = Term (ys ! i)) \<Longrightarrow>
   ae_merge xs ys = xs @ drop (length xs) ys"
proof (induction xs ys rule: ae_merge.induct)
  case (3 x xs y ys)
  then have "Term x = Term y" by force
  moreover have "\<forall>i < min (length xs) (length ys). Term (xs ! i) = Term (ys ! i)"
    using "3.prems" by force
  ultimately show ?case using "3.IH" by simp
qed auto

lemma ae_merge_conflict:
  "i < length xs \<Longrightarrow> i < length ys \<Longrightarrow> Term (xs ! i) \<noteq> Term (ys ! i) \<Longrightarrow>
   (\<forall>j < i. Term (xs ! j) = Term (ys ! j)) \<Longrightarrow> ae_merge xs ys = take i xs @ drop i ys"
proof (induction xs ys arbitrary: i rule: ae_merge.induct)
  case (3 x xs y ys)
  show ?case
  proof (cases i)
    case 0
    with "3.prems" show ?thesis by simp
  next
    case (Suc k)
    with "3.prems" have "Term x = Term y" "\<forall>j < k. Term (xs ! j) = Term (ys ! j)" by force+
    with 3 Suc show ?thesis by simp
  qed
qed auto

lemma ae_merge_terms:
  "i < length ys \<Longrightarrow> i < length (ae_merge xs ys) \<and> Term (ae_merge xs ys ! i) = Term (ys ! i)"
  by (induction xs ys arbitrary: i rule: ae_merge.induct) (auto simp: nth_Cons split: nat.split)

lemma ae_merge_idem: "ae_merge (ae_merge xs ys) ys = ae_merge xs ys"
proof (induction xs ys rule: ae_merge.induct)
  case (2 y ys)
  have "ae_merge zs zs = zs" for zs :: "'a LogEntry list"
    by (induction zs) auto
  then show ?case by simp
next
  case (3 x xs y ys)
  have "ae_merge zs zs = zs" for zs :: "'a LogEntry list"
    by (induction zs) auto
  with 3 show ?case by simp
qed simp

section \<open>Failure replies\<close>

lemma scanTerm_first:
  assumes "i < length l"
  shows "\<exists>f. scanTerm l t i first = Some f \<and>
     (if \<exists>j \<le> i. Term (l ! j) = t
      then \<exists>j \<le> i. f = int j \<and> Term (l ! j) = t \<and> (\<forall>m < j. Term (l ! m) \<noteq> t)
      else f = first)"
  using assms
proof (induction i arbitrary: first)
  case 0
  then show ?case by (auto simp: go_nth_def go_len_def)
next
  case (Suc i)
  let ?first = "if t = Term (l ! Suc i) then int (Suc i) else first"
  from Suc.IH [OF Suc_lessD [OF Suc.prems], of ?first] obtain f where f: "scanTerm l t i ?first = Some f"
    "if \<exists>j \<le> i. Term (l ! j) = t
     then \<exists>j \<le> i. f = int j \<and> Term (l ! j) = t \<and> (\<forall>m < j. Term (l ! m) \<noteq> t)
     else f = ?first"
    by blast
  have nth: "go_nth l (int (Suc i)) = Some (l ! Suc i)"
    using Suc.prems by (simp add: go_nth_def go_len_def nat_add_distrib)
  have "scanTerm l t (Suc i) first = Some f"
    using f(1) nth by simp
  moreover have "if \<exists>j \<le> Suc i. Term (l ! j) = t
     then \<exists>j \<le> Suc i. f = int j \<and> Term (l ! j) = t \<and> (\<forall>m < j. Term (l ! m) \<noteq> t)
     else f = first"
  proof (cases "\<exists>j \<le> i. Term (l ! j) = t")
    case True
    then show ?thesis using f(2) by (auto simp: le_SucI)
  next
    case False
    then show ?thesis using f(2) by (auto simp: le_Suc_eq less_Suc_eq_le)
  qed
  ultimately show ?case by blast
qed

text \<open>The index a failure reply carries: the first entry of the conflicting term.\<close>

lemma buildFailedReply_first:
  assumes "0 \<le> i" and "i < go_len (rlog rf)"
  obtains j where "j \<le> nat i" and "Term (rlog rf ! j) = Term (rlog rf ! nat i)"
    and "\<forall>m < j. Term (rlog rf ! m) \<noteq> Term (rlog rf ! nat i)"
    and "buildFailedReply i rf reply = Some (reply\<lparr>aer_Success := False,
           aer_FailedTerm := Term (rlog rf ! nat i),
           aer_FailedFirstIndex := max 1 (snapshotLastIndex rf +
             (if Term (rlog rf ! nat i) = snapshotLastTerm rf then 0 else int j))\<rparr>)"
proof -
  have lt: "nat i < length (rlog rf)" using assms by (auto simp: go_len_def)
  from scanTerm_first [OF lt, of "Term (rlog rf ! nat i)" i]
  obtain f j where "scanTerm (rlog rf) (Term (rlog rf ! nat i)) (nat i) i = Some f"
    "j \<le> nat i" "f = int j" "Term (rlog rf ! j) = Term (rlog rf ! nat i)"
    "\<forall>m < j. Term (rlog rf ! m) \<noteq> Term (rlog rf ! nat i)"
    by (metis order_refl)
  with that [of j] assms show thesis
    by (auto simp: buildFailedReply_def go_nth_in max.commute add.commute)
qed

section \<open>The handlers in closed form\<close>

lemma AppendEntries_stale:
  "ae_Term args < currentTerm rf \<Longrightarrow> AppendEntries now args rf =
     Some (persist rf, \<lparr>aer_Term = currentTerm rf, aer_Success = False, aer_FailedTerm = 0,
                        aer_FailedFirstIndex = 0\<rparr>)"
  by (simp add: AppendEntries_def Let_def)

lemma AppendEntries_unfold:
  "AppendEntries now args rf =
     (if ae_Term args < currentTerm rf
      then Some (persist rf, \<lparr>aer_Term = currentTerm rf, aer_Success = False, aer_FailedTerm = 0,
                              aer_FailedFirstIndex = 0\<rparr>)
      else
        let reply = \<lparr>aer_Term = currentTerm rf, aer_Success = False, aer_FailedTerm = 0,
                     aer_FailedFirstIndex = 0\<rparr>;
            rf3 = ae_enter now args rf
        in if logLength rf3 \<le> ae_PrevLogIndex args then do {
             r \<leftarrow> buildFailedReply (go_len (rlog rf3) - 1) rf3 reply;
             Some (persist rf3, r)
           }
           else if snapshotLastIndex rf3 > ae_PrevLogIndex args
           then Some (persist rf3,
                  reply\<lparr>aer_Success := False, aer_FailedTerm := snapshotLastTerm rf3,
                        aer_FailedFirstIndex := snapshotLastIndex rf3\<rparr>)
           else do {
             e \<leftarrow> go_nth (rlog rf3) (absoluteIndexToLogIndex rf3 (ae_PrevLogIndex args));
             (if Term e \<noteq> ae_PrevLogTerm args then do {
                r \<leftarrow> buildFailedReply (absoluteIndexToLogIndex rf3 (ae_PrevLogIndex args)) rf3 reply;
                Some (persist rf3, r)
              }
              else do {
                (rf4, rest) \<leftarrow> matchEntries rf3 (ae_PrevLogIndex args + 1) (ae_Entries args);
                Some (persist (commit_to (ae_LeaderCommit args) (rf4\<lparr>rlog := rlog rf4 @ rest\<rparr>)),
                      reply\<lparr>aer_Success := True\<rparr>)
              })
           })"
  unfolding AppendEntries_def ae_enter_def Let_def commit_to_def by (rule refl)

lemma AppendEntries_enter:
  "\<not> ae_Term args < currentTerm rf \<Longrightarrow> AppendEntries now args rf =
     (let rf3 = ae_enter now args rf;
          reply = \<lparr>aer_Term = currentTerm rf, aer_Success = False, aer_FailedTerm = 0,
                   aer_FailedFirstIndex = 0\<rparr>;
          real = absoluteIndexToLogIndex rf (ae_PrevLogIndex args)
      in if logLength rf \<le> ae_PrevLogIndex args
         then map_option (Pair (persist rf3)) (buildFailedReply (go_len (rlog rf) - 1) rf3 reply)
         else if snapshotLastIndex rf > ae_PrevLogIndex args
         then Some (persist rf3, reply\<lparr>aer_FailedTerm := snapshotLastTerm rf,
                                       aer_FailedFirstIndex := snapshotLastIndex rf\<rparr>)
         else if Term (rlog rf ! nat real) \<noteq> ae_PrevLogTerm args
         then map_option (Pair (persist rf3)) (buildFailedReply real rf3 reply)
         else Some (persist (commit_to (ae_LeaderCommit args)
                (rf3\<lparr>rlog := take (Suc (nat real)) (rlog rf)
                    @ ae_merge (drop (Suc (nat real)) (rlog rf)) (ae_Entries args)\<rparr>)),
              reply\<lparr>aer_Success := True\<rparr>))"
  (is "_ \<Longrightarrow> _ = ?rhs")
proof -
  assume nt: "\<not> ae_Term args < currentTerm rf"
  let ?rf3 = "ae_enter now args rf"
  let ?p = "ae_PrevLogIndex args"
  let ?real = "absoluteIndexToLogIndex rf ?p"
  have a: "absoluteIndexToLogIndex ?rf3 ?p = ?real"
    by (simp add: absoluteIndexToLogIndex_def)
  show "AppendEntries now args rf = ?rhs"
  proof (cases "logLength rf \<le> ?p \<or> snapshotLastIndex rf > ?p")
    case True
    with nt show ?thesis
      by (auto simp: AppendEntries_unfold Let_def map_option_case split: option.split)
  next
    case False
    then have r: "0 \<le> ?real" "?real < go_len (rlog rf)"
      by (auto simp: absoluteIndexToLogIndex_def logLength_def)
    then have k: "snapshotLastIndex ?rf3 + int (Suc (nat ?real)) = ?p + 1"
      "Suc (nat ?real) \<le> length (rlog ?rf3)"
      by (auto simp: absoluteIndexToLogIndex_def go_len_def)
    from matchEntries_merge [OF k, of "ae_Entries args"] obtain l rest where
      m: "matchEntries ?rf3 (?p + 1) (ae_Entries args) = Some (?rf3\<lparr>rlog := l\<rparr>, rest)"
      and eq: "l @ rest = take (Suc (nat ?real)) (rlog rf)
          @ ae_merge (drop (Suc (nat ?real)) (rlog rf)) (ae_Entries args)"
      by auto
    show ?thesis
      using nt False r m eq
      by (auto simp: AppendEntries_unfold Let_def go_nth_in a map_option_case split: option.split)
  qed
qed

lemma wf_append_log:
  assumes "wf_raft rf" and "0 \<le> r"
  shows "wf_raft (rf\<lparr>rlog := take (Suc (nat r)) (rlog rf) @ l\<rparr>)"
  using assms by (cases "rlog rf") (auto simp: wf_raft_def)

lemma AppendEntries_total:
  assumes "wf_raft rf"
  shows "\<exists>rf' r. AppendEntries now args rf = Some (rf', r) \<and> wf_raft rf' \<and> saved rf'"
proof (cases "ae_Term args < currentTerm rf")
  case True
  with assms show ?thesis by (simp add: AppendEntries_stale)
next
  case False
  let ?rf3 = "ae_enter now args rf"
  have bf: "\<exists>r'. buildFailedReply i ?rf3 r = Some r'" if "0 \<le> i" "i < go_len (rlog rf)" for i r
    using that by (metis ae_enter_frame(6) buildFailedReply_first)
  have last: "0 \<le> go_len (rlog rf) - 1"
    using wf_rlogD [OF assms] by (simp add: go_len_def Suc_leI)
  have real: "0 \<le> absoluteIndexToLogIndex rf p \<and> absoluteIndexToLogIndex rf p < go_len (rlog rf)"
    if "\<not> logLength rf \<le> p" "\<not> snapshotLastIndex rf > p" for p
    using that by (auto simp: absoluteIndexToLogIndex_def logLength_def)
  show ?thesis
    using assms bf [OF last] bf real wf_append_log [of ?rf3]
    by (auto simp: AppendEntries_enter [OF False] Let_def)
qed

lemma RequestVote_closed:
  assumes "rlog rf \<noteq> []"
  shows "RequestVote args rf =
    (let rf1 = (if rv_Term args > currentTerm rf then becomeFollower (rv_Term args) rf else rf)
     in if rv_Term args < currentTerm rf
        then Some (persist rf, \<lparr>rvr_Term = currentTerm rf, rvr_VoteGranted = False\<rparr>)
        else if (votedFor rf1 = -1 \<or> votedFor rf1 = rv_CandidateId args) \<and> up_to_date args rf
        then Some (persist (rf1\<lparr>votedFor := rv_CandidateId args\<rparr>),
                   \<lparr>rvr_Term = currentTerm rf, rvr_VoteGranted = True\<rparr>)
        else Some (persist rf1, \<lparr>rvr_Term = currentTerm rf, rvr_VoteGranted = False\<rparr>))"
  using assms go_nth_last [OF assms]
  by (auto simp: RequestVote_def Let_def up_to_date_def)

lemma RequestVote_total:
  assumes "wf_raft rf"
  shows "\<exists>rf' r. RequestVote args rf = Some (rf', r) \<and> wf_raft rf' \<and> saved rf'"
proof -
  have "wf_raft (rf\<lparr>votedFor := v\<rparr>)" "wf_raft (becomeFollower t rf\<lparr>votedFor := v\<rparr>)" for v t
    using assms by (simp_all add: wf_raft_def)
  then show ?thesis
    using assms by (simp add: RequestVote_closed [OF wf_rlogD [OF assms]] Let_def)
qed

lemma trimLogFrom_closed:
  assumes "-1 \<le> absoluteIndexToLogIndex rf i" and "absoluteIndexToLogIndex rf i < go_len (rlog rf)"
  shows "trimLogFrom i t rf = Some (rf\<lparr>rlog := \<lparr>Term = t, Command = None\<rparr>
           # drop (nat (absoluteIndexToLogIndex rf i + 1)) (rlog rf)\<rparr>)"
  using assms by (simp add: trimLogFrom_def go_from_in)

lemma InstallSnapshot_closed:
  "InstallSnapshot now args rf =
     (if is_Term args < currentTerm rf
      then Some (persist rf, \<lparr>isr_Term = currentTerm rf\<rparr>)
      else if snapshotLastIndex rf \<ge> is_LastIncludedIndex args
      then Some (persist (rf\<lparr>lastHeartBeat := now\<rparr>), \<lparr>isr_Term = currentTerm rf\<rparr>)
      else let k = is_LastIncludedIndex args - snapshotLastIndex rf;
               rest = (if k < go_len (rlog rf) \<and> Term (rlog rf ! nat k) = is_LastIncludedTerm args
                       then drop (nat (k + 1)) (rlog rf) else [])
           in Some (persist (rf\<lparr>lastHeartBeat := now,
                       rlog := \<lparr>Term = is_LastIncludedTerm args, Command = None\<rparr> # rest,
                       commitIndex := max (commitIndex rf) (is_LastIncludedIndex args),
                       snapshotLastIndex := is_LastIncludedIndex args,
                       snapshotLastTerm := is_LastIncludedTerm args,
                       snapshot := is_Data args,
                       isSnapshotApplied := False\<rparr>), \<lparr>isr_Term = currentTerm rf\<rparr>))"
  by (auto simp: InstallSnapshot_def Let_def absoluteIndexToLogIndex_def go_nth_in trimLogFrom_def
      go_from_in)

lemma InstallSnapshot_total:
  assumes "wf_raft rf"
  shows "\<exists>rf' r. InstallSnapshot now args rf = Some (rf', r) \<and> wf_raft rf' \<and> saved rf'"
  using assms by (auto simp: InstallSnapshot_closed Let_def wf_raft_def)

lemma Snapshot_closed:
  assumes "snapshotLastIndex rf < i" and "i < logLength rf"
  shows "Snapshot i snap rf =
    (let k = nat (i - snapshotLastIndex rf); t = Term (rlog rf ! k)
     in Some (persist (rf\<lparr>snapshotLastTerm := t, snapshot := snap,
                          rlog := \<lparr>Term = t, Command = None\<rparr> # drop (Suc k) (rlog rf),
                          snapshotLastIndex := i\<rparr>)))"
  using assms
  by (auto simp: Snapshot_def trimLogFrom_def go_nth_in go_from_in absoluteIndexToLogIndex_def
      logLength_def Let_def Suc_nat_eq_nat_zadd1 add.commute)

lemma readPersist_encode:
  "readPersist (encode_state s) rf =
     Some (rf\<lparr>currentTerm := currentTerm s, votedFor := votedFor s, rlog := rlog s,
              snapshotLastIndex := snapshotLastIndex s, snapshotLastTerm := snapshotLastTerm s,
              lastApplied := snapshotLastIndex s, commitIndex := snapshotLastIndex s\<rparr>)"
  by (simp add: readPersist_def encode_state_def go_len_def)

section \<open>Properties of the handlers\<close>

text \<open>C12. On a well-formed peer no RPC handler panics, whatever its arguments are: \<^verbatim>\<open>RequestVote\<close>,
  \<^verbatim>\<open>AppendEntries\<close> and \<^verbatim>\<open>InstallSnapshot\<close> return a well-formed peer whose state has been saved.\<close>

theorem rpc_handlers_total:
  assumes "wf_raft rf"
  shows "(\<exists>rf1 r1. RequestVote va rf = Some (rf1, r1) \<and> wf_raft rf1 \<and> saved rf1)
    \<and> (\<exists>rf2 r2. AppendEntries now aa rf = Some (rf2, r2) \<and> wf_raft rf2 \<and> saved rf2)
    \<and> (\<exists>rf3 r3. InstallSnapshot now sa rf = Some (rf3, r3) \<and> wf_raft rf3 \<and> saved rf3)"
  using RequestVote_total [OF assms] AppendEntries_total [OF assms] InstallSnapshot_total [OF assms]
  by blast

theorem rpc_handlers_total_witness:
  "wf_raft (demo_peer 1)
    \<and> (\<exists>rf1 r1. RequestVote demo_vote (demo_peer 1) = Some (rf1, r1) \<and> wf_raft rf1 \<and> saved rf1)"
proof -
  have wf: "wf_raft (demo_peer 1)" by code_simp
  then show ?thesis using rpc_handlers_total [OF wf, of demo_vote] by blast
qed

lemma AppendEntries_successD:
  assumes "AppendEntries now args rf = Some (rf', r)" and "aer_Success r"
  defines "k \<equiv> Suc (nat (ae_PrevLogIndex args - snapshotLastIndex rf))"
  shows "currentTerm rf \<le> ae_Term args"
    and "snapshotLastIndex rf \<le> ae_PrevLogIndex args" and "ae_PrevLogIndex args < logLength rf"
    and "Term (rlog rf ! (k - 1)) = ae_PrevLogTerm args"
    and "rf' = persist (commit_to (ae_LeaderCommit args) ((ae_enter now args rf)
           \<lparr>rlog := take k (rlog rf) @ ae_merge (drop k (rlog rf)) (ae_Entries args)\<rparr>))"
    and "aer_Term r = currentTerm rf"
proof -
  let ?a = "absoluteIndexToLogIndex rf (ae_PrevLogIndex args)"
  have a: "Suc (nat ?a) = k" "nat ?a = k - 1" "Suc (k - Suc 0) = k"
    by (simp_all add: k_def absoluteIndexToLogIndex_def)
  have nt: "\<not> ae_Term args < currentTerm rf"
    using assms(1,2) by (auto simp: AppendEntries_stale)
  have nf: False if "buildFailedReply i s r0 = Some r" for i and s :: "'a Raft" and r0
    using that assms(2) by (auto simp: buildFailedReply_def bind_Some_iff Let_def)
  show "currentTerm rf \<le> ae_Term args" using nt by simp
  show "snapshotLastIndex rf \<le> ae_PrevLogIndex args" "ae_PrevLogIndex args < logLength rf"
    "Term (rlog rf ! (k - 1)) = ae_PrevLogTerm args"
    "rf' = persist (commit_to (ae_LeaderCommit args) ((ae_enter now args rf)
       \<lparr>rlog := take k (rlog rf) @ ae_merge (drop k (rlog rf)) (ae_Entries args)\<rparr>))"
    "aer_Term r = currentTerm rf"
    using assms(1,2) nf
    by (auto simp: AppendEntries_enter [OF nt] Let_def a split: if_splits)
qed

text \<open>C5. When \<^verbatim>\<open>AppendEntries\<close> succeeds, the log up to the common index is untouched, every sent entry's
  term is at its place, entries that agree with the ones sent are kept with everything behind them,
  and from the first disagreement on the log is the leader's.\<close>

theorem append_entries_reconciles:
  assumes "AppendEntries now args rf = Some (rf', r)" and "aer_Success r"
  defines "k \<equiv> Suc (nat (ae_PrevLogIndex args - snapshotLastIndex rf))"
  defines "old \<equiv> drop k (rlog rf)" and "new \<equiv> drop k (rlog rf')" and "sent \<equiv> ae_Entries args"
  shows "take k (rlog rf') = take k (rlog rf)
    \<and> (\<forall>i < length sent. i < length new \<and> Term (new ! i) = Term (sent ! i))
    \<and> ((\<forall>i < min (length old) (length sent). Term (old ! i) = Term (sent ! i))
        \<longrightarrow> new = old @ drop (length old) sent)
    \<and> (\<forall>i < min (length old) (length sent). Term (old ! i) \<noteq> Term (sent ! i)
        \<and> (\<forall>j < i. Term (old ! j) = Term (sent ! j)) \<longrightarrow> new = take i old @ drop i sent)"
proof -
  note D = AppendEntries_successD [OF assms(1,2)]
  have "k \<le> length (rlog rf)"
    using D(2,3) by (simp add: k_def logLength_def go_len_def)
  then have log': "take k (rlog rf') = take k (rlog rf)" "new = ae_merge old sent"
    unfolding new_def old_def sent_def D(5) k_def by simp_all
  show ?thesis
    using log' ae_merge_terms [of _ sent old] ae_merge_no_conflict [of old sent]
      ae_merge_conflict [of _ old sent] by simp
qed

theorem append_entries_reconciles_witness:
  "\<exists>rf' r. AppendEntries 5 (demo_append 1) (demo_peer 1) = Some (rf', r) \<and> aer_Success r
    \<and> take 2 (rlog rf') = take 2 demo_log"
proof -
  let ?x = "the (AppendEntries 5 (demo_append 1) (demo_peer 1))"
  have x: "AppendEntries 5 (demo_append 1) (demo_peer 1) = Some (fst ?x, snd ?x)" "aer_Success (snd ?x)"
    by code_simp+
  have k: "Suc (nat (ae_PrevLogIndex (demo_append 1) - snapshotLastIndex (demo_peer 1))) = 2"
    "rlog (demo_peer 1) = demo_log"
    by code_simp+
  show ?thesis using append_entries_reconciles [OF x, unfolded k] x by blast
qed

text \<open>Delivering the same successful \<^verbatim>\<open>AppendEntries\<close> again succeeds again and changes neither the
  log nor the commit index, the term or the vote.\<close>

lemma append_entries_redelivery:
  assumes "AppendEntries now args rf = Some (rf1, r1)" and "aer_Success r1"
    and "AppendEntries now' args rf1 = Some (rf2, r2)"
  shows "aer_Success r2 \<and> rlog rf2 = rlog rf1 \<and> commitIndex rf2 = commitIndex rf1
    \<and> currentTerm rf2 = currentTerm rf1 \<and> votedFor rf2 = votedFor rf1"
proof -
  define k where "k = Suc (nat (ae_PrevLogIndex args - snapshotLastIndex rf))"
  note D = AppendEntries_successD [OF assms(1,2), folded k_def]
  have kl: "k \<le> length (rlog rf)"
    using D(2,3) by (simp add: k_def logLength_def go_len_def)
  let ?l = "take k (rlog rf) @ ae_merge (drop k (rlog rf)) (ae_Entries args)"
  have s1: "rlog rf1 = ?l" "snapshotLastIndex rf1 = snapshotLastIndex rf"
    "currentTerm rf1 = ae_Term args"
    using D(1) by (simp_all add: D(5))
  have len: "ae_PrevLogIndex args < logLength rf1" "k \<le> length ?l"
    using kl D(2,3) by (simp_all add: logLength_def s1 go_len_def k_def)
  have nth: "?l ! (k - 1) = rlog rf ! (k - 1)"
    using kl by (simp add: nth_append k_def)
  have real: "Suc (nat (absoluteIndexToLogIndex rf1 (ae_PrevLogIndex args))) = k"
    "nat (absoluteIndexToLogIndex rf1 (ae_PrevLogIndex args)) = k - 1" "Suc (k - Suc 0) = k"
    using D(2) by (simp_all add: absoluteIndexToLogIndex_def s1 k_def)
  have same: "take k ?l @ ae_merge (drop k ?l) (ae_Entries args) = ?l"
    using kl by (simp add: ae_merge_idem)
  have st: "\<not> ae_Term args < currentTerm rf1" by (simp add: s1)
  have eq: "Some (rf2, r2) = Some (persist (commit_to (ae_LeaderCommit args)
      ((ae_enter now' args rf1)\<lparr>rlog := ?l\<rparr>)),
      \<lparr>aer_Term = currentTerm rf1, aer_Success = True, aer_FailedTerm = 0, aer_FailedFirstIndex = 0\<rparr>)"
    using assms(3) len D(2,4) same s1 nth
    by (simp add: AppendEntries_enter [OF st] Let_def real min_absorb2 [OF kl])
  then have "commitIndex rf2 = commitIndex rf1"
    by (auto simp: D(5) commit_to_def logLength_def s1)
  with eq show ?thesis by (simp add: s1)
qed

text \<open>A vote is granted exactly when the candidate's term is current, no other candidate has the
  vote of that term and the candidate's log is at least as up to date as the voter's; then the vote
  is recorded for that term, and otherwise it is left as it was.\<close>

lemma vote_granted_iff:
  assumes "wf_raft rf" and "RequestVote args rf = Some (rf', r)"
  shows "(rvr_VoteGranted r \<longleftrightarrow> currentTerm rf \<le> rv_Term args \<and> up_to_date args rf
           \<and> (currentTerm rf < rv_Term args \<or> votedFor rf \<in> {-1, rv_CandidateId args}))
    \<and> currentTerm rf' = max (currentTerm rf) (rv_Term args)
    \<and> votedFor rf' = (if rvr_VoteGranted r then rv_CandidateId args
         else if currentTerm rf < rv_Term args then -1 else votedFor rf)"
  using assms(2)
  by (auto simp: RequestVote_closed [OF wf_rlogD [OF assms(1)]] Let_def split: if_splits)

text \<open>C13. The commit index only moves to an index that a strict majority of the match indices has
  reached and that holds an entry of the current term.\<close>

theorem commit_index_majority:
  assumes "wf_raft rf" and "updateCommitIndex rf = Some rf'" and "commitIndex rf' \<noteq> commitIndex rf"
  shows "npeers rf < 2 * length (filter (\<lambda>m. commitIndex rf' \<le> m) (matchIndex rf))
    \<and> snapshotLastIndex rf \<le> commitIndex rf' \<and> commitIndex rf' < logLength rf
    \<and> Term (rlog rf ! nat (commitIndex rf' - snapshotLastIndex rf)) = currentTerm rf"
proof -
  let ?n = "length (matchIndex rf)"
  let ?m = "sort (matchIndex rf) ! ((?n - 1) div 2)"
  have n: "?n = npeers rf" "0 < ?n"
    using assms(1) by (auto simp: wf_raft_def)
  have idx: "go_div (int ?n - 1) 2 = int ((?n - 1) div 2)"
    using n by (simp add: go_div_nat of_nat_diff zdiv_int)
  have med: "go_nth (sort (matchIndex rf)) (go_div (int ?n - 1) 2) = Some ?m"
    unfolding idx using n by (simp add: go_nth_def go_len_def)
  obtain e where e: "go_nth (rlog rf) (absoluteIndexToLogIndex rf ?m) = Some e"
    "Term e = currentTerm rf" "commitIndex rf' = ?m"
    using assms(2,3) med
    by (auto simp: updateCommitIndex_def Let_def go_len_def bind_Some_iff split: if_splits)
  have "?n - (?n - 1) div 2 \<le> length (filter (\<lambda>x. ?m \<le> x) (matchIndex rf))"
    using n by (intro sort_ge_count) linarith
  then have "npeers rf < 2 * length (filter (\<lambda>m. ?m \<le> m) (matchIndex rf))"
    using n by linarith
  then show ?thesis
    using e by (auto simp: go_nth_Some_iff absoluteIndexToLogIndex_def logLength_def)
qed

theorem commit_index_majority_witness:
  "\<exists>rf'. wf_raft demo_leader \<and> updateCommitIndex demo_leader = Some rf'
    \<and> commitIndex rf' \<noteq> commitIndex demo_leader
    \<and> npeers demo_leader < 2 * length (filter (\<lambda>m. commitIndex rf' \<le> m) (matchIndex demo_leader))"
proof -
  let ?x = "the (updateCommitIndex demo_leader)"
  have x: "wf_raft demo_leader" "updateCommitIndex demo_leader = Some ?x"
    "commitIndex ?x \<noteq> commitIndex demo_leader"
    by code_simp+
  show ?thesis using commit_index_majority [OF x] x by blast
qed

lemma recover_saved:
  assumes "saved rf"
  shows "\<exists>rf0. Make n i (persister rf) = Some rf0
    \<and> currentTerm rf0 = currentTerm rf \<and> votedFor rf0 = votedFor rf \<and> rlog rf0 = rlog rf
    \<and> snapshotLastIndex rf0 = snapshotLastIndex rf \<and> snapshotLastTerm rf0 = snapshotLastTerm rf
    \<and> snapshot rf0 = snapshot rf
    \<and> commitIndex rf0 = snapshotLastIndex rf \<and> lastApplied rf0 = snapshotLastIndex rf
    \<and> rstate rf0 \<noteq> LeaderState \<and> saved rf0"
  using assms
  by (simp add: Make_def Let_def saved_def readPersist_encode) (simp add: encode_state_def)



end
