(* ===== verification/Raft_Replication.thy ===== *)
theory Raft_Replication
  imports Raft_Peer_Props
begin

text \<open>
  The leader's side of log replication: what \<^verbatim>\<open>Start\<close> and \<^verbatim>\<open>StartSendEntries\<close> send, and what happens when
  one probe, its handling by the follower and the handling of its reply are put together.
\<close>

section \<open>Vocabulary\<close>

text \<open>The goroutine \<^verbatim>\<open>StartSendEntries\<close> starts for one peer.\<close>

definition send_to :: "'c Raft \<Rightarrow> int \<Rightarrow> 'c goroutine" where
  "send_to rf i =
     (let x = nextIndex rf ! nat i; k = nat (x - snapshotLastIndex rf)
      in if x > snapshotLastIndex rf
         then SendEntries i (currentTerm rf) (x - 1) (Term (rlog rf ! (k - 1))) (commitIndex rf)
                (drop k (rlog rf))
         else SendInstallSnapshot i (currentTerm rf) (snapshotLastIndex rf) (snapshotLastTerm rf)
                (snapshot rf))"

text \<open>One probe of follower \<open>j\<close>: send, handle, handle the reply; and a number of them in a row.\<close>

definition exchange :: "int \<Rightarrow> int \<Rightarrow> 'c Raft \<times> 'c Raft \<Rightarrow> ('c Raft \<times> 'c Raft) option" where
  "exchange now j LF = (case LF of (L, F) \<Rightarrow> do {
     gs \<leftarrow> sendLoop L [j];
     (case gs of
        [SendEntries _ term prev prevTerm commit entries] \<Rightarrow> do {
          let args = sendEntries_args (me L) term prev prevTerm commit entries;
          (F', r) \<leftarrow> AppendEntries now args F;
          L' \<leftarrow> sendEntries_reply j args (Some r) L;
          Some (L', F')
        }
      | _ \<Rightarrow> None)
   })"

fun exchanges :: "nat \<Rightarrow> int \<Rightarrow> int \<Rightarrow> 'c Raft \<times> 'c Raft \<Rightarrow> ('c Raft \<times> 'c Raft) option" where
  "exchanges 0 now j LF = Some LF"
| "exchanges (Suc k) now j LF = do { LF' \<leftarrow> exchange now j LF; exchanges k now j LF' }"

text \<open>A follower that answers every probe of the leader with the start of its own snapshot.\<close>

definition stuck :: "int \<Rightarrow> 'c Raft \<Rightarrow> 'c Raft \<Rightarrow> bool" where
  "stuck j L F \<longleftrightarrow> wf_raft L \<and> wf_raft F \<and> rstate L = LeaderState \<and> j \<noteq> me L \<and> 0 \<le> j
     \<and> j < int (npeers L) \<and> currentTerm F \<le> currentTerm L \<and> 1 \<le> snapshotLastIndex F
     \<and> snapshotLastIndex L < snapshotLastIndex F
     \<and> nextIndex L ! nat j \<le> logLength L
     \<and> (nextIndex L ! nat j = snapshotLastIndex F
        \<or> logLength F < nextIndex L ! nat j \<and> Term (last (rlog F)) = snapshotLastTerm F)"

text \<open>A leader of term 3 with five entries, and a follower whose snapshot covers the first two.\<close>

definition demo_long_leader :: "nat Raft" where
  "demo_long_leader = (demo_peer 0)\<lparr>currentTerm := 3, rstate := LeaderState,
     rlog := demo_log @ replicate 3 \<lparr>Term = 3, Command = Some 1\<rparr>, nextIndex := [6, 6, 6]\<rparr>"

definition demo_snapshot_follower :: "nat Raft" where
  "demo_snapshot_follower = (demo_peer 1)\<lparr>snapshotLastIndex := 2, snapshotLastTerm := 2,
     rlog := [\<lparr>Term = 2, Command = None\<rparr>]\<rparr>"

section \<open>Sending\<close>

lemma sendLoop_total:
  assumes "\<forall>i \<in> set is. 0 \<le> i \<and> i < go_len (nextIndex rf) \<and> nextIndex rf ! nat i \<le> logLength rf"
  shows "sendLoop rf is = Some (map (send_to rf) (filter (\<lambda>i. i \<noteq> me rf) is))"
  using assms
proof (induction "is")
  case (Cons i "is")
  let ?x = "nextIndex rf ! nat i"
  have nth: "go_nth (nextIndex rf) i = Some ?x" using Cons.prems by (simp add: go_nth_in)
  have d: "0 \<le> ?x - snapshotLastIndex rf - 1" "?x - snapshotLastIndex rf - 1 < go_len (rlog rf)"
    "nat (?x - snapshotLastIndex rf - 1) = nat (?x - snapshotLastIndex rf) - 1"
    "?x - snapshotLastIndex rf \<le> go_len (rlog rf)"
    if "?x > snapshotLastIndex rf"
    using Cons.prems that by (auto simp: logLength_def)
  show ?case
    using Cons nth d
    by (auto simp: send_to_def Let_def go_nth_in go_from_in absoluteIndexToLogIndex_def)
qed simp

lemma sendLoop_panics:
  assumes "j \<in> set is" and "j \<noteq> me rf" and "go_nth (nextIndex rf) j = Some x"
    and "x > snapshotLastIndex rf" and "go_len (rlog rf) \<le> x - snapshotLastIndex rf - 1"
  shows "sendLoop rf is = None"
  using assms(1)
proof (induction "is")
  case (Cons i "is")
  have "go_nth (rlog rf) (x - snapshotLastIndex rf - 1) = None"
    using assms(5) by (simp add: go_nth_None_iff)
  then show ?case
    using Cons assms(2,3,4)
    by (cases "i = j") (auto simp: absoluteIndexToLogIndex_def Let_def split: bind_splits)
qed simp

lemma sendLoop_entries:
  assumes "j \<noteq> me L" and "0 \<le> j" and "j < go_len (nextIndex L)"
    and "snapshotLastIndex L < nextIndex L ! nat j" and "nextIndex L ! nat j \<le> logLength L"
  shows "sendLoop L [j] =
    (let x = nextIndex L ! nat j; k = nat (x - snapshotLastIndex L)
     in Some [SendEntries j (currentTerm L) (x - 1) (Term (rlog L ! (k - 1))) (commitIndex L)
                (drop k (rlog L))])"
  using assms sendLoop_total [of "[j]" L] by (simp del: sendLoop.simps add: send_to_def Let_def)

section \<open>Backtracking\<close>

lemma buildFailedReply_snapshot:
  assumes "0 \<le> i" "i < go_len (rlog rf)" "Term (rlog rf ! nat i) = snapshotLastTerm rf"
  shows "buildFailedReply i rf reply = Some (reply\<lparr>aer_Success := False,
     aer_FailedTerm := snapshotLastTerm rf, aer_FailedFirstIndex := max (snapshotLastIndex rf) 1\<rparr>)"
  using assms by (simp add: buildFailedReply_def go_nth_in)

lemma stuck_exchange:
  assumes "stuck j L F"
  shows "\<exists>L' F'. exchange now j (L, F) = Some (L', F') \<and> stuck j L' F'
    \<and> nextIndex L' ! nat j = snapshotLastIndex F \<and> snapshotLastIndex F' = snapshotLastIndex F
    \<and> rlog F' = rlog F \<and> commitIndex F' = commitIndex F
    \<and> rlog L' = rlog L \<and> matchIndex L' = matchIndex L \<and> commitIndex L' = commitIndex L"
proof -
  let ?x = "nextIndex L ! nat j"
  have st: "wf_raft L" "wf_raft F" "rstate L = LeaderState" "j \<noteq> me L" "0 \<le> j" "j < int (npeers L)"
    "currentTerm F \<le> currentTerm L" "1 \<le> snapshotLastIndex F"
    "snapshotLastIndex L < snapshotLastIndex F" "?x \<le> logLength L"
    "?x = snapshotLastIndex F \<or> logLength F < ?x \<and> Term (last (rlog F)) = snapshotLastTerm F"
    using assms by (auto simp: stuck_def)
  have jn: "j < go_len (nextIndex L)" "0 \<le> nat j" "nat j < length (nextIndex L)"
    using st by (auto simp: wf_raft_def go_len_def)
  have Fl: "rlog F \<noteq> []" "0 < go_len (rlog F)"
    using wf_rlogD [OF st(2)] by simp_all
  have x: "snapshotLastIndex L < ?x"
    using st(8,9,11) go_len_nonneg [of "rlog F"] unfolding logLength_def by linarith
  define k where "k = nat (?x - snapshotLastIndex L)"
  define args where "args = sendEntries_args (me L) (currentTerm L) (?x - 1)
    (Term (rlog L ! (k - 1))) (commitIndex L) (drop k (rlog L))"
  have send: "sendLoop L [j] = Some [SendEntries j (currentTerm L) (?x - 1)
      (Term (rlog L ! (k - 1))) (commitIndex L) (drop k (rlog L))]"
    using sendLoop_entries [OF st(4,5) jn(1) x st(10)] by (simp add: k_def Let_def)
  have ar: "ae_Term args = currentTerm L" "ae_PrevLogIndex args = ?x - 1"
    by (simp_all add: args_def sendEntries_args_def)
  let ?F' = "persist (ae_enter now args F)"
  have "\<exists>r. AppendEntries now args F = Some (?F', r) \<and> \<not> aer_Success r
      \<and> aer_Term r = currentTerm F \<and> aer_FailedFirstIndex r = snapshotLastIndex F"
  proof (cases "?x = snapshotLastIndex F")
    case True
    with st(7) Fl(2) show ?thesis
      by (simp add: AppendEntries_unfold Let_def ar logLength_def)
  next
    case False
    then have short: "logLength F \<le> ?x - 1" "Term (last (rlog F)) = snapshotLastTerm F"
      using st(11) by auto
    have i: "0 \<le> go_len (rlog F) - 1" "go_len (rlog F) - 1 < go_len (rlog F)"
      using Fl by (auto simp: go_len_def Suc_leI)
    have t: "Term (rlog F ! nat (go_len (rlog F) - 1)) = snapshotLastTerm F"
      using short(2) Fl(1) by (simp add: last_conv_nth go_len_def nat_diff_distrib')
    show ?thesis
      using short(1) st(7,8) buildFailedReply_snapshot [of "go_len (rlog F) - 1" "ae_enter now args F"] i t
      by (simp add: AppendEntries_unfold Let_def ar max_def)
  qed
  then obtain r where r: "AppendEntries now args F = Some (?F', r)" "\<not> aer_Success r"
    "aer_Term r = currentTerm F" "aer_FailedFirstIndex r = snapshotLastIndex F"
    by blast
  let ?L' = "persist (L\<lparr>nextIndex := (nextIndex L)[nat j := snapshotLastIndex F]\<rparr>)"
  have rep: "sendEntries_reply j args (Some r) L = Some ?L'"
    using r(2,3,4) st(3,5,7) jn(1) by (simp add: sendEntries_reply_def ar go_nth_in go_upd_in)
  have ex: "exchange now j (L, F) = Some (?L', ?F')"
    using send r(1) rep by (simp add: exchange_def args_def Let_def)
  have "snapshotLastIndex F \<le> logLength L"
    using st(10,11) go_len_nonneg [of "rlog F"] unfolding logLength_def by linarith
  then have "stuck j ?L' ?F'"
    using st jn by (simp add: stuck_def wf_raft_def logLength_def ar)
  with ex jn show ?thesis by simp
qed

lemma stuck_exchanges:
  "stuck j L F \<Longrightarrow> \<exists>L' F'. exchanges (Suc k) now j (L, F) = Some (L', F')
    \<and> nextIndex L' ! nat j = snapshotLastIndex F \<and> rlog F' = rlog F \<and> commitIndex F' = commitIndex F
    \<and> rlog L' = rlog L \<and> matchIndex L' = matchIndex L \<and> commitIndex L' = commitIndex L"
proof (induction k arbitrary: L F)
  case 0
  from stuck_exchange [OF this, of now] show ?case by auto
next
  case (Suc k)
  from stuck_exchange [OF Suc.prems, of now] obtain L1 F1 where
    1: "exchange now j (L, F) = Some (L1, F1)" "stuck j L1 F1" "snapshotLastIndex F1 = snapshotLastIndex F"
    "rlog F1 = rlog F" "commitIndex F1 = commitIndex F" "rlog L1 = rlog L" "matchIndex L1 = matchIndex L"
    "commitIndex L1 = commitIndex L" by blast
  from Suc.IH [OF 1(2)] 1 show ?case by auto
qed

text \<open>C15. A freshly elected leader and a follower whose shorter log ends in the term of its own snapshot,
  when the leader's snapshot is older than the follower's, exchange rejected probes for ever: after
  any number of rounds the leader's next index is the follower's snapshot index, and neither log,
  match index nor commit index has moved.\<close>

theorem backtracking_livelock:
  assumes "wf_raft L" and "wf_raft F" and "rstate L = LeaderState" and "currentTerm F \<le> currentTerm L"
    and "0 \<le> j" and "j < int (npeers L)" and "j \<noteq> me L"
    and "snapshotLastIndex L < snapshotLastIndex F" and "1 \<le> snapshotLastIndex F"
    and "nextIndex L ! nat j = logLength L" and "logLength F < logLength L"
    and "Term (last (rlog F)) = snapshotLastTerm F"
  shows "\<exists>L' F'. exchanges (Suc k) now j (L, F) = Some (L', F')
    \<and> nextIndex L' ! nat j = snapshotLastIndex F \<and> rlog F' = rlog F \<and> commitIndex F' = commitIndex F
    \<and> rlog L' = rlog L \<and> matchIndex L' = matchIndex L \<and> commitIndex L' = commitIndex L"
  by (rule stuck_exchanges) (use assms in \<open>simp add: stuck_def\<close>)

theorem backtracking_livelock_witness:
  "\<exists>L' F'. exchanges (Suc 9) 5 1 (demo_long_leader, demo_snapshot_follower) = Some (L', F')
    \<and> nextIndex L' ! nat 1 = snapshotLastIndex demo_snapshot_follower \<and> rlog F' = rlog demo_snapshot_follower"
proof -
  let ?L = demo_long_leader and ?F = demo_snapshot_follower
  have h: "wf_raft ?L" "wf_raft ?F" "rstate ?L = LeaderState" "currentTerm ?F \<le> currentTerm ?L"
    "(0 :: int) \<le> 1" "1 < int (npeers ?L)" "1 \<noteq> me ?L" "snapshotLastIndex ?L < snapshotLastIndex ?F"
    "1 \<le> snapshotLastIndex ?F" "nextIndex ?L ! nat 1 = logLength ?L" "logLength ?F < logLength ?L"
    "Term (last (rlog ?F)) = snapshotLastTerm ?F"
    by code_simp+
  show ?thesis using backtracking_livelock [OF h, of 9 5] by blast
qed

section \<open>Starting agreement\<close>

text \<open>On a leader whose next indices lie within its log, \<^verbatim>\<open>Start\<close> appends exactly one entry with the
  command and the current term, returns its index, and starts for every other peer one sender whose
  payload ends with that entry or is the leader's snapshot.\<close>

lemma start_replicates:
  fixes c :: "'c" and rf :: "'c Raft"
  assumes "wf_raft rf" and "rstate rf = LeaderState" and "\<forall>x \<in> set (nextIndex rf). x \<le> logLength rf"
  defines "e \<equiv> \<lparr>Term = currentTerm rf, Command = Some c\<rparr>"
  shows "\<exists>rf' gs. Start now c rf = Some (rf', gs, logLength rf, currentTerm rf, True)
    \<and> rlog rf' = rlog rf @ [e] \<and> matchIndex rf' ! nat (me rf) = logLength rf \<and> wf_raft rf' \<and> saved rf'
    \<and> length gs = npeers rf - 1
    \<and> (\<forall>g \<in> set gs. \<exists>j. j \<noteq> me rf \<and> g = send_to rf' j
         \<and> (case g of SendEntries _ t _ _ _ es \<Rightarrow> t = currentTerm rf \<and> es \<noteq> [] \<and> last es = e
             | SendInstallSnapshot _ t i _ _ \<Rightarrow> t = currentTerm rf \<and> i = snapshotLastIndex rf
             | _ \<Rightarrow> False))"
proof -
  let ?mi = "(matchIndex rf)[nat (me rf) := logLength rf]"
  define rf1 where "rf1 = rf\<lparr>rlog := rlog rf @ [e], matchIndex := ?mi, lastHeartBeat := now\<rparr>"
  define rf' where "rf' = persist rf1"
  have mi: "go_upd (matchIndex rf) (me rf) (logLength rf) = Some ?mi"
    using assms(1) by (simp add: wf_raft_def go_upd_def go_len_def)
  have ll: "logLength rf1 = logLength rf + 1" "snapshotLastIndex rf1 = snapshotLastIndex rf"
    "nextIndex rf1 = nextIndex rf" "npeers rf1 = npeers rf" "me rf1 = me rf"
    "currentTerm rf1 = currentTerm rf" "rlog rf1 = rlog rf @ [e]"
    by (simp_all add: rf1_def logLength_def)
  have np: "length (nextIndex rf) = npeers rf" "0 \<le> me rf" "me rf < int (npeers rf)"
    using assms(1) by (auto simp: wf_raft_def)
  have nx: "nextIndex rf ! nat i \<le> logLength rf" if "0 \<le> i" "i < int (npeers rf)" for i
    using assms(3) np that by (simp add: nth_mem)
  let ?js = "filter (\<lambda>i. i \<noteq> me rf) (go_range (npeers rf))"
  have gs: "sendLoop rf1 (go_range (npeers rf)) = Some (map (send_to rf1) ?js)"
  proof -
    have "\<forall>i \<in> set (go_range (npeers rf)). 0 \<le> i \<and> i < go_len (nextIndex rf1)
        \<and> nextIndex rf1 ! nat i \<le> logLength rf1"
      using nx np by (fastforce simp: ll go_len_def)
    from sendLoop_total [OF this] show ?thesis by (simp add: ll)
  qed
  have st: "Start now c rf = Some (rf', map (send_to rf1) ?js, logLength rf, currentTerm rf, True)"
    using mi gs assms(2)
    by (simp add: Start_def StartSendEntries_def Let_def e_def [symmetric] rf'_def rf1_def logLength_def)
  have len: "length ?js = npeers rf - 1"
  proof -
    have d: "distinct (go_range (npeers rf))" by (simp add: go_range_def distinct_map)
    have "set ?js = {0..<int (npeers rf)} - {me rf}" by auto
    then have "card (set ?js) = npeers rf - 1" using np by (simp add: card_Diff_singleton)
    moreover have "distinct ?js" using d by simp
    ultimately show ?thesis by (metis distinct_card)
  qed
  have payload: "case send_to rf1 j of SendEntries _ t _ _ _ es \<Rightarrow>
        t = currentTerm rf \<and> es \<noteq> [] \<and> last es = e
      | SendInstallSnapshot _ t i _ _ \<Rightarrow> t = currentTerm rf \<and> i = snapshotLastIndex rf
      | _ \<Rightarrow> False" if "0 \<le> j" "j < int (npeers rf)" for j
  proof -
    have "nat (nextIndex rf ! nat j - snapshotLastIndex rf) \<le> length (rlog rf)"
      using nx [OF that] by (auto simp: logLength_def go_len_def)
    then show ?thesis by (simp add: send_to_def Let_def ll)
  qed
  have same: "send_to rf' = send_to rf1" by (simp add: rf'_def send_to_def Let_def fun_eq_iff)
  have "matchIndex rf' ! nat (me rf) = logLength rf"
    using assms(1) by (auto simp: rf'_def rf1_def wf_raft_def intro!: nth_list_update_eq)
  moreover have "wf_raft rf'"
    using assms(1) by (simp add: rf'_def rf1_def wf_raft_def)
  ultimately show ?thesis
    using st len payload same by (fastforce simp: rf'_def ll)
qed

text \<open>A leader that gets \<^verbatim>\<open>InstallSnapshot\<close> from a later term stays a leader of its old term; when its own
  log disagreed with the snapshot and some peer's next index is past it, the next round of
  \<^verbatim>\<open>StartSendEntries\<close> panics.\<close>

lemma deposed_leader_panics:
  assumes "wf_raft rf" and "rstate rf = LeaderState" and "currentTerm rf < is_Term args"
    and "snapshotLastIndex rf < is_LastIncludedIndex args"
    and "is_LastIncludedIndex args < logLength rf"
    and "Term (rlog rf ! nat (is_LastIncludedIndex args - snapshotLastIndex rf)) \<noteq> is_LastIncludedTerm args"
    and "0 \<le> j" and "j < int (npeers rf)" and "j \<noteq> me rf"
    and "is_LastIncludedIndex args + 1 < nextIndex rf ! nat j"
  shows "\<exists>rf'. InstallSnapshot now args rf = Some (rf', \<lparr>isr_Term = currentTerm rf\<rparr>)
    \<and> rstate rf' = LeaderState \<and> currentTerm rf' = currentTerm rf
    \<and> StartSendEntries now' rf' = None"
proof -
  let ?i = "is_LastIncludedIndex args"
  obtain rf' where rf': "InstallSnapshot now args rf = Some (rf', \<lparr>isr_Term = currentTerm rf\<rparr>)"
    "rstate rf' = LeaderState" "currentTerm rf' = currentTerm rf" "snapshotLastIndex rf' = ?i"
    "rlog rf' = [\<lparr>Term = is_LastIncludedTerm args, Command = None\<rparr>]"
    "nextIndex rf' = nextIndex rf" "npeers rf' = npeers rf" "me rf' = me rf"
    using assms(2-6) by (simp add: InstallSnapshot_closed Let_def)
  have nth: "go_nth (nextIndex rf) j = Some (nextIndex rf ! nat j)"
    using assms(1,7,8) by (simp add: wf_raft_def go_nth_def go_len_def)
  have "sendLoop (rf'\<lparr>lastHeartBeat := now'\<rparr>) (go_range (npeers rf)) = None"
    by (rule sendLoop_panics [of j _ _ "nextIndex rf ! nat j"]) (use assms nth rf' in simp_all)
  then show ?thesis using rf' by (simp add: StartSendEntries_def Let_def)
qed

end
