(* ===== verification/Raft_Cluster.thy ===== *)
theory Raft_Cluster
  imports Raft_Replication
begin

text \<open>
  A whole Raft cluster: the peers, the goroutines they have running, the RPCs on the network and the
  replies on their way back. One event is one critical section of one peer (the code between
  \<^verbatim>\<open>rf.mu.Lock()\<close> and \<^verbatim>\<open>rf.mu.Unlock()\<close>), a loss on the network, or a crash and restart. The network is
  \<^verbatim>\<open>labrpc\<close>'s: a request is executed at most once, requests and replies may be lost, delayed and reordered.

  \<open>step e C\<close> is \<open>None\<close> when the event is not enabled in \<open>C\<close>, or when the handler it would run panics: the
  process is then gone, and its server comes back by a \<open>Restart\<close>. A server that restarts reads its
  persister; its goroutines are gone, but a request it had already put on the network (\<open>orphans\<close>) may
  still be executed. \<open>grants\<close> is a history variable, the votes ever given as (term, voter, candidate);
  no step reads it.
\<close>

datatype rpc_reply =
    VoteReply RequestVoteReply
  | EntriesReply AppendEntriesReply
  | SnapshotReply InstallSnapshotReply

record 'c cluster =
  nservers :: nat
  peers :: "int \<Rightarrow> 'c Raft"
  running :: "(int \<times> 'c goroutine) list"
  orphans :: "(int \<times> 'c goroutine) list"
  replies :: "(int \<times> 'c goroutine \<times> rpc_reply) list"
  applying :: "int \<Rightarrow> apply_pc"
  delivered :: "int \<Rightarrow> 'c ApplyMsg list"
  grants :: "(int \<times> int \<times> int) set"

datatype 'c event =
    Tick int int
      \<comment> \<open>one turn of \<^verbatim>\<open>ticker\<close> on a server at a time\<close>
  | Elect int
      \<comment> \<open>a started \<^verbatim>\<open>startElection\<close> runs\<close>
  | Heartbeat int int
      \<comment> \<open>one turn of a running \<^verbatim>\<open>runHeartbeatCycle\<close>\<close>
  | Propose int int 'c
      \<comment> \<open>the service calls \<^verbatim>\<open>Start\<close>\<close>
  | TakeSnapshot int int bytes
      \<comment> \<open>the service calls \<^verbatim>\<open>Snapshot\<close>\<close>
  | Apply int
      \<comment> \<open>\<^verbatim>\<open>applyTicker\<close> runs to its next unlock\<close>
  | Deliver int "'c goroutine" int
      \<comment> \<open>the target of a running sender's RPC handles the request\<close>
  | DeliverOrphan int "'c goroutine" int
      \<comment> \<open>the same for a sender whose process is gone\<close>
  | Lose int "'c goroutine"
      \<comment> \<open>\<^verbatim>\<open>Call\<close> returns false: the request was lost\<close>
  | Reply int "'c goroutine" rpc_reply
      \<comment> \<open>\<^verbatim>\<open>Call\<close> returns true with a reply\<close>
  | LoseReply int "'c goroutine" rpc_reply
      \<comment> \<open>\<^verbatim>\<open>Call\<close> returns false: the reply was lost\<close>
  | Restart int

definition servers :: "'c cluster \<Rightarrow> int set" where
  "servers C = {0..<int (nservers C)}"

definition put :: "int \<Rightarrow> 'c Raft \<Rightarrow> 'c cluster \<Rightarrow> 'c cluster" where
  "put i rf C = C\<lparr>peers := (peers C)(i := rf)\<rparr>"

definition spawn :: "int \<Rightarrow> 'c goroutine list \<Rightarrow> 'c cluster \<Rightarrow> 'c cluster" where
  "spawn i gs C = C\<lparr>running := running C @ map (Pair i) gs\<rparr>"

definition finish :: "int \<Rightarrow> 'c goroutine \<Rightarrow> 'c cluster \<Rightarrow> 'c cluster" where
  "finish i g C = C\<lparr>running := remove1 (i, g) (running C)\<rparr>"

definition grant :: "int \<Rightarrow> int \<Rightarrow> int \<Rightarrow> 'c cluster \<Rightarrow> 'c cluster" where
  "grant t voter cand C = C\<lparr>grants := insert (t, voter, cand) (grants C)\<rparr>"

text \<open>The target of a sender's RPC, and the execution of the RPC there.\<close>

definition handle :: "int \<Rightarrow> int \<Rightarrow> 'c goroutine \<Rightarrow> 'c cluster \<Rightarrow> ('c cluster \<times> rpc_reply) option" where
  "handle now i g C =
     (case g of
        SendRequestVote j t li lt \<Rightarrow>
          if j \<in> servers C then do {
            (rf, r) \<leftarrow> RequestVote (sendRequestVote_args i t li lt) (peers C j);
            Some ((if rvr_VoteGranted r then grant t j i (put j rf C) else put j rf C), VoteReply r)
          } else None
      | SendEntries j t pi pt ci es \<Rightarrow>
          if j \<in> servers C then do {
            (rf, r) \<leftarrow> AppendEntries now (sendEntries_args i t pi pt ci es) (peers C j);
            Some (put j rf C, EntriesReply r)
          } else None
      | SendInstallSnapshot j t si st data \<Rightarrow>
          if j \<in> servers C then do {
            (rf, r) \<leftarrow> InstallSnapshot now (sendInstallSnapshot_args i t si st data) (peers C j);
            Some (put j rf C, SnapshotReply r)
          } else None
      | StartElection \<Rightarrow> None
      | RunHeartbeatCycle \<Rightarrow> None)"

text \<open>The rest of a sender once \<^verbatim>\<open>Call\<close> has returned; \<open>None\<close> is the result false.\<close>

definition continue :: "int \<Rightarrow> 'c goroutine \<Rightarrow> rpc_reply option \<Rightarrow> 'c cluster \<Rightarrow> 'c cluster option" where
  "continue i g res C =
     (case g of
        SendRequestVote j t li lt \<Rightarrow>
          (case res of
             None \<Rightarrow> Some C
           | Some (VoteReply r) \<Rightarrow> do {
               (rf, gs) \<leftarrow> sendRequestVote_reply j t r (peers C i);
               Some (spawn i gs (put i rf C))
             }
           | Some _ \<Rightarrow> None)
      | SendEntries j t pi pt ci es \<Rightarrow>
          (case res of
             None \<Rightarrow> do {
               rf \<leftarrow> sendEntries_reply j (sendEntries_args i t pi pt ci es) None (peers C i);
               Some (put i rf C)
             }
           | Some (EntriesReply r) \<Rightarrow> do {
               rf \<leftarrow> sendEntries_reply j (sendEntries_args i t pi pt ci es) (Some r) (peers C i);
               Some (put i rf C)
             }
           | Some _ \<Rightarrow> None)
      | SendInstallSnapshot j t si st data \<Rightarrow>
          (case res of
             None \<Rightarrow> do {
               rf \<leftarrow> sendInstallSnapshot_reply j (sendInstallSnapshot_args i t si st data) None (peers C i);
               Some (put i rf C)
             }
           | Some (SnapshotReply r) \<Rightarrow> do {
               rf \<leftarrow> sendInstallSnapshot_reply j (sendInstallSnapshot_args i t si st data) (Some r)
                       (peers C i);
               Some (put i rf C)
             }
           | Some _ \<Rightarrow> None)
      | StartElection \<Rightarrow> None
      | RunHeartbeatCycle \<Rightarrow> None)"

fun step :: "'c event \<Rightarrow> 'c cluster \<Rightarrow> 'c cluster option" where
  "step (Tick i now) C =
     (if i \<in> servers C then
        let (rf, gs) = ticker now (peers C i) in Some (spawn i gs (put i rf C))
      else None)"
| "step (Elect i) C =
     (if (i, StartElection) \<in> set (running C) then do {
        (rf, gs) \<leftarrow> startElection (peers C i);
        Some (spawn i gs (grant (currentTerm rf) i i (put i rf (finish i StartElection C))))
      } else None)"
| "step (Heartbeat i now) C =
     (if (i, RunHeartbeatCycle) \<in> set (running C) then do {
        (rf, gs) \<leftarrow> runHeartbeatCycle now (peers C i);
        Some (spawn i gs (put i rf (finish i RunHeartbeatCycle C)))
      } else None)"
| "step (Propose i now c) C =
     (if i \<in> servers C then do {
        (rf, gs, index, term, leader) \<leftarrow> Start now c (peers C i);
        Some (spawn i gs (put i rf C))
      } else None)"
| "step (TakeSnapshot i index snap) C =
     (if i \<in> servers C then do {
        rf \<leftarrow> Snapshot index snap (peers C i);
        Some (put i rf C)
      } else None)"
| "step (Apply i) C =
     (if i \<in> servers C then do {
        (rf, pc, msg) \<leftarrow> applyTicker (applying C i) (peers C i);
        Some ((put i rf C)\<lparr>applying := (applying C)(i := pc),
                delivered := (delivered C)(i := delivered C i @
                  (case msg of None \<Rightarrow> [] | Some m \<Rightarrow> [m]))\<rparr>)
      } else None)"
| "step (Deliver i g now) C =
     (if (i, g) \<in> set (running C) then do {
        (C', r) \<leftarrow> handle now i g (finish i g C);
        Some (C'\<lparr>replies := (i, g, r) # replies C'\<rparr>)
      } else None)"
| "step (DeliverOrphan i g now) C =
     (if (i, g) \<in> set (orphans C) then do {
        (C', r) \<leftarrow> handle now i g (C\<lparr>orphans := remove1 (i, g) (orphans C)\<rparr>);
        Some C'
      } else None)"
| "step (Lose i g) C =
     (if (i, g) \<in> set (running C) then continue i g None (finish i g C) else None)"
| "step (Reply i g r) C =
     (if (i, g, r) \<in> set (replies C)
      then continue i g (Some r) (C\<lparr>replies := remove1 (i, g, r) (replies C)\<rparr>) else None)"
| "step (LoseReply i g r) C =
     (if (i, g, r) \<in> set (replies C)
      then continue i g None (C\<lparr>replies := remove1 (i, g, r) (replies C)\<rparr>) else None)"
| "step (Restart i) C =
     (if i \<in> servers C then do {
        rf \<leftarrow> Make (nservers C) i (persister (peers C i));
        Some ((put i rf C)\<lparr>
                running := filter (\<lambda>(k, g). k \<noteq> i) (running C),
                orphans := orphans C @ filter (\<lambda>(k, g). k = i) (running C),
                replies := filter (\<lambda>(k, g, r). k \<noteq> i) (replies C),
                applying := (applying C)(i := ApplyTop)\<rparr>)
      } else None)"

definition initial :: "nat \<Rightarrow> 'c cluster" where
  "initial n =
     \<lparr>nservers = n, peers = (\<lambda>i. the (Make n i MakePersister)), running = [], orphans = [],
      replies = [], applying = (\<lambda>_. ApplyTop), delivered = (\<lambda>_. []), grants = {}\<rparr>"

fun run :: "'c event list \<Rightarrow> 'c cluster \<Rightarrow> 'c cluster option" where
  "run [] C = Some C"
| "run (e # es) C = do { C' \<leftarrow> step e C; run es C' }"

inductive reachable :: "nat \<Rightarrow> 'c cluster \<Rightarrow> bool" for n where
  start: "reachable n (initial n)"
| step: "reachable n C \<Longrightarrow> step e C = Some C' \<Longrightarrow> reachable n C'"

text \<open>Every finite run from the start leads to a reachable cluster.\<close>

lemma run_reachable: "reachable n C \<Longrightarrow> run es C = Some C' \<Longrightarrow> reachable n C'"
  by (induction es arbitrary: C) (auto simp: bind_Some_iff intro: reachable.step)

lemma put_frame [simp]:
  "nservers (put i rf C) = nservers C" "running (put i rf C) = running C"
  "orphans (put i rf C) = orphans C" "replies (put i rf C) = replies C"
  "applying (put i rf C) = applying C" "delivered (put i rf C) = delivered C"
  "grants (put i rf C) = grants C" "peers (put i rf C) = (peers C)(i := rf)"
  "servers (put i rf C) = servers C"
  by (simp_all add: put_def servers_def)

lemma spawn_frame [simp]:
  "nservers (spawn i gs C) = nservers C" "running (spawn i gs C) = running C @ map (Pair i) gs"
  "orphans (spawn i gs C) = orphans C" "replies (spawn i gs C) = replies C"
  "applying (spawn i gs C) = applying C" "delivered (spawn i gs C) = delivered C"
  "grants (spawn i gs C) = grants C" "peers (spawn i gs C) = peers C"
  "servers (spawn i gs C) = servers C"
  by (simp_all add: spawn_def servers_def)

lemma finish_frame [simp]:
  "nservers (finish i g C) = nservers C" "running (finish i g C) = remove1 (i, g) (running C)"
  "orphans (finish i g C) = orphans C" "replies (finish i g C) = replies C"
  "applying (finish i g C) = applying C" "delivered (finish i g C) = delivered C"
  "grants (finish i g C) = grants C" "peers (finish i g C) = peers C"
  "servers (finish i g C) = servers C"
  by (simp_all add: finish_def servers_def)

lemma grant_frame [simp]:
  "nservers (grant t v c C) = nservers C" "running (grant t v c C) = running C"
  "orphans (grant t v c C) = orphans C" "replies (grant t v c C) = replies C"
  "applying (grant t v c C) = applying C" "delivered (grant t v c C) = delivered C"
  "grants (grant t v c C) = insert (t, v, c) (grants C)" "peers (grant t v c C) = peers C"
  "servers (grant t v c C) = servers C"
  by (simp_all add: grant_def servers_def)

end
