(* ===== verification/Raft_Election.thy ===== *)
theory Raft_Election
  imports Raft_Cluster
begin

text \<open>
  Election safety: a cluster of an odd number of servers never has two leaders of one term. The proof
  is an invariant of the cluster on the votes given so far. For an even number of servers the code's
  \<^verbatim>\<open>majorityThreshold\<close> is half the cluster, and a run of four servers reaches two leaders of term 1.
  The same induction gives the invariants each server keeps across crashes.
\<close>

section \<open>Vocabulary\<close>

text \<open>A change of a peer that gives no vote and counts none.\<close>

definition quiet :: "'c Raft \<Rightarrow> 'c Raft \<Rightarrow> bool" where
  "quiet rf rf' \<longleftrightarrow> npeers rf' = npeers rf \<and> me rf' = me rf
     \<and> majorityThreshold rf' = majorityThreshold rf \<and> votesReceived rf' = votesReceived rf
     \<and> (currentTerm rf' = currentTerm rf \<and> votedFor rf' = votedFor rf
          \<and> (rstate rf' = LeaderState \<longrightarrow> rstate rf = LeaderState)
        \<or> currentTerm rf < currentTerm rf' \<and> rstate rf' \<noteq> LeaderState)"

text \<open>A restart would bring back the persistent part of the state.\<close>

definition durable :: "'c Raft \<Rightarrow> bool" where
  "durable rf \<longleftrightarrow>
     (case Make (npeers rf) (me rf) (persister rf) of
        None \<Rightarrow> False
      | Some rf0 \<Rightarrow> currentTerm rf0 = currentTerm rf \<and> votedFor rf0 = votedFor rf
          \<and> rlog rf0 = rlog rf \<and> snapshotLastIndex rf0 = snapshotLastIndex rf
          \<and> snapshotLastTerm rf0 = snapshotLastTerm rf \<and> snapshot rf0 = snapshot rf)"

definition kept :: "'c Raft \<Rightarrow> 'c Raft \<Rightarrow> bool" where
  "kept rf rf' \<longleftrightarrow> npeers rf' = npeers rf \<and> me rf' = me rf \<and> persister rf' = persister rf
     \<and> currentTerm rf' = currentTerm rf \<and> votedFor rf' = votedFor rf \<and> rlog rf' = rlog rf
     \<and> snapshotLastIndex rf' = snapshotLastIndex rf \<and> snapshotLastTerm rf' = snapshotLastTerm rf
     \<and> snapshot rf' = snapshot rf"

definition good :: "nat \<Rightarrow> int \<Rightarrow> 'c Raft \<Rightarrow> bool" where
  "good n i rf \<longleftrightarrow> wf_raft rf \<and> durable rf \<and> npeers rf = n \<and> me rf = i"

definition vote_set :: "'c Raft \<Rightarrow> int set" where
  "vote_set rf = {j. 0 \<le> j \<and> j < go_len (votesReceived rf) \<and> votesReceived rf ! nat j}"

definition asks :: "int \<Rightarrow> 'c goroutine \<Rightarrow> bool" where
  "asks t g \<longleftrightarrow> (\<exists>j li lt. g = SendRequestVote j t li lt)"

definition pending :: "'c cluster \<Rightarrow> (int \<times> 'c goroutine) set" where
  "pending C = set (running C) \<union> (\<lambda>(i, g, r). (i, g)) ` set (replies C)"

definition quorum :: "nat \<Rightarrow> int set \<Rightarrow> bool" where
  "quorum n Q \<longleftrightarrow> Q \<subseteq> {0..<int n} \<and> go_div (int n + 1) 2 \<le> int (card Q)"

definition granted :: "'c cluster \<Rightarrow> (int \<times> 'c goroutine) set" where
  "granted C = {(i, g). \<exists>r. (i, g, VoteReply r) \<in> set (replies C) \<and> rvr_VoteGranted r}"

text \<open>The invariant: peers are sound, votes given are remembered and unique, a granted reply stands for
  a vote, a counted vote stands for a vote, and a leader has a quorum of them.\<close>

definition inv_good :: "'c cluster \<Rightarrow> bool" where
  "inv_good C \<longleftrightarrow> (\<forall>i \<in> servers C. good (nservers C) i (peers C i))
     \<and> (\<forall>i g. (i, g) \<in> pending C \<union> set (orphans C) \<longrightarrow> i \<in> servers C)"

definition inv_grant :: "'c cluster \<Rightarrow> bool" where
  "inv_grant C \<longleftrightarrow> (\<forall>t j k. (t, j, k) \<in> grants C \<longrightarrow> j \<in> servers C \<and> t \<le> currentTerm (peers C j)
     \<and> (t = currentTerm (peers C j) \<longrightarrow> votedFor (peers C j) = k \<and> 0 \<le> k))"

definition inv_once :: "'c cluster \<Rightarrow> bool" where
  "inv_once C \<longleftrightarrow> (\<forall>t j k k'. (t, j, k) \<in> grants C \<longrightarrow> (t, j, k') \<in> grants C \<longrightarrow> k = k')"

definition inv_reply :: "'c cluster \<Rightarrow> bool" where
  "inv_reply C \<longleftrightarrow> (\<forall>i j t li lt. (i, SendRequestVote j t li lt) \<in> granted C \<longrightarrow> (t, j, i) \<in> grants C)"

definition inv_ask :: "'c cluster \<Rightarrow> bool" where
  "inv_ask C \<longleftrightarrow> (\<forall>i g t. (i, g) \<in> pending C \<longrightarrow> asks t g \<longrightarrow> t \<le> currentTerm (peers C i)
     \<and> (t = currentTerm (peers C i) \<longrightarrow> length (votesReceived (peers C i)) = nservers C
          \<and> (\<forall>j \<in> vote_set (peers C i). (t, j, i) \<in> grants C)))"

definition inv_lead :: "'c cluster \<Rightarrow> bool" where
  "inv_lead C \<longleftrightarrow> (\<forall>i \<in> servers C. rstate (peers C i) = LeaderState \<longrightarrow>
     (\<exists>Q. quorum (nservers C) Q \<and> (\<forall>j \<in> Q. (currentTerm (peers C i), j, i) \<in> grants C)))"

definition vote_inv :: "'c cluster \<Rightarrow> bool" where
  "vote_inv C \<longleftrightarrow> inv_good C \<and> inv_grant C \<and> inv_once C \<and> inv_reply C \<and> inv_ask C \<and> inv_lead C"

text \<open>The outcomes of a leader's handling of a reply: a persisted peer that differs by a demotion, a
  next index, or the match bookkeeping and the commit index.\<close>

definition reply_outcome :: "'c Raft \<Rightarrow> 'c Raft \<Rightarrow> bool" where
  "reply_outcome rf rf1 \<longleftrightarrow> rf1 = rf \<or> (\<exists>t > currentTerm rf. rf1 = becomeFollower t rf)
     \<or> (\<exists>k v. rf1 = rf\<lparr>nextIndex := (nextIndex rf)[k := v]\<rparr>)
     \<or> (\<exists>a b c d. updateCommitIndex (rf\<lparr>nextIndex := (nextIndex rf)[a := b],
           matchIndex := (matchIndex rf)[c := d]\<rparr>) = Some rf1)"

section \<open>Quiet operations\<close>

lemma quiet_refl [simp]: "quiet rf rf"
  by (simp add: quiet_def)

lemma quiet_persist [simp]: "quiet rf (persist rf') = quiet rf rf'"
  by (simp add: quiet_def)

lemma quiet_commit_to [simp]: "quiet rf (commit_to lc rf') = quiet rf rf'"
  by (simp add: quiet_def)

lemma quiet_becomeFollower: "currentTerm rf < t \<Longrightarrow> quiet rf (becomeFollower t rf)"
  by (simp add: quiet_def)

lemma quiet_ae_enter: "currentTerm rf \<le> ae_Term args \<Longrightarrow> quiet rf (ae_enter now args rf)"
  by (auto simp: quiet_def)

lemma updateCommitIndex_shape:
  "updateCommitIndex rf = Some rf' \<Longrightarrow> rf' = rf \<or> (\<exists>c. rf' = rf\<lparr>commitIndex := c\<rparr>)"
  by (auto simp: updateCommitIndex_def Let_def bind_Some_iff split: if_splits)

lemma updateCommitIndex_frame:
  assumes "updateCommitIndex rf = Some rf'"
  shows "quiet rf rf'" and "kept rf rf'" and "wf_raft rf' = wf_raft rf"
  using updateCommitIndex_shape [OF assms] by (auto simp: quiet_def kept_def wf_raft_def)

lemma AppendEntries_outcome:
  assumes "AppendEntries now args rf = Some (rf', r)"
  shows "rf' = persist rf \<or> rf' = persist (ae_enter now args rf) \<and> currentTerm rf \<le> ae_Term args
    \<or> (\<exists>l. rf' = persist (commit_to (ae_LeaderCommit args) ((ae_enter now args rf)\<lparr>rlog := l\<rparr>))
         \<and> currentTerm rf \<le> ae_Term args)"
proof (cases "ae_Term args < currentTerm rf")
  case True
  with assms show ?thesis by (simp add: AppendEntries_stale)
next
  case False
  with assms show ?thesis
    by (auto simp: AppendEntries_enter [OF False] Let_def split: if_splits)
qed

lemma AppendEntries_quiet:
  assumes "AppendEntries now args rf = Some (rf', r)"
  shows "quiet rf rf'"
proof -
  have "quiet rf ((ae_enter now args rf)\<lparr>rlog := l\<rparr>)" if "currentTerm rf \<le> ae_Term args" for l
    using quiet_ae_enter [OF that, of now] by (simp add: quiet_def)
  then show ?thesis
    using AppendEntries_outcome [OF assms] quiet_ae_enter [of rf args now] by auto
qed

lemma InstallSnapshot_quiet: "InstallSnapshot now args rf = Some (rf', r) \<Longrightarrow> quiet rf rf'"
  by (auto simp: InstallSnapshot_closed Let_def quiet_def split: if_splits)

lemma StartSendEntries_shape:
  "StartSendEntries now rf = Some (rf', gs) \<Longrightarrow> rf' = rf\<lparr>lastHeartBeat := now\<rparr>"
  by (auto simp: StartSendEntries_def Let_def bind_Some_iff)

lemma runHeartbeatCycle_shape:
  "runHeartbeatCycle now rf = Some (rf', gs) \<Longrightarrow> rf' = rf \<or> rf' = rf\<lparr>lastHeartBeat := now\<rparr>"
  by (auto simp: runHeartbeatCycle_def bind_Some_iff dest: StartSendEntries_shape split: if_splits)

lemma Start_shape:
  assumes "Start now c rf = Some (rf', gs, res)"
  shows "rf' = persist rf \<or> (\<exists>mi. rf' = persist (rf\<lparr>rlog := rlog rf @ [\<lparr>Term = currentTerm rf,
     Command = Some c\<rparr>], matchIndex := mi, lastHeartBeat := now\<rparr>)
       \<and> length mi = length (matchIndex rf) \<and> rstate rf = LeaderState)"
  using assms
  by (auto simp: Start_def Let_def bind_Some_iff go_upd_Some_iff dest!: StartSendEntries_shape
      split: if_splits)

lemma Start_quiet: "Start now c rf = Some (rf', gs, res) \<Longrightarrow> quiet rf rf'"
  by (auto simp: quiet_def dest: Start_shape)

lemma Snapshot_quiet: "Snapshot i snap rf = Some rf' \<Longrightarrow> quiet rf rf'"
  by (auto simp: Snapshot_def trimLogFrom_def bind_Some_iff quiet_def split: if_splits)

lemma applyTicker_shape:
  assumes "applyTicker pc rf = Some (rf', pc', m)"
  shows "quiet rf rf' \<and> kept rf rf' \<and> wf_raft rf' = wf_raft rf"
  using assms
  by (auto simp: applyTicker_def applySnapshots_def applyCommands_def quiet_def kept_def wf_raft_def
      bind_Some_iff Let_def split: apply_pc.splits if_splits)

lemma sendEntries_reply_outcome:
  assumes "sendEntries_reply j args resp rf = Some rf'"
  shows "\<exists>rf1. rf' = persist rf1 \<and> reply_outcome rf rf1"
proof (cases resp)
  case None
  with assms show ?thesis by (auto simp: sendEntries_reply_def reply_outcome_def)
next
  case (Some r)
  consider "aer_Term r > currentTerm rf"
    | "\<not> aer_Term r > currentTerm rf" "rstate rf \<noteq> LeaderState \<or> currentTerm rf \<noteq> ae_Term args"
    | "\<not> aer_Term r > currentTerm rf" "\<not> (rstate rf \<noteq> LeaderState \<or> currentTerm rf \<noteq> ae_Term args)"
    by blast
  then show ?thesis
  proof cases
    case 3
    with assms Some show ?thesis
      unfolding reply_outcome_def
      by (simp add: sendEntries_reply_def bind_Some_iff go_upd_Some_iff split: if_splits) blast+
  qed (use assms Some in \<open>auto simp: sendEntries_reply_def reply_outcome_def\<close>)
qed

lemma sendInstallSnapshot_reply_outcome:
  assumes "sendInstallSnapshot_reply j args resp rf = Some rf'"
  shows "\<exists>rf1. rf' = persist rf1 \<and> reply_outcome rf rf1"
proof (cases resp)
  case None
  with assms show ?thesis by (auto simp: sendInstallSnapshot_reply_def reply_outcome_def)
next
  case (Some r)
  with assms show ?thesis
    unfolding reply_outcome_def
    by (simp add: sendInstallSnapshot_reply_def bind_Some_iff go_upd_Some_iff split: if_splits) blast+
qed

lemma reply_outcome_frame:
  assumes "reply_outcome rf rf1"
  shows "quiet rf rf1" and "wf_raft rf1 = wf_raft rf"
proof -
  have u: "quiet rf rf1 \<and> wf_raft rf1 = wf_raft rf"
    if "updateCommitIndex (rf\<lparr>nextIndex := (nextIndex rf)[a := b],
           matchIndex := (matchIndex rf)[c := d]\<rparr>) = Some rf1" for a b c d
    using updateCommitIndex_frame(1,3) [OF that] by (simp add: quiet_def wf_raft_def)
  have "quiet rf rf1 \<and> wf_raft rf1 = wf_raft rf"
    using assms u unfolding reply_outcome_def
    by (auto simp: quiet_becomeFollower) (simp_all add: quiet_def wf_raft_def)
  then show "quiet rf rf1" and "wf_raft rf1 = wf_raft rf" by simp_all
qed

section \<open>Persistence of single steps\<close>

lemma saved_durable: "saved rf \<Longrightarrow> durable rf"
  using recover_saved [of rf "npeers rf" "me rf"] by (auto simp: durable_def)

lemma durable_kept: "durable rf \<Longrightarrow> kept rf rf' \<Longrightarrow> durable rf'"
  by (simp add: durable_def kept_def split: option.splits)

lemma good_saved:
  "good n i rf \<Longrightarrow> quiet rf rf' \<Longrightarrow> wf_raft rf' \<Longrightarrow> saved rf' \<Longrightarrow> good n i rf'"
  by (simp add: good_def quiet_def saved_durable)

lemma good_kept:
  "good n i rf \<Longrightarrow> kept rf rf' \<Longrightarrow> wf_raft rf' \<Longrightarrow> good n i rf'"
  by (auto simp: good_def intro: durable_kept) (simp_all add: kept_def)

lemma good_wf: "good n i rf \<Longrightarrow> wf_raft rf"
  by (simp add: good_def)

lemma AppendEntries_good:
  assumes "good n i rf" and "AppendEntries now args rf = Some (rf', r)"
  shows "good n i rf'"
  using AppendEntries_total [OF good_wf [OF assms(1)], of now args] assms(2)
    good_saved [OF assms(1) AppendEntries_quiet [OF assms(2)]] by auto

lemma InstallSnapshot_good:
  assumes "good n i rf" and "InstallSnapshot now args rf = Some (rf', r)"
  shows "good n i rf'"
  using InstallSnapshot_total [OF good_wf [OF assms(1)], of now args] assms(2)
    good_saved [OF assms(1) InstallSnapshot_quiet [OF assms(2)]] by auto

lemma RequestVote_good:
  assumes "good n i rf" and "RequestVote args rf = Some (rf', r)"
  shows "good n i rf'"
proof -
  have "npeers rf' = npeers rf" "me rf' = me rf"
    using assms by (auto simp: RequestVote_closed [OF wf_rlogD [OF good_wf [OF assms(1)]]] Let_def
        split: if_splits)
  then show ?thesis
    using RequestVote_total [OF good_wf [OF assms(1)], of args] assms
    by (auto simp: good_def saved_durable)
qed

lemma Start_good:
  assumes "good n i rf" and "Start now c rf = Some (rf', gs, res)"
  shows "good n i rf'"
proof (rule good_saved [OF assms(1) Start_quiet [OF assms(2)]])
  have "wf_raft rf" using assms(1) by (rule good_wf)
  then show "wf_raft rf'" "saved rf'"
    using Start_shape [OF assms(2)] by (auto simp: wf_raft_def)
qed

lemma Snapshot_good:
  assumes "good n i rf" and "Snapshot k snap rf = Some rf'"
  shows "good n i rf'"
proof (rule good_saved [OF assms(1) Snapshot_quiet [OF assms(2)]])
  have wf: "wf_raft rf" using assms(1) by (rule good_wf)
  then show "wf_raft rf'" "saved rf'"
    using assms(2)
    by (auto simp: Snapshot_def trimLogFrom_def bind_Some_iff wf_raft_def split: if_splits)
qed

lemma applyTicker_good:
  "good n i rf \<Longrightarrow> applyTicker pc rf = Some (rf', pc', m) \<Longrightarrow> good n i rf'"
  using applyTicker_shape good_kept good_wf by blast

lemma reply_good:
  assumes "good n i rf" and "reply_outcome rf rf1"
  shows "good n i (persist rf1)"
  by (rule good_saved [OF assms(1)])
     (use assms reply_outcome_frame [OF assms(2)] in \<open>auto simp: good_def\<close>)

lemma heartbeat_good:
  assumes "good n i rf" and "runHeartbeatCycle now rf = Some (rf', gs)"
  shows "good n i rf'" and "quiet rf rf'"
proof -
  have "rf' = rf \<or> rf' = rf\<lparr>lastHeartBeat := now\<rparr>"
    using runHeartbeatCycle_shape [OF assms(2)] by auto
  then have "kept rf rf' \<and> wf_raft rf' \<and> quiet rf rf'"
    using assms(1) by (auto simp: kept_def wf_raft_def good_def quiet_def)
  then show "good n i rf'" "quiet rf rf'" using good_kept [OF assms(1)] by simp_all
qed

lemma ticker_good:
  assumes "good n i rf"
  shows "good n i (fst (ticker now rf))" and "quiet rf (fst (ticker now rf))"
proof -
  have "kept rf (fst (ticker now rf))" "wf_raft (fst (ticker now rf))"
    using assms by (auto simp: ticker_def kept_def good_def wf_raft_def)
  then show "good n i (fst (ticker now rf))" using good_kept [OF assms] by blast
  show "quiet rf (fst (ticker now rf))" by (simp add: ticker_def quiet_def)
qed

section \<open>The vote invariant under one change\<close>

text \<open>Every event changes at most one peer and adds at most the vote of that peer.\<close>

lemma vote_inv_change:
  assumes inv: "vote_inv C" and j: "j \<in> servers C" and g: "good (nservers C) j rf'"
    and C': "nservers C' = nservers C" "peers C' = (peers C)(j := rf')"
    and tm: "currentTerm (peers C j) \<le> currentTerm rf'"
    and vote: "currentTerm rf' = currentTerm (peers C j) \<Longrightarrow>
      votedFor rf' = votedFor (peers C j) \<or> votedFor (peers C j) < 0"
    and lead: "rstate rf' = LeaderState \<Longrightarrow>
      rstate (peers C j) = LeaderState \<and> currentTerm rf' = currentTerm (peers C j)
      \<or> (\<exists>Q. quorum (nservers C) Q \<and> (\<forall>i \<in> Q. (currentTerm rf', i, j) \<in> grants C'))"
    and gr: "grants C' = grants C
      \<or> grants C' = insert (currentTerm rf', j, votedFor rf') (grants C) \<and> 0 \<le> votedFor rf'"
    and rep: "\<And>i k t li lt. (i, SendRequestVote k t li lt) \<in> granted C' \<Longrightarrow>
      (i, SendRequestVote k t li lt) \<in> granted C \<or> (t, k, i) \<in> grants C'"
    and caller: "\<And>i g. (i, g) \<in> pending C' \<union> set (orphans C') \<Longrightarrow> i \<in> servers C"
    and pend: "\<And>i g t. (i, g) \<in> pending C' \<Longrightarrow> asks t g \<Longrightarrow>
      (i, g) \<in> pending C \<and> i \<noteq> j
      \<or> i = j \<and> t \<le> currentTerm rf' \<and> (t = currentTerm rf' \<longrightarrow>
          length (votesReceived rf') = nservers C \<and> (\<forall>m \<in> vote_set rf'. (t, m, j) \<in> grants C'))"
  shows "vote_inv C'"
proof -
  have srv: "servers C' = servers C" by (simp add: servers_def C')
  have I: "inv_good C" "inv_grant C" "inv_once C" "inv_reply C" "inv_ask C" "inv_lead C"
    using inv by (simp_all add: vote_inv_def)
  have sub: "grants C \<subseteq> grants C'" using gr by blast
  have old: "t \<le> currentTerm (peers C i)"
    "t = currentTerm (peers C i) \<Longrightarrow> votedFor (peers C i) = k \<and> 0 \<le> k" "i \<in> servers C"
    if "(t, i, k) \<in> grants C" for t i k
    using I(2) that unfolding inv_grant_def by blast+
  have "good (nservers C) i (peers C' i)" if "i \<in> servers C" for i
    using I(1) g that by (auto simp: inv_good_def C'(2))
  then have "inv_good C'"
    using caller unfolding inv_good_def srv C'(1) by blast
  moreover have new: "i \<in> servers C' \<and> t \<le> currentTerm (peers C' i)
      \<and> (t = currentTerm (peers C' i) \<longrightarrow> votedFor (peers C' i) = k \<and> 0 \<le> k)"
    if "(t, i, k) \<in> grants C'" for t i k
  proof (cases "(t, i, k) \<in> grants C")
    case True
    then show ?thesis using old [OF True] tm vote by (cases "i = j") (auto simp: srv C')
  next
    case False
    then show ?thesis using that gr j by (auto simp: srv C')
  qed
  then have "inv_grant C'" unfolding inv_grant_def by blast
  moreover have "k = k'" if "(t, i, k) \<in> grants C'" "(t, i, k') \<in> grants C'" for t i k k'
  proof (cases "(t, i, k) \<in> grants C \<and> (t, i, k') \<in> grants C")
    case True
    then show ?thesis using I(3) unfolding inv_once_def by blast
  next
    case False
    then have "t = currentTerm (peers C' i)" using that gr by (auto simp: C')
    then show ?thesis using new [OF that(1)] new [OF that(2)] by simp
  qed
  then have "inv_once C'" unfolding inv_once_def by blast
  moreover have "inv_reply C'"
    using I(4) rep sub unfolding inv_reply_def by blast
  moreover have "t \<le> currentTerm (peers C' i) \<and> (t = currentTerm (peers C' i) \<longrightarrow>
      length (votesReceived (peers C' i)) = nservers C'
        \<and> (\<forall>j \<in> vote_set (peers C' i). (t, j, i) \<in> grants C'))"
    if "(i, g) \<in> pending C'" "asks t g" for i g t
    using pend [OF that]
  proof
    assume *: "(i, g) \<in> pending C \<and> i \<noteq> j"
    then have "t \<le> currentTerm (peers C i) \<and> (t = currentTerm (peers C i) \<longrightarrow>
        length (votesReceived (peers C i)) = nservers C
        \<and> (\<forall>j \<in> vote_set (peers C i). (t, j, i) \<in> grants C'))"
      using I(5) that(2) sub unfolding inv_ask_def by blast
    then show ?thesis using * by (simp add: C')
  next
    assume "i = j \<and> t \<le> currentTerm rf' \<and> (t = currentTerm rf' \<longrightarrow>
      length (votesReceived rf') = nservers C \<and> (\<forall>m \<in> vote_set rf'. (t, m, j) \<in> grants C'))"
    then show ?thesis by (simp add: C')
  qed
  then have "inv_ask C'" unfolding inv_ask_def by blast
  moreover have old_lead: "\<exists>Q. quorum (nservers C) Q \<and> (\<forall>m \<in> Q. (currentTerm (peers C i), m, i) \<in> grants C')"
    if "i \<in> servers C" "rstate (peers C i) = LeaderState" for i
    using I(6) that sub unfolding inv_lead_def by blast
  have "\<exists>Q. quorum (nservers C) Q \<and> (\<forall>m \<in> Q. (currentTerm (peers C' i), m, i) \<in> grants C')"
    if "i \<in> servers C" "rstate (peers C' i) = LeaderState" for i
  proof (cases "i = j")
    case True
    have *: "rstate rf' = LeaderState" using True that(2) by (simp add: C')
    show ?thesis using lead [OF *] old_lead [OF j] True by (auto simp: C')
  next
    case False
    then show ?thesis using old_lead [OF that(1)] that(2) by (simp add: C')
  qed
  then have "inv_lead C'" unfolding inv_lead_def srv C'(1) by blast
  ultimately show ?thesis by (simp add: vote_inv_def)
qed

lemma inv_askD:
  assumes "vote_inv C" and "(i, g) \<in> pending C" and "asks t g"
  shows "t \<le> currentTerm (peers C i)"
    and "t = currentTerm (peers C i) \<Longrightarrow> length (votesReceived (peers C i)) = nservers C"
    and "t = currentTerm (peers C i) \<Longrightarrow> m \<in> vote_set (peers C i) \<Longrightarrow> (t, m, i) \<in> grants C"
  using assms unfolding vote_inv_def inv_ask_def by blast+

lemma inv_goodD:
  assumes "vote_inv C"
  shows "i \<in> servers C \<Longrightarrow> good (nservers C) i (peers C i)"
    and "(i, g) \<in> pending C \<union> set (orphans C) \<Longrightarrow> i \<in> servers C"
  using assms unfolding vote_inv_def inv_good_def by blast+

lemma vote_inv_quiet:
  assumes inv: "vote_inv C" and j: "j \<in> servers C" and q: "quiet (peers C j) rf'"
    and g: "good (nservers C) j rf'"
    and C': "nservers C' = nservers C" "peers C' = (peers C)(j := rf')" "grants C' = grants C"
    and rep: "granted C' \<subseteq> granted C" and orph: "orphans C' = orphans C"
    and pend: "\<And>i g. (i, g) \<in> pending C' \<Longrightarrow>
      (i, g) \<in> pending C \<or> i \<in> servers C \<and> (\<forall>t. \<not> asks t g)"
  shows "vote_inv C'"
proof (rule vote_inv_change [OF inv j g C'(1,2)])
  show "currentTerm (peers C j) \<le> currentTerm rf'" using q by (auto simp: quiet_def)
  show "grants C' = grants C \<or> grants C' = insert (currentTerm rf', j, votedFor rf') (grants C)
    \<and> 0 \<le> votedFor rf'" using C'(3) by simp
  fix i g t
  assume p: "(i, g) \<in> pending C'" and a: "asks t g"
  then have p': "(i, g) \<in> pending C" using pend by blast
  show "(i, g) \<in> pending C \<and> i \<noteq> j
      \<or> i = j \<and> t \<le> currentTerm rf' \<and> (t = currentTerm rf' \<longrightarrow>
          length (votesReceived rf') = nservers C \<and> (\<forall>m \<in> vote_set rf'. (t, m, j) \<in> grants C'))"
    using p' inv_askD [OF inv p' a] q C'(3) by (cases "i = j") (auto simp: quiet_def vote_set_def)
next
  show "i \<in> servers C" if "(i, g) \<in> pending C' \<union> set (orphans C')" for i g
    using that pend [of i g] inv_goodD(2) [OF inv] unfolding orph by blast
qed (use q rep inv_goodD [OF inv] in \<open>auto simp: quiet_def\<close>)

section \<open>The events\<close>

lemma pending_simps [simp]:
  "pending (put i rf C) = pending C" "pending (grant t v c C) = pending C"
  "pending (spawn i gs C) = pending C \<union> Pair i ` set gs"
  "granted (put i rf C) = granted C" "granted (grant t v c C) = granted C"
  "granted (spawn i gs C) = granted C" "granted (finish i g C) = granted C"
  by (auto simp: pending_def put_def grant_def spawn_def finish_def granted_def)

lemma pending_finish: "(k, h) \<in> pending (finish i g C) \<Longrightarrow> (k, h) \<in> pending C"
  by (auto simp: pending_def finish_def dest: notin_set_remove1)

lemma pending_mono:
  assumes "set (running C') \<subseteq> set (running C)" and "set (replies C') \<subseteq> set (replies C)"
  shows "pending C' \<subseteq> pending C" and "granted C' \<subseteq> granted C"
  using assms unfolding pending_def granted_def by blast+

lemma vote_inv_fewer:
  assumes inv: "vote_inv C" and C': "nservers C' = nservers C" "peers C' = peers C" "grants C' = grants C"
    and less: "set (running C') \<subseteq> set (running C)" "set (replies C') \<subseteq> set (replies C)"
    and orph: "set (orphans C') \<subseteq> set (orphans C)"
  shows "vote_inv C'"
proof -
  note sub = pending_mono [OF less]
  have srv: "servers C' = servers C" using C' by (simp add: servers_def)
  have I: "inv_good C" "inv_grant C" "inv_once C" "inv_reply C" "inv_ask C" "inv_lead C"
    using inv by (simp_all add: vote_inv_def)
  have "inv_good C'" using I(1) sub orph unfolding inv_good_def srv C' by blast
  moreover have "inv_reply C'" using I(4) sub unfolding inv_reply_def srv C' by blast
  moreover have "inv_ask C'" using I(5) sub unfolding inv_ask_def srv C' by blast
  moreover have "inv_grant C'" "inv_once C'" "inv_lead C'"
    using I unfolding inv_grant_def inv_once_def inv_lead_def srv C' by simp_all
  ultimately show ?thesis by (simp add: vote_inv_def)
qed

lemma vote_inv_finish: "vote_inv C \<Longrightarrow> vote_inv (finish i g C)"
  using vote_inv_fewer [of C "finish i g C"] by (simp add: set_remove1_subset)

lemma vote_inv_drop_reply: "vote_inv C \<Longrightarrow> vote_inv (C\<lparr>replies := remove1 x (replies C)\<rparr>)"
  using vote_inv_fewer [of C "C\<lparr>replies := remove1 x (replies C)\<rparr>"] by (simp add: set_remove1_subset)

lemma vote_inv_drop_orphan: "vote_inv C \<Longrightarrow> vote_inv (C\<lparr>orphans := remove1 x (orphans C)\<rparr>)"
  using vote_inv_fewer [of C "C\<lparr>orphans := remove1 x (orphans C)\<rparr>"] by (simp add: set_remove1_subset)

text \<open>A quiet change of one peer that starts no request for votes.\<close>

lemma vote_inv_put_spawn:
  assumes "vote_inv C" and "i \<in> servers C" and "quiet (peers C i) rf'" and "good (nservers C) i rf'"
    and "\<And>g t. g \<in> set gs \<Longrightarrow> \<not> asks t g"
  shows "vote_inv (spawn i gs (put i rf' C))"
  by (rule vote_inv_quiet [OF assms(1-4)]) (use assms(2,5) in auto)

lemma vote_inv_put:
  assumes "vote_inv C" and "i \<in> servers C" and "quiet (peers C i) rf'" and "good (nservers C) i rf'"
  shows "vote_inv (put i rf' C)"
  by (rule vote_inv_quiet [OF assms]) auto

subsection \<open>Answering a request\<close>

lemma RequestVote_grants:
  assumes "good n j rf" and "RequestVote args rf = Some (rf', r)"
  shows "if rvr_VoteGranted r
    then currentTerm rf' = rv_Term args \<and> votedFor rf' = rv_CandidateId args
      \<and> currentTerm rf \<le> currentTerm rf' \<and> votesReceived rf' = votesReceived rf
      \<and> (currentTerm rf' = currentTerm rf \<longrightarrow> votedFor rf' = votedFor rf \<or> votedFor rf < 0)
      \<and> (rstate rf' = LeaderState \<longrightarrow> rstate rf = LeaderState \<and> currentTerm rf' = currentTerm rf)
    else quiet rf rf'"
  using assms(2)
  unfolding RequestVote_closed [OF wf_rlogD [OF good_wf [OF assms(1)]]] Let_def
  by (auto simp: quiet_def split: if_splits)

lemma handle_frame:
  assumes "handle now i g C = Some (C', r)"
  shows "nservers C' = nservers C" and "running C' = running C" and "replies C' = replies C"
    and "orphans C' = orphans C"
  using assms by (auto simp: handle_def bind_Some_iff put_def grant_def split: goroutine.splits if_splits)

text \<open>The reply of \<open>handle\<close> may be put among the replies of the cluster.\<close>

definition answered :: "int \<Rightarrow> 'c goroutine \<Rightarrow> rpc_reply \<Rightarrow> 'c cluster \<Rightarrow> 'c cluster" where
  "answered i g r C = C\<lparr>replies := (i, g, r) # replies C\<rparr>"

lemma answered_simps [simp]:
  "nservers (answered i g r C) = nservers C" "peers (answered i g r C) = peers C"
  "grants (answered i g r C) = grants C" "orphans (answered i g r C) = orphans C" "servers (answered i g r C) = servers C"
  "pending (answered i g r C) = insert (i, g) (pending C)"
  "granted (answered i g r C) = (case r of VoteReply v \<Rightarrow> if rvr_VoteGranted v
     then insert (i, g) (granted C) else granted C | _ \<Rightarrow> granted C)"
  by (auto simp: answered_def servers_def pending_def granted_def split: rpc_reply.splits)

text \<open>\<open>D\<close> is the cluster after the handler, with the reply among the replies when somebody waits for it.\<close>

lemma handle_inv:
  assumes inv: "vote_inv C" and ii: "i \<in> servers C" and h: "handle now i g C = Some (C', r)"
    and D: "D = C' \<or> (i, g) \<in> pending C \<and> D = answered i g r C'"
  shows "vote_inv D"
proof -
  note gd = inv_goodD(1) [OF inv]
  have frame: "nservers D = nservers C'" "peers D = peers C'" "grants D = grants C'" "orphans D = orphans C'"
    using D by auto
  have pend: "pending D = pending C" if "pending C' = pending C"
    using D that by (elim disjE conjE) (simp_all add: insert_absorb)
  have rep: "granted D \<subseteq> granted (answered i g r C')"
    using D by (elim disjE conjE) (simp_all add: subset_insertI split: rpc_reply.split)
  show ?thesis
  proof (cases g)
    case (SendRequestVote j t li lt)
    obtain rf v where j: "j \<in> servers C" and
      v: "RequestVote (sendRequestVote_args i t li lt) (peers C j) = Some (rf, v)" and r: "r = VoteReply v"
      and C': "C' = (if rvr_VoteGranted v then grant t j i (put j rf C) else put j rf C)"
      using h SendRequestVote by (auto simp: handle_def bind_Some_iff split: if_splits)
    note G = RequestVote_grants [OF gd [OF j] v] RequestVote_good [OF gd [OF j] v]
    have P: "pending D = pending C" by (rule pend) (simp add: C')
    show ?thesis
    proof (cases "rvr_VoteGranted v")
      case True
      have a: "currentTerm rf = t" "votedFor rf = i"
        using G(1) True by (simp_all add: sendRequestVote_args_def)
      show ?thesis
      proof (rule vote_inv_change [OF inv j G(2)])
        show "grants D = grants C \<or>
          grants D = insert (currentTerm rf, j, votedFor rf) (grants C) \<and> 0 \<le> votedFor rf"
          using a True ii by (simp add: frame C' servers_def)
        fix k h u assume k: "(k, h) \<in> pending D" "asks u h"
        then have k': "(k, h) \<in> pending C" using P by simp
        show "(k, h) \<in> pending C \<and> k \<noteq> j \<or> k = j \<and> u \<le> currentTerm rf \<and> (u = currentTerm rf \<longrightarrow>
          length (votesReceived rf) = nservers C \<and> (\<forall>m \<in> vote_set rf. (u, m, j) \<in> grants D))"
          using k' inv_askD [OF inv k' k(2)] G(1) True
          by (cases "k = j") (auto simp: frame C' vote_set_def)
      next
        show "k \<in> servers C" if "(k, h) \<in> pending D \<union> set (orphans D)" for k h
          using that True inv_goodD(2) [OF inv] by (simp add: frame P C')
      qed (use G(1) True rep in \<open>auto simp: frame C' r SendRequestVote\<close>)
    next
      case False
      show ?thesis
        by (rule vote_inv_quiet [OF inv j _ G(2)]) (use G(1) False P rep in \<open>auto simp: frame C' r\<close>)
    qed
  next
    case (SendEntries j t pi pt ci es)
    then obtain rf v where j: "j \<in> servers C" and
      v: "AppendEntries now (sendEntries_args i t pi pt ci es) (peers C j) = Some (rf, v)"
      and r: "r = EntriesReply v" and C': "C' = put j rf C"
      using h by (auto simp: handle_def bind_Some_iff split: if_splits)
    have P: "pending D = pending C" by (rule pend) (simp add: C')
    show ?thesis
      by (rule vote_inv_quiet [OF inv j AppendEntries_quiet [OF v] AppendEntries_good [OF gd [OF j] v]])
         (use rep P in \<open>auto simp: frame C' r\<close>)
  next
    case (SendInstallSnapshot j t si st data)
    then obtain rf v where j: "j \<in> servers C" and
      v: "InstallSnapshot now (sendInstallSnapshot_args i t si st data) (peers C j) = Some (rf, v)"
      and r: "r = SnapshotReply v" and C': "C' = put j rf C"
      using h by (auto simp: handle_def bind_Some_iff split: if_splits)
    have P: "pending D = pending C" by (rule pend) (simp add: C')
    show ?thesis
      by (rule vote_inv_quiet [OF inv j InstallSnapshot_quiet [OF v] InstallSnapshot_good [OF gd [OF j] v]])
         (use rep P in \<open>auto simp: frame C' r\<close>)
  qed (use h in \<open>auto simp: handle_def\<close>)
qed

lemma finish_put: "put j rf (finish i g C) = finish i g (put j rf C)"
  and finish_grant: "grant t v c (finish i g C) = finish i g (grant t v c C)"
  by (simp_all add: put_def finish_def grant_def)

lemma handle_finish:
  "handle now i g (finish i g C) = map_option (apfst (finish i g)) (handle now i g C)"
  by (cases g) (auto simp: handle_def finish_put finish_grant split: bind_splits)

subsection \<open>Counting votes and winning\<close>

lemma countVotes_loop_filter: "countVotes_loop vs n = n + int (length (filter id vs))"
  by (induction vs arbitrary: n) auto

lemma countVotes_card: "countVotes rf = int (card (vote_set rf))"
proof -
  let ?vs = "votesReceived rf"
  have "vote_set rf = int ` {k. k < length ?vs \<and> id (?vs ! k)}"
  proof (intro set_eqI iffI)
    fix j assume "j \<in> vote_set rf"
    then have "j = int (nat j)" "nat j \<in> {k. k < length ?vs \<and> id (?vs ! k)}"
      by (auto simp: vote_set_def go_len_def nat_less_iff)
    then show "j \<in> int ` {k. k < length ?vs \<and> id (?vs ! k)}" by (rule image_eqI)
  qed (auto simp: vote_set_def go_len_def)
  then have "card (vote_set rf) = length (filter id ?vs)"
    by (simp add: length_filter_conv_card card_image)
  then show ?thesis by (simp add: countVotes_def countVotes_loop_filter)
qed

lemma vote_set_upd:
  assumes "go_upd (votesReceived rf) j True = Some vs"
  shows "vote_set (rf\<lparr>votesReceived := vs\<rparr>) = insert j (vote_set rf)" and "length vs = length (votesReceived rf)"
    and "0 \<le> j" "j < go_len (votesReceived rf)"
  using assms
  by (auto simp: vote_set_def go_upd_def go_len_def nth_list_update nat_eq_iff split: if_splits)

lemma becomeLeader_shape:
  assumes "becomeLeader rf = Some rf'" and "wf_raft rf"
  shows "rf' = rf\<lparr>rstate := LeaderState, nextIndex := nextIndex rf', matchIndex := matchIndex rf'\<rparr>"
    and "wf_raft rf'"
  using assms by (auto simp: becomeLeader_def Let_def bind_Some_iff go_upd_def wf_raft_def split: if_splits)

lemma sendRequestVote_reply_shape:
  assumes s: "sendRequestVote_reply j t r rf = Some (rf', gs)" and wf: "wf_raft rf"
  shows "wf_raft rf' \<and> saved rf' \<and> npeers rf' = npeers rf \<and> me rf' = me rf \<and> set gs \<subseteq> {RunHeartbeatCycle}
    \<and> (quiet rf rf'
      \<or> rvr_VoteGranted r \<and> t = currentTerm rf \<and> currentTerm rf' = currentTerm rf
        \<and> votedFor rf' = votedFor rf
        \<and> go_upd (votesReceived rf) j True = Some (votesReceived rf')
        \<and> (rstate rf' = LeaderState \<longrightarrow> majorityThreshold rf \<le> countVotes rf'))"
proof -
  consider (newer) "rvr_Term r > currentTerm rf" "rf' = persist (becomeFollower (rvr_Term r) rf)" "gs = []"
    | (same) "rf' = persist rf" "gs = []"
    | (vote) vs where "rvr_VoteGranted r" "t = currentTerm rf" "rstate rf \<noteq> LeaderState"
        "go_upd (votesReceived rf) j True = Some vs" "rf' = persist (rf\<lparr>votesReceived := vs\<rparr>)" "gs = []"
    | (win) vs rf2 where "rvr_VoteGranted r" "t = currentTerm rf" "rstate rf \<noteq> LeaderState"
        "go_upd (votesReceived rf) j True = Some vs" "majorityThreshold rf \<le> countVotes (rf\<lparr>votesReceived := vs\<rparr>)"
        "becomeLeader (rf\<lparr>votesReceived := vs\<rparr>) = Some rf2" "rf' = persist rf2" "gs = [RunHeartbeatCycle]"
    using s unfolding sendRequestVote_reply_def Let_def
    by (auto simp: bind_Some_iff split: if_splits)
  then show ?thesis
  proof cases
    case win
    have "wf_raft (rf\<lparr>votesReceived := vs\<rparr>)" using wf by (simp add: wf_raft_def)
    note L = becomeLeader_shape [OF win(6) this]
    have "votesReceived rf' = vs" "currentTerm rf' = currentTerm rf" "votedFor rf' = votedFor rf"
      "npeers rf' = npeers rf" "me rf' = me rf"
      unfolding win(7) by (subst L(1), simp)+
    then show ?thesis using win L(2) by (simp add: countVotes_def)
  qed (use wf in \<open>auto simp: quiet_def wf_raft_def\<close>)
qed

lemma startElection_shape:
  assumes "startElection rf = Some (rf', gs)" and "wf_raft rf"
  shows "wf_raft rf' \<and> saved rf' \<and> npeers rf' = npeers rf \<and> me rf' = me rf
    \<and> currentTerm rf' = currentTerm rf + 1 \<and> votedFor rf' = me rf \<and> rstate rf' = CandidateState
    \<and> vote_set rf' = {me rf} \<and> length (votesReceived rf') = npeers rf
    \<and> (\<forall>g \<in> set gs. asks (currentTerm rf') g)"
proof -
  have loop: "voteLoop rf1 l is = Some gs' \<Longrightarrow> \<forall>g \<in> set gs'. asks (currentTerm rf1) g" for rf1 l "is" gs'
    by (induction "is" arbitrary: gs') (auto simp: bind_Some_iff asks_def split: if_splits)
  show ?thesis
    using assms unfolding startElection_def Let_def
    by (auto simp: bind_Some_iff go_upd_def wf_raft_def vote_set_def go_len_def nth_list_update nat_eq_iff
        split: if_splits dest!: loop)
qed

lemma Make_frame:
  assumes "Make n i ps = Some rf0"
  shows "npeers rf0 = n \<and> me rf0 = i \<and> persister rf0 = ps \<and> rstate rf0 = NoState \<and> votesReceived rf0 = []
    \<and> majorityThreshold rf0 = go_div (int n + 1) 2
    \<and> length (nextIndex rf0) = n \<and> length (matchIndex rf0) = n"
  using assms unfolding Make_def readPersist_def Let_def
  by (auto simp: bind_Some_iff split: if_splits)

lemma Make_good:
  assumes g: "good n i rf" and m: "Make n i (persister rf) = Some rf0"
  shows "good n i rf0" and "currentTerm rf0 = currentTerm rf" and "votedFor rf0 = votedFor rf"
proof -
  note F = Make_frame [OF m]
  have "durable rf" "wf_raft rf" "npeers rf = n" "me rf = i" using g by (simp_all add: good_def)
  then show "good n i rf0" "currentTerm rf0 = currentTerm rf" "votedFor rf0 = votedFor rf"
    using F m by (auto simp: good_def durable_def wf_raft_def)
qed

lemma Make_initial:
  assumes "0 \<le> i" and "i < int n"
  shows "good n i (the (Make n i MakePersister))" and "rstate (the (Make n i MakePersister)) = NoState"
  using assms
  by (simp_all add: good_def durable_def wf_raft_def Make_def readPersist_def MakePersister_def Let_def)

lemma initial_inv: "vote_inv (initial n)"
  by (auto simp: vote_inv_def inv_good_def inv_grant_def inv_once_def inv_reply_def inv_ask_def
      inv_lead_def initial_def pending_def granted_def servers_def Make_initial)

lemma elect_inv:
  assumes inv: "vote_inv C" and i: "i \<in> servers C" and e: "startElection (peers C i) = Some (rf, gs)"
  shows "vote_inv (spawn i gs (grant (currentTerm rf) i i (put i rf C)))"
proof -
  have gd: "good (nservers C) i (peers C i)" using inv_goodD(1) [OF inv i] .
  note E = startElection_shape [OF e good_wf [OF gd]]
  have m: "me (peers C i) = i" "npeers (peers C i) = nservers C" using gd by (simp_all add: good_def)
  have "good (nservers C) i rf" using E m by (simp add: good_def saved_durable)
  then show ?thesis
  proof (rule vote_inv_change [OF inv i])
    fix k h u
    assume p: "(k, h) \<in> pending (spawn i gs (grant (currentTerm rf) i i (put i rf C)))" and a: "asks u h"
    show "(k, h) \<in> pending C \<and> k \<noteq> i \<or> k = i \<and> u \<le> currentTerm rf \<and> (u = currentTerm rf \<longrightarrow>
      length (votesReceived rf) = nservers C \<and> (\<forall>j \<in> vote_set rf. (u, j, i)
        \<in> grants (spawn i gs (grant (currentTerm rf) i i (put i rf C)))))"
    proof (cases "(k, h) \<in> pending C")
      case True
      then show ?thesis using inv_askD(1) [OF inv True a] E m by auto
    next
      case False
      then have "k = i" "h \<in> set gs" using p by auto
      then show ?thesis using E m a by (auto simp: asks_def)
    qed
  next
    show "k \<in> servers C"
      if "(k, h) \<in> pending (spawn i gs (grant (currentTerm rf) i i (put i rf C)))
        \<union> set (orphans (spawn i gs (grant (currentTerm rf) i i (put i rf C))))" for k h
      using that i inv_goodD(2) [OF inv] by auto
  qed (use E m i in \<open>auto simp: servers_def\<close>)
qed

lemma vote_reply_inv:
  assumes inv: "vote_inv C" and p: "(i, SendRequestVote j t li lt) \<in> pending C"
    and v: "rvr_VoteGranted r \<Longrightarrow> (t, j, i) \<in> grants C"
    and s: "sendRequestVote_reply j t r (peers C i) = Some (rf, gs)"
  shows "vote_inv (spawn i gs (put i rf C))"
proof -
  let ?D = "spawn i gs (put i rf C)"
  have i: "i \<in> servers C" using p inv_goodD(2) [OF inv] by blast
  have gd: "good (nservers C) i (peers C i)" using inv_goodD(1) [OF inv i] .
  note S = sendRequestVote_reply_shape [OF s good_wf [OF gd]]
  have gr: "good (nservers C) i rf" using S gd by (simp add: good_def saved_durable)
  have gs: "\<not> asks u h" if "h \<in> set gs" for u h using S that by (auto simp: asks_def)
  show ?thesis
  proof (cases "quiet (peers C i) rf")
    case True
    then show ?thesis using vote_inv_put_spawn [OF inv i True gr gs] by blast
  next
    case False
    then have W: "rvr_VoteGranted r" "t = currentTerm (peers C i)" "currentTerm rf = currentTerm (peers C i)"
      "votedFor rf = votedFor (peers C i)" "go_upd (votesReceived (peers C i)) j True = Some (votesReceived rf)"
      "rstate rf = LeaderState \<Longrightarrow> majorityThreshold (peers C i) \<le> countVotes rf"
      using S by auto
    have a: "asks t (SendRequestVote j t li lt)" by (simp add: asks_def)
    note A = inv_askD [OF inv p a]
    have vs: "vote_set rf = insert j (vote_set (peers C i))" "length (votesReceived rf) = nservers C"
      using vote_set_upd(1,2) [OF W(5)] A(2) W(2) by (simp_all add: vote_set_def)
    have votes: "(t, m, i) \<in> grants C" if "m \<in> vote_set rf" for m
      using that vs(1) A(3) W(2) v [OF W(1)] by auto
    show ?thesis
    proof (rule vote_inv_change [OF inv i gr])
      assume "rstate rf = LeaderState"
      then have "quorum (nservers C) (vote_set rf)"
        using W(6) gd vs(2) by (auto simp: quorum_def countVotes_card good_def wf_raft_def vote_set_def go_len_def)
      then show "rstate (peers C i) = LeaderState \<and> currentTerm rf = currentTerm (peers C i)
        \<or> (\<exists>Q. quorum (nservers C) Q \<and> (\<forall>m \<in> Q. (currentTerm rf, m, i) \<in> grants ?D))"
        using votes W(2,3) by auto
    next
      fix k h u assume k: "(k, h) \<in> pending ?D" "asks u h"
      then have k': "(k, h) \<in> pending C" using gs by auto
      show "(k, h) \<in> pending C \<and> k \<noteq> i \<or> k = i \<and> u \<le> currentTerm rf \<and> (u = currentTerm rf \<longrightarrow>
        length (votesReceived rf) = nservers C \<and> (\<forall>m \<in> vote_set rf. (u, m, i) \<in> grants ?D))"
        using k' inv_askD(1) [OF inv k' k(2)] W(2,3) vs(2) votes by auto
    next
      show "k \<in> servers C" if "(k, h) \<in> pending ?D \<union> set (orphans ?D)" for k h
        using that i inv_goodD(2) [OF inv] by auto
    qed (use W in auto)
  qed
qed

lemma restart_inv:
  assumes inv: "vote_inv C" and i: "i \<in> servers C" and m: "Make (nservers C) i (persister (peers C i)) = Some rf"
    and C': "nservers C' = nservers C" "peers C' = (peers C)(i := rf)" "grants C' = grants C"
      "running C' = filter (\<lambda>(k, g). k \<noteq> i) (running C)"
      "replies C' = filter (\<lambda>(k, g, r). k \<noteq> i) (replies C)"
      "orphans C' = orphans C @ filter (\<lambda>(k, g). k = i) (running C)"
  shows "vote_inv C'"
proof -
  note M = Make_good [OF inv_goodD(1) [OF inv i] m]
  have p: "(k, h) \<in> pending C \<and> k \<noteq> i" if "(k, h) \<in> pending C'" for k h
    using that by (auto simp: pending_def C' image_iff)
  have g: "granted C' \<subseteq> granted C" by (auto simp: granted_def C')
  show ?thesis
  proof (rule vote_inv_change [OF inv i M(1) C'(1,2)])
    show "k \<in> servers C" if "(k, h) \<in> pending C' \<union> set (orphans C')" for k h
    proof -
      have "set (running C) \<subseteq> pending C" by (simp add: pending_def)
      then have "(k, h) \<in> pending C \<union> set (orphans C)" using that p by (auto simp: C'(6))
      then show ?thesis by (rule inv_goodD(2) [OF inv])
    qed
  qed (use p g M Make_frame [OF m] C'(3) in auto)
qed

lemma pending_running: "(i, g) \<in> set (running C) \<Longrightarrow> (i, g) \<in> pending C"
  by (simp add: pending_def)

lemma pending_reply: "(i, g, r) \<in> set (replies C) \<Longrightarrow> (i, g) \<in> pending C"
  by (force simp: pending_def)

definition fewer :: "'c cluster \<Rightarrow> 'c cluster \<Rightarrow> bool" where
  "fewer D C \<longleftrightarrow> nservers D = nservers C \<and> peers D = peers C \<and> grants D = grants C
     \<and> set (running D) \<subseteq> set (running C) \<and> set (replies D) \<subseteq> set (replies C)
     \<and> set (orphans D) \<subseteq> set (orphans C)"

lemma fewer_inv: "fewer D C \<Longrightarrow> vote_inv C \<Longrightarrow> vote_inv D"
  unfolding fewer_def by (rule vote_inv_fewer) blast+

lemma fewer_refl [simp]: "fewer C C"
  by (simp add: fewer_def)

lemma fewer_put [intro]: "fewer D C \<Longrightarrow> fewer (put i rf D) (put i rf C)"
  by (simp add: fewer_def)

lemma fewer_spawn [intro]: "fewer D C \<Longrightarrow> fewer (spawn i gs D) (spawn i gs C)"
  by (auto simp: fewer_def)

lemma fewer_finish: "fewer (finish i g C) C"
  by (simp add: fewer_def set_remove1_subset)

lemma fewer_reply: "fewer (C\<lparr>replies := remove1 x (replies C)\<rparr>) C"
  by (simp add: fewer_def set_remove1_subset)

lemma fewer_orphan: "fewer (C\<lparr>orphans := remove1 x (orphans C)\<rparr>) C"
  by (simp add: fewer_def set_remove1_subset)

lemma continue_fewer:
  assumes "fewer D C" and "continue i g res D = Some D'"
  shows "\<exists>C'. continue i g res C = Some C' \<and> fewer D' C'"
proof -
  have "peers D = peers C" using assms(1) by (simp add: fewer_def)
  then show ?thesis
    using assms
    by (auto simp: continue_def bind_Some_iff split: goroutine.splits option.splits rpc_reply.splits)
qed

lemma continue_inv:
  assumes inv: "vote_inv C" and p: "(i, g) \<in> pending C" and c: "continue i g res C = Some C'"
    and v: "\<And>r. res = Some (VoteReply r) \<Longrightarrow> rvr_VoteGranted r \<Longrightarrow> (i, g) \<in> granted C"
  shows "vote_inv C'"
proof -
  have i: "i \<in> servers C" using p inv_goodD(2) [OF inv] by blast
  have gd: "good (nservers C) i (peers C i)" using inv_goodD(1) [OF inv i] .
  have out: "vote_inv (put i rf C)" if "\<exists>rf0. rf = persist rf0 \<and> reply_outcome (peers C i) rf0" for rf
    using vote_inv_put [OF inv i] reply_good [OF gd] reply_outcome_frame that by fastforce
  show ?thesis
  proof (cases g)
    case (SendRequestVote j t li lt)
    have gr: "(t, j, i) \<in> grants C" if "res = Some (VoteReply r)" "rvr_VoteGranted r" for r
      using v [OF that] inv SendRequestVote unfolding vote_inv_def inv_reply_def by blast
    show ?thesis
      using c inv vote_reply_inv [OF inv p [unfolded SendRequestVote]] gr
      by (auto simp: continue_def SendRequestVote bind_Some_iff split: option.splits rpc_reply.splits)
  qed (use c in \<open>auto simp: continue_def bind_Some_iff
        dest!: sendEntries_reply_outcome sendInstallSnapshot_reply_outcome intro!: out
        split: option.splits rpc_reply.splits\<close>)
qed

lemma continue_fewer_inv:
  assumes inv: "vote_inv C" and f: "fewer D C" and p: "(i, g) \<in> pending C" and c: "continue i g res D = Some C'"
    and v: "\<And>r. res = Some (VoteReply r) \<Longrightarrow> rvr_VoteGranted r \<Longrightarrow> (i, g) \<in> granted C"
  shows "vote_inv C'"
proof -
  obtain E where E: "continue i g res C = Some E" and "fewer C' E"
    using continue_fewer [OF f c] by blast
  have "vote_inv E" by (rule continue_inv [OF inv p E]) (rule v)
  then show ?thesis by (rule fewer_inv [OF \<open>fewer C' E\<close>])
qed

lemma sendLoop_asks: "sendLoop rf is = Some gs \<Longrightarrow> h \<in> set gs \<Longrightarrow> \<not> asks u h"
  by (induction "is" arbitrary: gs) (auto simp: bind_Some_iff asks_def Let_def split: if_splits)

lemma leader_sends_asks:
  "runHeartbeatCycle now rf = Some (rf', gs) \<Longrightarrow> h \<in> set gs \<Longrightarrow> \<not> asks u h"
  "Start now c rf = Some (rf', gs, res) \<Longrightarrow> h \<in> set gs \<Longrightarrow> \<not> asks u h"
  by (auto simp: runHeartbeatCycle_def Start_def StartSendEntries_def Let_def bind_Some_iff asks_def
      dest: sendLoop_asks [of _ _ _ _ u] split: if_splits)

lemma running_caller: "vote_inv C \<Longrightarrow> (i, g) \<in> set (running C) \<Longrightarrow> i \<in> servers C"
  using inv_goodD(2) pending_running by blast

lemma tick_inv: "vote_inv C \<Longrightarrow> step (Tick i now) C = Some C' \<Longrightarrow> vote_inv C'"
proof -
  assume inv: "vote_inv C" and s: "step (Tick i now) C = Some C'"
  obtain rf gs where tk: "ticker now (peers C i) = (rf, gs)" by fastforce
  then have i: "i \<in> servers C" and C': "C' = spawn i gs (put i rf C)"
    using s by (auto split: if_splits)
  have "\<not> asks u h" if "h \<in> set gs" for u h
    using tk that by (auto simp: ticker_def asks_def split: if_splits)
  then show "vote_inv C'"
    using ticker_good [OF inv_goodD(1) [OF inv i], of now] vote_inv_put_spawn [OF inv i] tk C' by simp
qed

lemma elect_step_inv: "vote_inv C \<Longrightarrow> step (Elect i) C = Some C' \<Longrightarrow> vote_inv C'"
proof -
  assume inv: "vote_inv C" and "step (Elect i) C = Some C'"
  then obtain rf gs where p: "(i, StartElection) \<in> set (running C)"
    and e: "startElection (peers C i) = Some (rf, gs)"
    and C': "C' = spawn i gs (grant (currentTerm rf) i i (put i rf (finish i StartElection C)))"
    by (auto simp: bind_Some_iff split: if_splits)
  have "fewer C' (spawn i gs (grant (currentTerm rf) i i (put i rf C)))"
    by (auto simp: C' fewer_def dest: notin_set_remove1)
  then show "vote_inv C'"
    using elect_inv [OF inv running_caller [OF inv p] e] by (rule fewer_inv)
qed

lemma heartbeat_inv: "vote_inv C \<Longrightarrow> step (Heartbeat i now) C = Some C' \<Longrightarrow> vote_inv C'"
proof -
  assume inv: "vote_inv C" and "step (Heartbeat i now) C = Some C'"
  then obtain rf gs where p: "(i, RunHeartbeatCycle) \<in> set (running C)"
    and h: "runHeartbeatCycle now (peers C i) = Some (rf, gs)"
    and C': "C' = spawn i gs (put i rf (finish i RunHeartbeatCycle C))"
    by (auto simp: bind_Some_iff split: if_splits)
  note i = running_caller [OF inv p]
  have n: "\<not> asks u k" if "k \<in> set gs" for u k
    using leader_sends_asks(1) [OF h that] .
  have "fewer C' (spawn i gs (put i rf C))"
    unfolding C' by (intro fewer_spawn fewer_put fewer_finish)
  then show "vote_inv C'"
    using vote_inv_put_spawn [OF inv i heartbeat_good(2,1) [OF inv_goodD(1) [OF inv i] h] n]
    by (rule fewer_inv)
qed

lemma propose_inv: "vote_inv C \<Longrightarrow> step (Propose i now c) C = Some C' \<Longrightarrow> vote_inv C'"
proof -
  assume inv: "vote_inv C" and "step (Propose i now c) C = Some C'"
  then obtain rf gs res where i: "i \<in> servers C" and h: "Start now c (peers C i) = Some (rf, gs, res)"
    and C': "C' = spawn i gs (put i rf C)"
    by (auto simp: bind_Some_iff split: if_splits)
  have n: "\<not> asks u k" if "k \<in> set gs" for u k
    using leader_sends_asks(2) [OF h that] .
  show "vote_inv C'"
    unfolding C'
    by (rule vote_inv_put_spawn [OF inv i Start_quiet [OF h] Start_good [OF inv_goodD(1) [OF inv i] h] n])
qed

lemma local_inv:
  assumes inv: "vote_inv C"
  shows "step (TakeSnapshot i index snap) C = Some C' \<Longrightarrow> vote_inv C'"
    and "step (Apply i) C = Some C' \<Longrightarrow> vote_inv C'"
    and "step (Restart i) C = Some C' \<Longrightarrow> vote_inv C'"
proof -
  note gd = inv_goodD(1) [OF inv]
  show "vote_inv C'" if s: "step (TakeSnapshot i index snap) C = Some C'"
  proof -
    obtain rf where i: "i \<in> servers C" and h: "Snapshot index snap (peers C i) = Some rf" and "C' = put i rf C"
      using s by (auto simp: bind_Some_iff split: if_splits)
    then show ?thesis
      using vote_inv_put [OF inv i Snapshot_quiet [OF h] Snapshot_good [OF gd [OF i] h]] by simp
  qed
  show "vote_inv C'" if s: "step (Restart i) C = Some C'"
  proof -
    obtain rf where i: "i \<in> servers C" and m: "Make (nservers C) i (persister (peers C i)) = Some rf"
      and C': "nservers C' = nservers C" "peers C' = (peers C)(i := rf)" "grants C' = grants C"
        "running C' = filter (\<lambda>(k, g). k \<noteq> i) (running C)"
        "replies C' = filter (\<lambda>(k, g, r). k \<noteq> i) (replies C)"
        "orphans C' = orphans C @ filter (\<lambda>(k, g). k = i) (running C)"
      using s by (auto simp: bind_Some_iff split: if_splits)
    show ?thesis by (rule restart_inv [OF inv i m C'])
  qed
  assume "step (Apply i) C = Some C'"
  then obtain rf pc m where i: "i \<in> servers C" and a: "applyTicker (applying C i) (peers C i) = Some (rf, pc, m)"
    and C': "fewer C' (put i rf C)"
    by (auto simp: bind_Some_iff fewer_def split: if_splits)
  show "vote_inv C'"
    using applyTicker_shape [OF a] vote_inv_put [OF inv i _ applyTicker_good [OF gd [OF i] a]]
      fewer_inv [OF C'] by blast
qed

lemma network_inv:
  assumes inv: "vote_inv C"
  shows "step (Deliver i g now) C = Some C' \<Longrightarrow> vote_inv C'"
    and "step (DeliverOrphan i g now) C = Some C' \<Longrightarrow> vote_inv C'"
    and "step (Lose i g) C = Some C' \<Longrightarrow> vote_inv C'"
    and "step (Reply i g r) C = Some C' \<Longrightarrow> vote_inv C'"
    and "step (LoseReply i g r) C = Some C' \<Longrightarrow> vote_inv C'"
proof -
  let ?D = "C\<lparr>orphans := remove1 (i, g) (orphans C)\<rparr>" and ?R = "C\<lparr>replies := remove1 (i, g, r) (replies C)\<rparr>"
  show "vote_inv C'" if s: "step (Deliver i g now) C = Some C'"
  proof -
    obtain C'' v where p: "(i, g) \<in> set (running C)" and h: "handle now i g C = Some (C'', v)"
      and C': "C' = answered i g v (finish i g C'')"
      using s by (auto simp: bind_Some_iff handle_finish answered_def split: if_splits)
    have "fewer C' (answered i g v C'')"
      by (simp add: fewer_def C' answered_def set_remove1_subset)
    then show ?thesis
      using handle_inv [OF inv running_caller [OF inv p] h] pending_running [OF p] fewer_inv by blast
  qed
  show "vote_inv C'" if s: "step (DeliverOrphan i g now) C = Some C'"
  proof -
    obtain v where p: "(i, g) \<in> set (orphans C)" and h: "handle now i g ?D = Some (C', v)"
      using s by (auto simp: bind_Some_iff split: if_splits)
    have i: "i \<in> servers ?D" using p inv_goodD(2) [OF inv] by (auto simp: servers_def)
    show ?thesis
      using handle_inv [OF fewer_inv [OF fewer_orphan inv] i h] by blast
  qed
  show "vote_inv C'" if "step (Lose i g) C = Some C'"
    by (rule continue_fewer_inv [OF inv fewer_finish pending_running, of i g None])
       (use that in \<open>auto split: if_splits\<close>)
  show "vote_inv C'" if "step (LoseReply i g r) C = Some C'"
    by (rule continue_fewer_inv [OF inv fewer_reply pending_reply, of i g r None "(i, g, r)"])
       (use that in \<open>auto split: if_splits\<close>)
  assume "step (Reply i g r) C = Some C'"
  then have p: "(i, g, r) \<in> set (replies C)" and c: "continue i g (Some r) ?R = Some C'"
    by (auto split: if_splits)
  show "vote_inv C'"
    by (rule continue_fewer_inv [OF inv fewer_reply pending_reply [OF p] c]) (use p in \<open>auto simp: granted_def\<close>)
qed

lemma step_inv: "vote_inv C \<Longrightarrow> step e C = Some C' \<Longrightarrow> vote_inv C'"
  by (cases e) (blast intro: tick_inv elect_step_inv heartbeat_inv propose_inv local_inv network_inv)+

lemma reachable_inv: "reachable n C \<Longrightarrow> vote_inv C"
  by (induction rule: reachable.induct) (blast intro: initial_inv step_inv)+

section \<open>Election safety\<close>

lemma quorum_meet:
  assumes "odd n" and "quorum n P" and "quorum n Q"
  shows "P \<inter> Q \<noteq> {}"
proof (rule card_quorum_intersect [of "{0..<int n}"])
  obtain k where "n = 2 * k + 1" using assms(1) by (auto elim: oddE)
  then show "card {0..<int n} < card P + card Q"
    using assms(2,3) by (auto simp: quorum_def go_div_nat)
qed (use assms in \<open>auto simp: quorum_def\<close>)

interpretation majority: quorum_family "\<lambda>Q. odd n \<and> quorum n Q" for n :: nat
  by unfold_locales (use quorum_meet in blast)

lemma continue_nservers: "continue i g res C = Some C' \<Longrightarrow> nservers C' = nservers C"
  by (auto simp: continue_def bind_Some_iff split: goroutine.splits option.splits rpc_reply.splits)

lemma step_nservers: "step e C = Some C' \<Longrightarrow> nservers C' = nservers C"
  by (cases e) (auto simp: bind_Some_iff Let_def split: if_splits prod.splits
      dest!: continue_nservers handle_frame(1))

lemma reachable_nservers: "reachable n C \<Longrightarrow> nservers C = n"
  by (induction rule: reachable.induct) (auto simp: initial_def step_nservers)

lemma leaders_agree:
  assumes r: "reachable n C" and n: "odd n" and i: "i \<in> servers C" "rstate (peers C i) = LeaderState"
    and j: "j \<in> servers C" "rstate (peers C j) = LeaderState"
    and t: "currentTerm (peers C i) = currentTerm (peers C j)"
  shows "i = j"
proof -
  let ?t = "currentTerm (peers C j)"
  have L: "inv_lead C" "inv_once C" using reachable_inv [OF r] by (simp_all add: vote_inv_def)
  obtain P where P: "quorum n P" "\<And>v. v \<in> P \<Longrightarrow> (?t, v, i) \<in> grants C"
    using L(1) i t reachable_nservers [OF r] unfolding inv_lead_def by metis
  obtain Q where Q: "quorum n Q" "\<And>v. v \<in> Q \<Longrightarrow> (?t, v, j) \<in> grants C"
    using L(1) j reachable_nservers [OF r] unfolding inv_lead_def by metis
  show ?thesis
  proof (rule majority.same_choice [where ballot = "\<lambda>v c. (?t, v, c) \<in> grants C"])
    show "odd n \<and> quorum n P" "odd n \<and> quorum n Q" using n P(1) Q(1) by simp_all
  qed (use P(2) Q(2) L(2) in \<open>auto simp: inv_once_def\<close>)
qed
section \<open>Terms and votes never go back\<close>

definition forward :: "'c Raft \<Rightarrow> 'c Raft \<Rightarrow> bool" where
  "forward rf rf' \<longleftrightarrow> currentTerm rf \<le> currentTerm rf'
     \<and> (currentTerm rf' = currentTerm rf \<longrightarrow> 0 \<le> votedFor rf \<longrightarrow> votedFor rf' = votedFor rf)"

lemma forward_refl [simp]: "forward rf rf"
  by (simp add: forward_def)

lemma quiet_forward: "quiet rf rf' \<Longrightarrow> forward rf rf'"
  by (auto simp: quiet_def forward_def)

lemma handle_forward:
  assumes inv: "vote_inv C" and h: "handle now i g C = Some (C', r)" and k: "k \<in> servers C"
  shows "forward (peers C k) (peers C' k)"
proof -
  note gd = inv_goodD(1) [OF inv]
  have v: "forward rf rf'" if "good n j rf" "RequestVote args rf = Some (rf', v)" for n j args rf rf' v
    using RequestVote_grants [OF that] by (auto simp: forward_def quiet_def split: if_splits)
  show ?thesis
    using h v [OF gd] AppendEntries_quiet [THEN quiet_forward] InstallSnapshot_quiet [THEN quiet_forward]
    by (auto simp: handle_def bind_Some_iff split: goroutine.splits if_splits)
qed

lemma continue_forward:
  assumes inv: "vote_inv C" and i: "i \<in> servers C" and c: "continue i g res C = Some C'"
  shows "forward (peers C k) (peers C' k)"
proof -
  have wf: "wf_raft (peers C i)" using inv_goodD(1) [OF inv i] by (rule good_wf)
  have v: "forward (peers C i) rf'" if "sendRequestVote_reply j t r (peers C i) = Some (rf', gs)" for j t r rf' gs
    using sendRequestVote_reply_shape [OF that wf] quiet_forward by (auto simp: forward_def)
  have o: "forward (peers C i) rf'" if "\<exists>rf1. rf' = persist rf1 \<and> reply_outcome (peers C i) rf1" for rf'
    using that reply_outcome_frame(1) by (auto intro!: quiet_forward)
  show ?thesis
    using c v o [OF sendEntries_reply_outcome] o [OF sendInstallSnapshot_reply_outcome]
    by (auto simp: continue_def bind_Some_iff split: goroutine.splits option.splits rpc_reply.splits)
qed

lemma step_forward:
  assumes inv: "vote_inv C" and s: "step e C = Some C'" and k: "k \<in> servers C"
  shows "forward (peers C k) (peers C' k)"
proof -
  note gd = inv_goodD(1) [OF inv]
  have el: "forward (peers C i) rf" if "i \<in> servers C" "startElection (peers C i) = Some (rf, gs)" for i rf gs
    using startElection_shape [OF that(2) good_wf [OF gd [OF that(1)]]] by (simp add: forward_def)
  have mk: "forward (peers C i) rf" if "i \<in> servers C" "Make (nservers C) i (persister (peers C i)) = Some rf"
    for i rf
    using Make_good [OF gd [OF that(1)] that(2)] by (simp add: forward_def)
  note shapes = quiet_forward [OF heartbeat_good(2) [OF gd]] quiet_forward [OF Start_quiet]
    quiet_forward [OF Snapshot_quiet] 
  have ap: "forward (peers C i) rf" if "applyTicker pc (peers C i) = Some (rf, pc', m)" for i pc rf pc' m
    using applyTicker_shape [OF that] quiet_forward by blast
  have tk: "forward (peers C i) rf" if "ticker now (peers C i) = (rf, gs)" for now i rf gs
    using that by (auto simp: ticker_def forward_def split: if_splits)
  have fw: "vote_inv D" "peers D = peers C" "servers D = servers C" if "fewer D C" for D
    using that fewer_inv [OF that inv] by (auto simp: fewer_def servers_def)
  note rc = running_caller [OF inv]
  show ?thesis
  proof (cases e)
    case (Tick i now)
    then show ?thesis using s tk [of now i] by (auto split: if_splits prod.splits)
  next
    case (Elect i)
    then show ?thesis using s el rc by (auto simp: bind_Some_iff split: if_splits)
  next
    case (Heartbeat i now)
    then show ?thesis using s shapes(1) rc by (auto simp: bind_Some_iff split: if_splits)
  next
    case (Propose i now c)
    then show ?thesis using s shapes(2) by (auto simp: bind_Some_iff split: if_splits)
  next
    case (TakeSnapshot i index snap)
    then show ?thesis using s shapes(3) by (auto simp: bind_Some_iff split: if_splits)
  next
    case (Apply i)
    then show ?thesis using s ap by (auto simp: bind_Some_iff split: if_splits)
  next
    case (Deliver i g now)
    then show ?thesis
      using s handle_forward [OF fw(1) [OF fewer_finish]] fw(2,3) [OF fewer_finish] k
      by (fastforce simp: bind_Some_iff split: if_splits)
  next
    case (DeliverOrphan i g now)
    then show ?thesis
      using s handle_forward [OF fw(1) [OF fewer_orphan]] fw(2,3) [OF fewer_orphan] k
      by (fastforce simp: bind_Some_iff split: if_splits)
  next
    case (Lose i g)
    then show ?thesis
      using s continue_forward [OF fw(1) [OF fewer_finish]] fw(2,3) [OF fewer_finish] rc
      by (fastforce split: if_splits)
  next
    case (Reply i g r)
    then show ?thesis
      using s continue_forward [OF fw(1) [OF fewer_reply]] fw(2,3) [OF fewer_reply]
        inv_goodD(2) [OF inv] pending_reply by (fastforce split: if_splits)
  next
    case (LoseReply i g r)
    then show ?thesis
      using s continue_forward [OF fw(1) [OF fewer_reply]] fw(2,3) [OF fewer_reply]
        inv_goodD(2) [OF inv] pending_reply by (fastforce split: if_splits)
  next
    case (Restart i)
    then show ?thesis using s mk by (auto simp: bind_Some_iff split: if_splits)
  qed
qed
section \<open>Properties of reachable clusters\<close>

definition leads :: "'c cluster \<Rightarrow> int \<Rightarrow> int \<Rightarrow> bool" where
  "leads C i t \<longleftrightarrow> i \<in> servers C \<and> rstate (peers C i) = LeaderState \<and> currentTerm (peers C i) = t"

text \<open>Server \<open>i\<close> times out in term 0, asks \<open>j\<close> for its vote and hears its answer.\<close>

definition campaign :: "int \<Rightarrow> int \<Rightarrow> nat event list" where
  "campaign i j = [Tick i 10000, Elect i, Deliver i (SendRequestVote j 1 0 0) 0,
     Reply i (SendRequestVote j 1 0 0) (VoteReply \<lparr>rvr_Term = 0, rvr_VoteGranted = True\<rparr>)]"

fun after :: "('c cluster \<Rightarrow> bool) \<Rightarrow> 'c cluster option \<Rightarrow> bool" where
  "after P (Some C) = P C"
| "after P None = False"

lemma after_reachable: "after P (run es (initial n)) \<Longrightarrow> \<exists>C. reachable n C \<and> P C"
  by (cases "run es (initial n)") (auto intro: run_reachable reachable.start)

lemma elected_3:
  "\<exists>C :: nat cluster. reachable 3 C \<and> leads C 0 1 \<and> (1, 1, 0) \<in> grants C \<and> 1 \<in> servers C
     \<and> step (Restart 1) C \<noteq> None"
  by (rule after_reachable [where es = "campaign 0 1"]) code_simp

text \<open>C1. Election safety: in a reachable state of a cluster with an odd number of servers, whatever
  messages were delayed, reordered or lost and whichever servers crashed, two servers that are leaders
  in the same term are the same server.\<close>

theorem election_safety:
  assumes "reachable n C" and "odd n" and "leads C i t" and "leads C j t"
  shows "i = j"
  using leaders_agree [OF assms(1,2)] assms(3,4) by (simp add: leads_def)

theorem election_safety_witness:
  "\<exists>C :: nat cluster. reachable 3 C \<and> odd (3 :: nat) \<and> leads C 0 1 \<and> (\<forall>j. leads C j 1 \<longrightarrow> 0 = j)"
proof -
  obtain C :: "nat cluster" where C: "reachable 3 C" "leads C 0 1" using elected_3 by blast
  have "0 = j" if "leads C j 1" for j
    by (rule election_safety [OF C(1) _ C(2) that]) simp
  then show ?thesis using C by auto
qed

text \<open>C17. With four servers the threshold \<^verbatim>\<open>(len(peers)+1)/2\<close> computed by \<^verbatim>\<open>Make\<close> is two, which is
  no majority: two servers can lead the same term.\<close>

theorem even_cluster_two_leaders:
  "\<exists>C :: nat cluster. reachable 4 C \<and> leads C 0 1 \<and> leads C 1 1"
  by (rule after_reachable [where es = "campaign 0 2 @ campaign 1 3"]) code_simp

text \<open>A server votes for at most one candidate in a term, crashes and restarts included.\<close>

lemma one_vote_per_term:
  assumes "reachable n C" and "(t, voter, cand) \<in> grants C" and "(t, voter, cand') \<in> grants C"
  shows "cand = cand'"
  using reachable_inv [OF assms(1)] assms(2,3) unfolding vote_inv_def inv_once_def by blast

text \<open>C6. At every moment of every run a crash loses nothing of the persistent state: \<^verbatim>\<open>Make\<close> on the
  server's persister succeeds and yields the term, the vote, the log and the snapshot it had.\<close>

theorem crash_at_any_time:
  assumes "reachable n C" and "i \<in> servers C"
  shows "\<exists>rf. Make n i (persister (peers C i)) = Some rf
    \<and> currentTerm rf = currentTerm (peers C i) \<and> votedFor rf = votedFor (peers C i)
    \<and> rlog rf = rlog (peers C i) \<and> snapshotLastIndex rf = snapshotLastIndex (peers C i)
    \<and> snapshotLastTerm rf = snapshotLastTerm (peers C i) \<and> snapshot rf = snapshot (peers C i)"
  using inv_goodD(1) [OF reachable_inv [OF assms(1)] assms(2)] reachable_nservers [OF assms(1)]
  by (auto simp: good_def durable_def split: option.splits)

theorem crash_at_any_time_witness:
  "\<exists>C :: nat cluster. reachable 3 C \<and> 1 \<in> servers C
    \<and> (\<exists>rf. Make 3 1 (persister (peers C 1)) = Some rf \<and> votedFor rf = votedFor (peers C 1))"
proof -
  obtain C :: "nat cluster" where C: "reachable 3 C" "1 \<in> servers C" using elected_3 by blast
  show ?thesis using crash_at_any_time [OF C] C by blast
qed

text \<open>C19. Every server of every reachable cluster is well-formed: its log starts with the entry of its snapshot,
  its tables have an entry per peer, its threshold is the one \<^verbatim>\<open>Make\<close> computes and its identity is its own; and
  every goroutine, reply and request in flight belongs to a server.\<close>

theorem peers_well_formed:
  assumes "reachable n C"
  shows "(i \<in> servers C \<longrightarrow> wf_raft (peers C i) \<and> npeers (peers C i) = n \<and> me (peers C i) = i)
    \<and> ((i, g) \<in> set (running C) \<union> set (orphans C) \<or> (i, g, r) \<in> set (replies C) \<longrightarrow> i \<in> servers C)"
  using inv_goodD [OF reachable_inv [OF assms], of i] reachable_nservers [OF assms]
  by (auto simp: good_def dest: pending_running pending_reply)

theorem peers_well_formed_witness:
  "\<exists>C :: nat cluster. reachable 3 C \<and> 1 \<in> servers C \<and> wf_raft (peers C 1) \<and> me (peers C 1) = 1"
proof -
  obtain C :: "nat cluster" where C: "reachable 3 C" "1 \<in> servers C" using elected_3 by blast
  show ?thesis using peers_well_formed [OF C(1), of 1] C by blast
qed

text \<open>C18. No event of the cluster, the restart of the server included, lowers a server's term or changes
  its vote within a term.\<close>

theorem term_and_vote_monotone:
  assumes "reachable n C" and "step e C = Some C'" and "i \<in> servers C"
  shows "currentTerm (peers C i) \<le> currentTerm (peers C' i)
    \<and> (currentTerm (peers C' i) = currentTerm (peers C i) \<longrightarrow> 0 \<le> votedFor (peers C i) \<longrightarrow>
         votedFor (peers C' i) = votedFor (peers C i))"
  using step_forward [OF reachable_inv [OF assms(1)] assms(2,3)] by (simp add: forward_def)

theorem term_and_vote_monotone_witness:
  "\<exists>C C' :: nat cluster. reachable 3 C \<and> step (Restart 1) C = Some C' \<and> 1 \<in> servers C
    \<and> currentTerm (peers C 1) \<le> currentTerm (peers C' 1)"
proof -
  obtain C C' :: "nat cluster" where C: "reachable 3 C" "step (Restart 1) C = Some C'" "1 \<in> servers C"
    using elected_3 by blast
  show ?thesis using term_and_vote_monotone [OF C] C by blast
qed
end
