(* ===== verification/Raft_Log.thy ===== *)
theory Raft_Log
  imports Raft_Election
begin

text \<open>
  Log matching: two logs that hold an entry of the same index and term hold the same entries up to there, as
  far as neither has been compacted. It fails for the code, because a leader that is handed a later
  term's snapshot replaces its log and stays leader; a run of five servers shows it. It holds in
  every run in which that does not happen.

  The proof keeps a history of the entries ever created: for an index and a term the command, and the term
  of the entry before it. A leader creates an entry by appending to its log; logs and messages are chains
  of the history.
\<close>

section \<open>Chains\<close>

type_synonym 'c history = "int \<times> int \<rightharpoonup> 'c option \<times> int"

text \<open>The entries that follow position \<open>i\<close>, whose term is \<open>t\<close>, are in the history.\<close>

fun chain :: "'c history \<Rightarrow> int \<Rightarrow> int \<Rightarrow> 'c LogEntry list \<Rightarrow> bool" where
  "chain H i t [] \<longleftrightarrow> True"
| "chain H i t (e # es) \<longleftrightarrow> H (i + 1, Term e) = Some (Command e, t) \<and> chain H (i + 1) (Term e) es"

definition end_term :: "int \<Rightarrow> 'c LogEntry list \<Rightarrow> int" where
  "end_term t es = (if es = [] then t else Term (last es))"

definition log_chain :: "'c history \<Rightarrow> 'c Raft \<Rightarrow> bool" where
  "log_chain H rf \<longleftrightarrow> chain H (snapshotLastIndex rf) (Term (hd (rlog rf))) (tl (rlog rf))"

lemma end_term_simps [simp]: "end_term t [] = t" "end_term t (e # es) = end_term (Term e) es"
  by (simp_all add: end_term_def)

lemma chain_append:
  "chain H i t (xs @ ys) \<longleftrightarrow> chain H i t xs \<and> chain H (i + int (length xs)) (end_term t xs) ys"
  by (induction xs arbitrary: i t) (simp_all add: add.assoc add.commute)

lemma chain_mono: "H \<subseteq>\<^sub>m H' \<Longrightarrow> chain H i t es \<Longrightarrow> chain H' i t es"
proof (induction es arbitrary: i t)
  case (Cons e es)
  have "(i + 1, Term e) \<in> dom H" using Cons.prems(2) by auto
  then have "H' (i + 1, Term e) = H (i + 1, Term e)" using Cons.prems(1) by (simp add: map_le_def)
  then show ?case using Cons by simp
qed simp

lemma chain_drop: "chain H i t es \<Longrightarrow> k \<le> length es \<Longrightarrow> chain H (i + int k) (end_term t (take k es)) (drop k es)"
  using chain_append [of H i t "take k es" "drop k es"] by (simp add: min_absorb2)

lemma chain_take: "chain H i t es \<Longrightarrow> chain H i t (take k es)"
  using chain_append [of H i t "take k es" "drop k es"] by simp

lemma chain_merge: "chain H i t xs \<Longrightarrow> chain H i t ys \<Longrightarrow> chain H i t (ae_merge xs ys)"
  by (induction xs ys arbitrary: i t rule: ae_merge.induct) auto

text \<open>Chains determine what comes before an entry.\<close>

lemma chain_unique:
  assumes "chain H i t xs" and "chain H i t' ys" and "k < length xs" and "k < length ys" and "Term (xs ! k) = Term (ys ! k)"
  shows "take (Suc k) xs = take (Suc k) ys \<and> t = t'"
  using assms
proof (induction k arbitrary: i t t' xs ys)
  case 0
  obtain x xs' where x: "xs = x # xs'" using 0(3) by (cases xs) simp_all
  obtain y ys' where y: "ys = y # ys'" using 0(4) by (cases ys) simp_all
  note xy = x y
  have tm: "Term x = Term y" using 0(5) xy by simp
  have "H (i + 1, Term x) = Some (Command x, t)" "H (i + 1, Term y) = Some (Command y, t')"
    using 0(1,2) xy by simp_all
  then have e: "Term x = Term y" "Command x = Command y" "t = t'" using tm by simp_all
  have "x = y" using e(1,2) by (cases x; cases y) simp
  then show ?case using xy e(3) by simp
next
  case (Suc k)
  obtain x xs' where x: "xs = x # xs'" using Suc.prems(3) by (cases xs) simp_all
  obtain y ys' where y: "ys = y # ys'" using Suc.prems(4) by (cases ys) simp_all
  note xy = x y
  have h: "H (i + 1, Term x) = Some (Command x, t)" "H (i + 1, Term y) = Some (Command y, t')"
    "chain H (i + 1) (Term x) xs'" "chain H (i + 1) (Term y) ys'"
    using Suc.prems(1,2) xy by simp_all
  have "take (Suc k) xs' = take (Suc k) ys' \<and> Term x = Term y"
    by (rule Suc.IH [OF h(3,4)]) (use Suc.prems(3-5) xy in simp_all)
  then have e: "take (Suc k) xs' = take (Suc k) ys'" "Term x = Term y" "Command x = Command y" "t = t'"
    using h(1,2) by simp_all
  have "x = y" using e(2,3) by (cases x; cases y) simp
  then show ?case using xy e(1,4) by simp
qed

section \<open>What operations do to the log\<close>

lemma end_term_take:
  assumes "log \<noteq> []" and "k < length log"
  shows "end_term (Term (hd log)) (take k (tl log)) = Term (log ! k)"
proof (cases k)
  case 0
  then show ?thesis using assms by (simp add: hd_conv_nth)
next
  case (Suc m)
  obtain x xs where "log = x # xs" using assms(1) by (cases log) simp_all
  with Suc assms(2) show ?thesis by (simp add: end_term_def take_Suc_conv_app_nth)
qed

lemma log_chain_from:
  assumes "log_chain H rf" and "rlog rf \<noteq> []" and "k < length (rlog rf)"
  shows "chain H (snapshotLastIndex rf + int k) (Term (rlog rf ! k)) (drop (Suc k) (rlog rf))"
proof -
  have "k \<le> length (tl (rlog rf))" using assms(3) by simp
  from chain_drop [OF assms(1) [unfolded log_chain_def] this] show ?thesis
    using end_term_take [OF assms(2,3)] by (simp add: drop_Suc)
qed

lemma AppendEntries_chain:
  assumes "log_chain H rf" and "rlog rf \<noteq> []" and "AppendEntries now args rf = Some (rf', r)"
    and "chain H (ae_PrevLogIndex args) (ae_PrevLogTerm args) (ae_Entries args)"
  shows "log_chain H rf'"
proof (cases "aer_Success r")
  case True
  let ?k = "nat (ae_PrevLogIndex args - snapshotLastIndex rf)"
  note A = AppendEntries_successD [OF assms(3) True]
  have k: "?k < length (rlog rf)" "snapshotLastIndex rf + int ?k = ae_PrevLogIndex args"
    using A(2,3) by (auto simp: logLength_def go_len_def nat_less_iff)
  have log: "rlog rf' = take (Suc ?k) (rlog rf) @ ae_merge (drop (Suc ?k) (rlog rf)) (ae_Entries args)"
    "snapshotLastIndex rf' = snapshotLastIndex rf"
    unfolding A(5) by simp_all
  have c: "chain H (snapshotLastIndex rf + int ?k) (Term (rlog rf ! ?k)) (drop (Suc ?k) (rlog rf))"
    by (rule log_chain_from [OF assms(1,2) k(1)])
  have "chain H (snapshotLastIndex rf + int ?k) (Term (rlog rf ! ?k)) (ae_merge (drop (Suc ?k) (rlog rf)) (ae_Entries args))"
    by (rule chain_merge [OF c]) (use assms(4) A(4) k(2) in simp)
  moreover have "chain H (snapshotLastIndex rf) (Term (hd (rlog rf))) (take ?k (tl (rlog rf)))"
    using assms(1) unfolding log_chain_def by (rule chain_take)
  moreover have "take (Suc ?k) (rlog rf) = hd (rlog rf) # take ?k (tl (rlog rf))" using assms(2) by (cases "rlog rf") simp_all
  moreover have "length (take ?k (tl (rlog rf))) = ?k" using k(1) by (simp add: min_absorb2)
  ultimately show ?thesis unfolding log_chain_def log by (simp only: append_Cons list.sel chain_append end_term_take [OF assms(2) k(1)])
next
  case False
  have "rlog rf' = rlog rf \<and> snapshotLastIndex rf' = snapshotLastIndex rf"
  proof (cases "ae_Term args < currentTerm rf")
    case True
    then show ?thesis using assms(3) by (auto simp: AppendEntries_stale)
  next
    case nt: False
    show ?thesis using assms(3) False by (auto simp: AppendEntries_enter [OF nt] Let_def split: if_splits)
  qed
  then show ?thesis using assms(1) by (simp add: log_chain_def)
qed

lemma InstallSnapshot_chain:
  assumes "log_chain H rf" and "rlog rf \<noteq> []" and "InstallSnapshot now args rf = Some (rf', r)"
  shows "log_chain H rf'"
proof -
  let ?k = "is_LastIncludedIndex args - snapshotLastIndex rf"
  have "chain H (is_LastIncludedIndex args) (is_LastIncludedTerm args) (drop (nat (?k + 1)) (rlog rf))"
    if "0 < ?k" "?k < go_len (rlog rf)" "Term (rlog rf ! nat ?k) = is_LastIncludedTerm args"
    using log_chain_from [OF assms(1,2), of "nat ?k"] that by (simp add: go_len_def nat_less_iff Suc_nat_eq_nat_zadd1 add.commute)
  then show ?thesis using assms(1,3) by (auto simp: InstallSnapshot_closed log_chain_def Let_def split: if_splits)
qed

lemma Snapshot_chain:
  assumes "log_chain H rf" and "rlog rf \<noteq> []" and "Snapshot i snap rf = Some rf'"
  shows "log_chain H rf'" and "logLength rf' = logLength rf"
proof -
  have "log_chain H rf' \<and> logLength rf' = logLength rf"
  proof (cases "snapshotLastIndex rf < i")
    case True
    then have i: "i < logLength rf" using assms(3)
      by (auto simp: Snapshot_def bind_Some_iff go_nth_Some_iff absoluteIndexToLogIndex_def logLength_def)
    let ?k = "nat (i - snapshotLastIndex rf)"
    have k: "?k < length (rlog rf)" "snapshotLastIndex rf + int ?k = i"
      using True i by (auto simp: logLength_def go_len_def nat_less_iff)
    show ?thesis using log_chain_from [OF assms(1,2) k(1)] assms(3) k
      by (auto simp: Snapshot_closed [OF True i] Let_def log_chain_def logLength_def go_len_def)
  next
    case False
    then show ?thesis using assms(1,3) by (auto simp: Snapshot_def log_chain_def)
  qed
  then show "log_chain H rf'" "logLength rf' = logLength rf" by blast+
qed

section \<open>The invariant\<close>

text \<open>A server has won a term.\<close>

definition led :: "'c cluster \<Rightarrow> int \<Rightarrow> int \<Rightarrow> bool" where
  "led C t p \<longleftrightarrow> (\<exists>Q. quorum (nservers C) Q \<and> (\<forall>j \<in> Q. (t, j, p) \<in> grants C))"

text \<open>What a sender of a leader carries.\<close>

definition sent_ok :: "'c cluster \<Rightarrow> 'c history \<Rightarrow> int \<Rightarrow> 'c goroutine \<Rightarrow> bool" where
  "sent_ok C H i g \<longleftrightarrow>
     (case g of
        SendEntries j t pi pt ci es \<Rightarrow> j \<noteq> i \<and> led C t i \<and> chain H pi pt es
      | SendInstallSnapshot j t si st data \<Rightarrow> j \<noteq> i \<and> led C t i
      | _ \<Rightarrow> True)"

text \<open>The logs are chains; so are the messages; no server is asked for, or has, a vote of a term its candidate has not
  reached; and an entry of a term was created by the server that won it, which still has the index in its log
  as long as it leads that term, and cannot win it again.\<close>

definition inv_logs :: "'c cluster \<Rightarrow> 'c history \<Rightarrow> bool" where
  "inv_logs C H \<longleftrightarrow> (\<forall>i \<in> servers C. log_chain H (peers C i))"

definition inv_sent :: "'c cluster \<Rightarrow> 'c history \<Rightarrow> bool" where
  "inv_sent C H \<longleftrightarrow> (\<forall>i g. (i, g) \<in> set (running C) \<union> set (orphans C) \<longrightarrow> sent_ok C H i g)"

definition inv_ballot :: "'c cluster \<Rightarrow> bool" where
  "inv_ballot C \<longleftrightarrow> (\<forall>i g t. (i, g) \<in> set (running C) \<union> set (orphans C) \<longrightarrow> asks t g \<longrightarrow> t \<le> currentTerm (peers C i))
     \<and> (\<forall>t j k. (t, j, k) \<in> grants C \<longrightarrow> k \<in> servers C \<and> t \<le> currentTerm (peers C k))"

definition made_ok :: "'c cluster \<Rightarrow> int \<Rightarrow> int \<Rightarrow> int \<Rightarrow> bool" where
  "made_ok C p idx t \<longleftrightarrow> p \<in> servers C \<and> led C t p \<and> (currentTerm (peers C p) = t \<longrightarrow>
     (if rstate (peers C p) = LeaderState then idx < logLength (peers C p) else \<forall>g. (p, g) \<in> pending C \<longrightarrow> \<not> asks t g))"

definition inv_made :: "'c cluster \<Rightarrow> 'c history \<Rightarrow> bool" where
  "inv_made C H \<longleftrightarrow> (\<forall>idx t. (idx, t) \<in> dom H \<longrightarrow> (\<exists>p. made_ok C p idx t))"

definition log_inv :: "'c cluster \<Rightarrow> 'c history \<Rightarrow> bool" where
  "log_inv C H \<longleftrightarrow> vote_inv C \<and> odd (nservers C) \<and> inv_logs C H \<and> inv_sent C H \<and> inv_ballot C \<and> inv_made C H"

lemma log_invD:
  assumes "log_inv C H"
  shows "vote_inv C" "odd (nservers C)" "i \<in> servers C \<Longrightarrow> log_chain H (peers C i)"
    "(k, g) \<in> set (running C) \<union> set (orphans C) \<Longrightarrow> sent_ok C H k g"
    "(k, g) \<in> set (running C) \<union> set (orphans C) \<Longrightarrow> asks t g \<Longrightarrow> t \<le> currentTerm (peers C k)"
    "(t, v, p) \<in> grants C \<Longrightarrow> p \<in> servers C \<and> t \<le> currentTerm (peers C p)"
    "H (idx, t) \<noteq> None \<Longrightarrow> \<exists>p. made_ok C p idx t"
  using assms unfolding log_inv_def inv_logs_def inv_sent_def inv_ballot_def inv_made_def by blast+

lemma led_unique:
  assumes "vote_inv C" and "odd (nservers C)" and "led C t p" and "led C t q"
  shows "p = q"
proof -
  obtain P Q where P: "quorum (nservers C) P" "\<forall>j \<in> P. (t, j, p) \<in> grants C"
    and Q: "quorum (nservers C) Q" "\<forall>j \<in> Q. (t, j, q) \<in> grants C" using assms(3,4) unfolding led_def by blast
  have "inv_once C" using assms(1) by (simp add: vote_inv_def)
  then show ?thesis
    using majority.same_choice [where P = P and Q = Q and n = "nservers C" and ballot = "\<lambda>v c. (t, v, c) \<in> grants C"] assms(2) P Q
    unfolding inv_once_def by blast
qed

lemma leader_led: "vote_inv C \<Longrightarrow> i \<in> servers C \<Longrightarrow> rstate (peers C i) = LeaderState \<Longrightarrow> led C (currentTerm (peers C i)) i"
  unfolding vote_inv_def inv_lead_def led_def by blast

lemma led_reached:
  assumes "log_inv C H" and "led C t p"
  shows "t \<le> currentTerm (peers C p)"
proof -
  obtain Q where Q: "quorum (nservers C) Q" "\<forall>j \<in> Q. (t, j, p) \<in> grants C" using assms(2) unfolding led_def by blast
  have "Q \<noteq> {}" using quorum_meet [OF log_invD(2) [OF assms(1)] Q(1) Q(1)] by blast
  then show ?thesis using Q(2) log_invD(6) [OF assms(1)] by blast
qed

lemma led_mono: "led C t p \<Longrightarrow> nservers C' = nservers C \<Longrightarrow> grants C \<subseteq> grants C' \<Longrightarrow> led C' t p"
  unfolding led_def by (metis subsetD)

lemma sent_ok_mono:
  assumes "sent_ok C H i g" and "nservers C' = nservers C" and "grants C \<subseteq> grants C'" and "H \<subseteq>\<^sub>m H'"
  shows "sent_ok C' H' i g"
  using assms led_mono [OF _ assms(2,3)] chain_mono [OF assms(4)] unfolding sent_ok_def by (auto split: goroutine.splits)

section \<open>One change\<close>

text \<open>Every event changes at most one peer. What it must keep for the entries that peer created in its term:\<close>

definition keeps_made :: "'c cluster \<Rightarrow> 'c cluster \<Rightarrow> int \<Rightarrow> bool" where
  "keeps_made C C' j \<longleftrightarrow> (let rf = peers C j; rf' = peers C' j; t = currentTerm rf in
     currentTerm rf \<le> currentTerm rf' \<and> (currentTerm rf' = t \<longrightarrow>
       (if rstate rf' = LeaderState
        then rstate rf = LeaderState \<and> logLength rf \<le> logLength rf'
             \<or> rstate rf \<noteq> LeaderState \<and> (\<exists>g. (j, g) \<in> pending C \<and> asks t g)
        else rstate rf \<noteq> LeaderState \<and> (\<forall>g. (j, g) \<in> pending C' \<longrightarrow> asks t g \<longrightarrow> (j, g) \<in> pending C)
             \<or> (\<forall>g. (j, g) \<in> pending C' \<longrightarrow> \<not> asks t g))))"

lemma made_ok_step:
  assumes inv: "log_inv C H" and m: "made_ok C p idx t" and C': "nservers C' = nservers C" "grants C \<subseteq> grants C'"
    and other: "p \<noteq> j \<Longrightarrow> peers C' p = peers C p \<and> (\<forall>g. (p, g) \<in> pending C' \<longrightarrow> asks t g \<longrightarrow> (p, g) \<in> pending C)"
    and own: "p = j \<Longrightarrow> keeps_made C C' j"
  shows "made_ok C' p idx t"
proof -
  have srv: "servers C' = servers C" using C'(1) by (simp add: servers_def)
  have l: "led C t p" "p \<in> servers C" using m by (simp_all add: made_ok_def)
  have l': "led C' t p" using led_mono [OF l(1) C'] .
  have r: "t \<le> currentTerm (peers C p)" by (rule led_reached [OF inv l(1)])
  have "if rstate (peers C' p) = LeaderState then idx < logLength (peers C' p) else \<forall>g. (p, g) \<in> pending C' \<longrightarrow> \<not> asks t g"
    if t: "currentTerm (peers C' p) = t"
  proof (cases "p = j")
    case False
    then show ?thesis using m other t by (auto simp: made_ok_def)
  next
    case True
    then have k: "keeps_made C C' p" using own by simp
    have e: "currentTerm (peers C p) = t" using k r t by (auto simp: keeps_made_def Let_def)
    then have o: "if rstate (peers C p) = LeaderState then idx < logLength (peers C p) else \<forall>g. (p, g) \<in> pending C \<longrightarrow> \<not> asks t g"
      using m by (simp add: made_ok_def)
    show ?thesis using k o e t unfolding keeps_made_def Let_def by (auto split: if_splits)
  qed
  then show ?thesis using l l' by (simp add: made_ok_def srv)
qed

lemma log_inv_change:
  assumes inv: "log_inv C H" and v: "vote_inv C'" and j: "j \<in> servers C"
    and C': "nservers C' = nservers C" "grants C \<subseteq> grants C'" and H: "H \<subseteq>\<^sub>m H'"
    and peers: "\<And>i. i \<noteq> j \<Longrightarrow> peers C' i = peers C i" and log: "log_chain H' (peers C' j)"
    and made: "keeps_made C C' j"
    and new: "\<And>idx t. H' (idx, t) \<noteq> None \<Longrightarrow> H (idx, t) = None \<Longrightarrow>
      t = currentTerm (peers C' j) \<and> rstate (peers C' j) = LeaderState \<and> idx < logLength (peers C' j)"
    and sent: "\<And>i g. (i, g) \<in> set (running C') \<union> set (orphans C') \<Longrightarrow>
      (i, g) \<in> set (running C) \<union> set (orphans C) \<or> i = j \<and> sent_ok C' H' j g \<and> (\<forall>t. asks t g \<longrightarrow> t \<le> currentTerm (peers C' j))"
    and asked: "\<And>i g t. i \<noteq> j \<Longrightarrow> (i, g) \<in> pending C' \<Longrightarrow> asks t g \<Longrightarrow> (i, g) \<in> pending C"
    and votes: "\<And>t w k. (t, w, k) \<in> grants C' \<Longrightarrow> (t, w, k) \<in> grants C \<or> k \<in> servers C \<and> t \<le> currentTerm (peers C' k)"
  shows "log_inv C' H'"
proof -
  have srv: "servers C' = servers C" using C'(1) by (simp add: servers_def)
  have tm: "currentTerm (peers C i) \<le> currentTerm (peers C' i)" for i
    using made peers [of i] by (cases "i = j") (auto simp: keeps_made_def Let_def)
  have "log_chain H' (peers C' i)" if "i \<in> servers C" for i
  proof (cases "i = j")
    case False
    then show ?thesis using log_invD(3) [OF inv that] chain_mono [OF H] peers [OF False] by (simp add: log_chain_def)
  qed (use log in simp)
  then have "inv_logs C' H'" by (simp add: inv_logs_def srv)
  moreover have "sent_ok C' H' i g" if "(i, g) \<in> set (running C') \<union> set (orphans C')" for i g
    using sent [OF that] sent_ok_mono [OF log_invD(4) [OF inv] C' H] by blast
  then have "inv_sent C' H'" unfolding inv_sent_def by blast
  moreover have "t \<le> currentTerm (peers C' i)" if "(i, g) \<in> set (running C') \<union> set (orphans C')" "asks t g" for i g t
    using sent [OF that(1)] that(2) log_invD(5) [OF inv _ that(2), of i] tm [of i] by force
  moreover have "k \<in> servers C' \<and> t \<le> currentTerm (peers C' k)" if "(t, w, k) \<in> grants C'" for t w k
    using votes [OF that] log_invD(6) [OF inv, of t w k] tm [of k] srv by force
  ultimately have "inv_logs C' H'" "inv_sent C' H'" "inv_ballot C'" unfolding inv_ballot_def by blast+
  moreover have "\<exists>p. made_ok C' p idx t" if h: "H' (idx, t) \<noteq> None" for idx t
  proof (cases "H (idx, t) = None")
    case True
    have "led C' (currentTerm (peers C' j)) j" using leader_led [OF v] new [OF h True] j srv by simp
    then show ?thesis using new [OF h True] j srv by (auto simp: made_ok_def)
  next
    case False
    then obtain p where p: "made_ok C p idx t" using log_invD(7) [OF inv] by blast
    have "made_ok C' p idx t"
      by (rule made_ok_step [OF inv p C']) (use peers made asked in auto)
    then show ?thesis by blast
  qed
  ultimately show ?thesis using v log_invD(2) [OF inv] C'(1) unfolding log_inv_def inv_made_def by auto
qed

lemma log_inv_fewer:
  assumes f: "fewer D C" and inv: "log_inv C H"
  shows "log_inv D H"
proof -
  have e: "nservers D = nservers C" "peers D = peers C" "grants D = grants C" "servers D = servers C"
    and sub: "set (running D) \<subseteq> set (running C)" "set (replies D) \<subseteq> set (replies C)" "set (orphans D) \<subseteq> set (orphans C)"
    using f by (auto simp: fewer_def servers_def)
  have p: "pending D \<subseteq> pending C" by (rule pending_mono(1) [OF sub(1,2)])
  have l: "led D t p = led C t p" for t p by (simp add: led_def e)
  have "sent_ok D H i g = sent_ok C H i g" for i g by (auto simp: sent_ok_def l split: goroutine.splits)
  then have "inv_sent D H" using log_invD(4) [OF inv] sub unfolding inv_sent_def by blast
  moreover have "inv_ballot D" using inv sub unfolding log_inv_def inv_ballot_def e by blast
  moreover have "made_ok C p idx t \<Longrightarrow> made_ok D p idx t" for p idx t using p by (auto simp: made_ok_def e l)
  then have "inv_made D H" using log_invD(7) [OF inv] unfolding inv_made_def by blast
  moreover have "inv_logs D H" using inv by (simp add: log_inv_def inv_logs_def e)
  moreover have "vote_inv D" using fewer_inv [OF f] log_invD(1) [OF inv] by blast
  ultimately show ?thesis using log_invD(2) [OF inv] by (simp add: log_inv_def e)
qed

text \<open>A change of a peer that neither makes nor unmakes a leader of its term nor shortens a leader's log.\<close>

definition steady :: "'c Raft \<Rightarrow> 'c Raft \<Rightarrow> bool" where
  "steady rf rf' \<longleftrightarrow> currentTerm rf \<le> currentTerm rf' \<and> (currentTerm rf' = currentTerm rf \<longrightarrow>
     (rstate rf' = LeaderState \<longleftrightarrow> rstate rf = LeaderState) \<and> (rstate rf = LeaderState \<longrightarrow> logLength rf \<le> logLength rf'))"

lemma log_inv_put_spawn:
  assumes inv: "log_inv C H" and v: "vote_inv (spawn i gs (put i rf C))" and i: "i \<in> servers C" and st: "steady (peers C i) rf"
    and H: "H \<subseteq>\<^sub>m H'" and log: "log_chain H' rf"
    and new: "\<And>idx t. H' (idx, t) \<noteq> None \<Longrightarrow> H (idx, t) = None \<Longrightarrow>
      t = currentTerm rf \<and> rstate rf = LeaderState \<and> idx < logLength rf"
    and gs: "\<And>g. g \<in> set gs \<Longrightarrow> sent_ok C H' i g \<and> (\<forall>t. \<not> asks t g)"
  shows "log_inv (spawn i gs (put i rf C)) H'"
proof (rule log_inv_change [OF inv v i _ _ H])
  have "sent_ok C H' i g \<Longrightarrow> sent_ok (spawn i gs (put i rf C)) H' i g" for g
    by (rule sent_ok_mono) auto
  then show "(k, g) \<in> set (running C) \<union> set (orphans C)
      \<or> k = i \<and> sent_ok (spawn i gs (put i rf C)) H' i g \<and> (\<forall>t. asks t g \<longrightarrow> t \<le> currentTerm (peers (spawn i gs (put i rf C)) i))"
    if "(k, g) \<in> set (running (spawn i gs (put i rf C))) \<union> set (orphans (spawn i gs (put i rf C)))" for k g
    using that gs by auto
  have "(i, g) \<in> pending C" if "(i, g) \<in> pending (spawn i gs (put i rf C))" "asks t g" for g t
    using that gs by auto
  then show "keeps_made C (spawn i gs (put i rf C)) i" using st by (auto simp: keeps_made_def steady_def Let_def)
qed (use log new gs in auto)

lemma log_inv_put:
  assumes "log_inv C H" and "vote_inv (put i rf C)" and "i \<in> servers C" and "steady (peers C i) rf" and "log_chain H rf"
  shows "log_inv (put i rf C) H"
  using log_inv_put_spawn [OF assms(1) _ assms(3,4) map_le_refl assms(5), of "[]"] assms(2) by (simp add: spawn_def put_def)

section \<open>Events of one server\<close>

definition same_log :: "'c Raft \<Rightarrow> 'c Raft \<Rightarrow> bool" where
  "same_log rf rf' \<longleftrightarrow> rlog rf' = rlog rf \<and> snapshotLastIndex rf' = snapshotLastIndex rf"

lemma same_log_chain: "same_log rf rf' \<Longrightarrow> log_chain H rf' = log_chain H rf" and same_log_length: "same_log rf rf' \<Longrightarrow> logLength rf' = logLength rf"
  by (simp_all add: same_log_def log_chain_def logLength_def)

lemma same_log_simps [simp]: "same_log rf rf" "same_log rf (persist rf') = same_log rf rf'"
  "same_log rf (becomeFollower t rf') = same_log rf rf'"
  by (simp_all add: same_log_def)

lemma log_inv_same:
  assumes inv: "log_inv C H" and v: "vote_inv (spawn i gs (put i rf C))" and i: "i \<in> servers C" and st: "same_log (peers C i) rf"
    and q: "currentTerm (peers C i) < currentTerm rf \<or> currentTerm rf = currentTerm (peers C i) \<and> rstate rf = rstate (peers C i)"
    and gs: "\<And>g. g \<in> set gs \<Longrightarrow> sent_ok C H i g \<and> (\<forall>t. \<not> asks t g)"
  shows "log_inv (spawn i gs (put i rf C)) H"
proof (rule log_inv_put_spawn [OF inv v i _ map_le_refl])
  show "steady (peers C i) rf" using q same_log_length [OF st] by (auto simp: steady_def)
  show "log_chain H rf" using log_invD(3) [OF inv i] same_log_chain [OF st] by simp
qed (use gs in auto)

lemma sendLoop_sent:
  assumes "log_chain H rf" and "rlog rf \<noteq> []" and "led C (currentTerm rf) (me rf)"
  shows "sendLoop rf is = Some gs \<Longrightarrow> g \<in> set gs \<Longrightarrow> sent_ok C H (me rf) g"
proof (induction "is" arbitrary: gs)
  case (Cons j "is")
  show ?case
  proof (cases "j \<noteq> me rf \<and> g \<notin> set (the (sendLoop rf is))")
    case True
    then obtain x where x: "go_nth (nextIndex rf) j = Some x"
      "(if x > snapshotLastIndex rf then do {
                let logIndex = absoluteIndexToLogIndex rf x;
                prev \<leftarrow> go_nth (rlog rf) (logIndex - 1);
                entries \<leftarrow> go_from (rlog rf) logIndex;
                Some (SendEntries j (currentTerm rf) (x - 1) (Term prev) (commitIndex rf) entries)
              }
              else Some (SendInstallSnapshot j (currentTerm rf) (snapshotLastIndex rf)
                           (snapshotLastTerm rf) (snapshot rf))) = Some g"
      using Cons.prems by (auto simp: bind_Some_iff)
    show ?thesis
    proof (cases "x > snapshotLastIndex rf")
      case big: True
      let ?k = "nat (x - snapshotLastIndex rf - 1)"
      have n: "nat (x - snapshotLastIndex rf) = Suc ?k" using big by simp
      have k: "?k < length (rlog rf)" "snapshotLastIndex rf + int ?k = x - 1"
        and g: "g = SendEntries j (currentTerm rf) (x - 1) (Term (rlog rf ! ?k)) (commitIndex rf) (drop (Suc ?k) (rlog rf))"
        using x(2) big by (auto simp: bind_Some_iff go_nth_Some_iff go_from_Some_iff go_len_def absoluteIndexToLogIndex_def Let_def n)
      from log_chain_from [OF assms(1,2) k(1)] k(2) show ?thesis using True assms(3) by (simp add: g sent_ok_def)
    qed (use x(2) True assms(3) in \<open>auto simp: sent_ok_def\<close>)
  next
    case False
    then show ?thesis using Cons by (auto simp: bind_Some_iff split: if_splits)
  qed
qed simp

lemma StartSendEntries_sent:
  assumes "log_chain H rf" and "rlog rf \<noteq> []" and "led C (currentTerm rf) (me rf)" and "StartSendEntries now rf = Some (rf', gs)"
    and "g \<in> set gs"
  shows "sent_ok C H (me rf) g \<and> (\<forall>t. \<not> asks t g)"
proof -
  let ?rf = "rf\<lparr>lastHeartBeat := now\<rparr>"
  have s: "sendLoop ?rf (go_range (npeers rf)) = Some gs" using assms(4) by (auto simp: StartSendEntries_def Let_def bind_Some_iff)
  have "log_chain H ?rf" "rlog ?rf \<noteq> []" "led C (currentTerm ?rf) (me ?rf)" using assms(1-3) by (simp_all add: log_chain_def)
  from sendLoop_sent [OF this s assms(5)] sendLoop_asks [OF s assms(5)] show ?thesis by simp
qed

lemma peer_props:
  assumes "log_inv C H" and "i \<in> servers C"
  shows "good (nservers C) i (peers C i)" "wf_raft (peers C i)" "rlog (peers C i) \<noteq> []" "me (peers C i) = i"
  using inv_goodD(1) [OF log_invD(1) [OF assms(1)] assms(2)] by (auto simp: good_def wf_raft_def)

lemma tick_log:
  assumes inv: "log_inv C H" and s: "step (Tick i now) C = Some C'"
  shows "log_inv C' H"
proof -
  obtain rf gs where tk: "ticker now (peers C i) = (rf, gs)" by fastforce
  then have i: "i \<in> servers C" and C': "C' = spawn i gs (put i rf C)" using s by (auto split: if_splits)
  have "same_log (peers C i) rf \<and> currentTerm rf = currentTerm (peers C i) \<and> rstate rf = rstate (peers C i)"
    using tk by (auto simp: ticker_def same_log_def split: if_splits)
  moreover have "sent_ok C H i g \<and> (\<forall>t. \<not> asks t g)" if "g \<in> set gs" for g
    using tk that by (auto simp: ticker_def asks_def sent_ok_def split: if_splits)
  moreover have "vote_inv C'" by (rule step_inv [OF log_invD(1) [OF inv] s])
  ultimately show ?thesis using log_inv_same [OF inv _ i] C' by blast
qed

lemma heartbeat_log:
  assumes inv: "log_inv C H" and s: "step (Heartbeat i now) C = Some C'"
  shows "log_inv C' H"
proof -
  obtain rf gs where p: "(i, RunHeartbeatCycle) \<in> set (running C)"
    and h: "runHeartbeatCycle now (peers C i) = Some (rf, gs)"
    and C': "C' = spawn i gs (put i rf (finish i RunHeartbeatCycle C))"
    using s by (auto simp: bind_Some_iff split: if_splits)
  note v = log_invD(1) [OF inv]
  have i: "i \<in> servers C" by (rule running_caller [OF v p])
  note P = peer_props [OF inv i]
  have f: "fewer C' (spawn i gs (put i rf C))" unfolding C' by (intro fewer_spawn fewer_put fewer_finish)
  have "same_log (peers C i) rf \<and> currentTerm rf = currentTerm (peers C i) \<and> rstate rf = rstate (peers C i)"
    using runHeartbeatCycle_shape [OF h] by (auto simp: same_log_def)
  moreover have g: "sent_ok C H i g \<and> (\<forall>t. \<not> asks t g)" if g: "g \<in> set gs" for g
  proof -
    have L: "rstate (peers C i) = LeaderState" using h g by (auto simp: runHeartbeatCycle_def split: if_splits)
    obtain rf1 gs1 where st: "StartSendEntries now (peers C i) = Some (rf1, gs1)" "gs = gs1 @ [RunHeartbeatCycle]"
      using h L by (auto simp: runHeartbeatCycle_def bind_Some_iff)
    have led: "led C (currentTerm (peers C i)) (me (peers C i))" using leader_led [OF v i L] P(4) by simp
    show ?thesis
    proof (cases "g = RunHeartbeatCycle")
      case False
      then show ?thesis using StartSendEntries_sent [OF log_invD(3) [OF inv i] P(3) led st(1), of g] g st(2) P(4) by simp
    qed (simp add: sent_ok_def asks_def)
  qed
  moreover have "vote_inv (spawn i gs (put i rf C))"
    using vote_inv_put_spawn [OF v i heartbeat_good(2,1) [OF P(1) h]] g by blast
  ultimately show ?thesis using log_inv_fewer [OF f log_inv_same [OF inv _ i]] by blast
qed

lemma local_log:
  assumes inv: "log_inv C H"
  shows "step (TakeSnapshot i index snap) C = Some C' \<Longrightarrow> log_inv C' H" and "step (Apply i) C = Some C' \<Longrightarrow> log_inv C' H"
proof -
  note v = log_invD(1) [OF inv]
  show "log_inv C' H" if s: "step (TakeSnapshot i index snap) C = Some C'"
  proof -
    obtain rf where i: "i \<in> servers C" and h: "Snapshot index snap (peers C i) = Some rf" and C': "C' = put i rf C"
      using s by (auto simp: bind_Some_iff split: if_splits)
    note S = Snapshot_chain [OF log_invD(3) [OF inv i] peer_props(3) [OF inv i] h]
    have "rstate rf = rstate (peers C i) \<and> currentTerm rf = currentTerm (peers C i)"
      using h by (auto simp: Snapshot_def trimLogFrom_def bind_Some_iff split: if_splits)
    then have "steady (peers C i) rf" using S(2) by (simp add: steady_def)
    then show ?thesis using log_inv_put [OF inv _ i _ S(1)] step_inv [OF v s] C' by simp
  qed
  assume s: "step (Apply i) C = Some C'"
  then obtain rf pc m where i: "i \<in> servers C" and a: "applyTicker (applying C i) (peers C i) = Some (rf, pc, m)"
    and f: "fewer C' (put i rf C)" "fewer (put i rf C) C'"
    by (auto simp: bind_Some_iff fewer_def split: if_splits)
  have q: "same_log (peers C i) rf \<and> currentTerm rf = currentTerm (peers C i) \<and> rstate rf = rstate (peers C i)"
    using a by (auto simp: applyTicker_def applySnapshots_def applyCommands_def same_log_def bind_Some_iff Let_def
        split: apply_pc.splits if_splits)
  then have "steady (peers C i) rf" "log_chain H rf"
    using same_log_length [of "peers C i" rf] same_log_chain [of "peers C i" rf H] log_invD(3) [OF inv i]
    by (simp_all add: steady_def)
  moreover have "vote_inv (put i rf C)" using fewer_inv [OF f(2) step_inv [OF v s]] .
  ultimately show "log_inv C' H" using log_inv_fewer [OF f(1)] log_inv_put [OF inv _ i] by blast
qed

text \<open>The history grows when a leader takes a command.\<close>

definition record_entry :: "'c Raft \<Rightarrow> 'c \<Rightarrow> 'c history \<Rightarrow> 'c history" where
  "record_entry rf c H = (if rstate rf = LeaderState
     then H((logLength rf, currentTerm rf) \<mapsto> (Some c, Term (last (rlog rf)))) else H)"

lemma propose_log:
  assumes inv: "log_inv C H" and s: "step (Propose i now c) C = Some C'"
  shows "log_inv C' (record_entry (peers C i) c H)"
proof -
  obtain rf gs res where i: "i \<in> servers C" and h: "Start now c (peers C i) = Some (rf, gs, res)"
    and C': "C' = spawn i gs (put i rf C)"
    using s by (auto simp: bind_Some_iff split: if_splits)
  note v = log_invD(1) [OF inv] and P = peer_props [OF inv i]
  have v': "vote_inv C'" by (rule step_inv [OF v s])
  show ?thesis
  proof (cases "rstate (peers C i) = LeaderState")
    case False
    then have "rf = persist (peers C i)" "gs = []" using h by (auto simp: Start_def)
    then show ?thesis using log_inv_same [OF inv _ i, of gs rf] v' C' False by (simp add: record_entry_def)
  next
    case L: True
    let ?rf = "peers C i" and ?H = "record_entry (peers C i) c H" and ?e = "\<lparr>Term = currentTerm (peers C i), Command = Some c\<rparr>"
    obtain mi rf2 where mi: "go_upd (matchIndex ?rf) (me ?rf) (logLength ?rf + 1 - 1) = Some mi"
      and st: "StartSendEntries now (?rf\<lparr>rlog := rlog ?rf @ [?e], matchIndex := mi\<rparr>) = Some (rf2, gs)" and rf: "rf = persist rf2"
      using h L by (auto simp: Start_def bind_Some_iff Let_def logLength_def)
    let ?rf1 = "?rf\<lparr>rlog := rlog ?rf @ [?e], matchIndex := mi\<rparr>"
    have rf2: "rf2 = ?rf1\<lparr>lastHeartBeat := now\<rparr>" by (rule StartSendEntries_shape [OF st])
    have fresh: "H (logLength ?rf, currentTerm ?rf) = None"
    proof (rule ccontr)
      assume "H (logLength ?rf, currentTerm ?rf) \<noteq> None"
      then obtain p where p: "made_ok C p (logLength ?rf) (currentTerm ?rf)" using log_invD(7) [OF inv] by blast
      then have "p = i" using led_unique [OF v log_invD(2) [OF inv]] leader_led [OF v i L] by (auto simp: made_ok_def)
      then show False using p L by (simp add: made_ok_def)
    qed
    have le: "H \<subseteq>\<^sub>m ?H" using fresh L by (auto simp: record_entry_def map_le_def)
    have "tl (rlog ?rf @ [?e]) = tl (rlog ?rf) @ [?e]" "hd (rlog ?rf @ [?e]) = hd (rlog ?rf)" using P(3) by simp_all
    moreover have "chain ?H (snapshotLastIndex ?rf) (Term (hd (rlog ?rf))) (tl (rlog ?rf))"
      using chain_mono [OF le] log_invD(3) [OF inv i] by (simp add: log_chain_def)
    moreover have "snapshotLastIndex ?rf + int (length (tl (rlog ?rf))) + 1 = logLength ?rf"
      using P(3) by (cases "rlog ?rf") (simp_all add: logLength_def go_len_def)
    moreover have "end_term (Term (hd (rlog ?rf))) (tl (rlog ?rf)) = Term (last (rlog ?rf))"
      using P(3) by (cases "rlog ?rf") (simp_all add: end_term_def)
    ultimately have ch: "log_chain ?H ?rf1" using L by (simp add: log_chain_def chain_append record_entry_def)
    have len: "logLength rf = logLength ?rf + 1" by (simp add: rf rf2 logLength_def)
    show ?thesis
      unfolding C'
    proof (rule log_inv_put_spawn [OF inv _ i _ le])
      show "vote_inv (spawn i gs (put i rf C))" using v' C' by simp
      show "steady ?rf rf" using len by (simp add: steady_def rf rf2)
      show "log_chain ?H rf" using ch by (simp add: rf rf2 log_chain_def)
      show "t = currentTerm rf \<and> rstate rf = LeaderState \<and> idx < logLength rf" if "?H (idx, t) \<noteq> None" "H (idx, t) = None" for idx t
        using that L len by (auto simp: record_entry_def rf rf2 split: if_splits)
      show "sent_ok C ?H i g \<and> (\<forall>t. \<not> asks t g)" if "g \<in> set gs" for g
        using StartSendEntries_sent [OF ch _ _ st that] leader_led [OF v i L] P(4) by simp
    qed
  qed
qed

lemma elect_log:
  assumes inv: "log_inv C H" and s: "step (Elect i) C = Some C'"
  shows "log_inv C' H"
proof -
  obtain rf gs where p: "(i, StartElection) \<in> set (running C)" and e: "startElection (peers C i) = Some (rf, gs)"
    and C': "C' = spawn i gs (grant (currentTerm rf) i i (put i rf (finish i StartElection C)))"
    using s by (auto simp: bind_Some_iff split: if_splits)
  note v = log_invD(1) [OF inv]
  have i: "i \<in> servers C" by (rule running_caller [OF v p])
  note E = startElection_shape [OF e peer_props(2) [OF inv i]]
  have l: "same_log (peers C i) rf" using e by (auto simp: startElection_def Let_def bind_Some_iff same_log_def)
  have asks: "asks (currentTerm rf) g" if "g \<in> set gs" for g using E that by blast
  have u: "asks t g \<Longrightarrow> asks t' g \<Longrightarrow> t = t'" for t t' and g :: "'a goroutine" by (auto simp: asks_def)
  show ?thesis
  proof (rule log_inv_change [OF inv step_inv [OF v s] i _ _ map_le_refl])
    show "log_chain H (peers C' i)" using log_invD(3) [OF inv i] same_log_chain [OF l] by (simp add: C')
    show "keeps_made C C' i" using E by (simp add: keeps_made_def C')
    show "(k, g) \<in> set (running C) \<union> set (orphans C)
      \<or> k = i \<and> sent_ok C' H i g \<and> (\<forall>t. asks t g \<longrightarrow> t \<le> currentTerm (peers C' i))"
      if "(k, g) \<in> set (running C') \<union> set (orphans C')" for k g
    proof (cases "g \<in> set gs \<and> k = i")
      case True
      then have "asks (currentTerm rf) g" using asks by blast
      then show ?thesis using True u by (auto simp: sent_ok_def C' asks_def split: goroutine.splits)
    qed (use that in \<open>auto simp: C' dest: notin_set_remove1\<close>)
    show "(k, g) \<in> pending C" if "k \<noteq> i" "(k, g) \<in> pending C'" for k g
      using that by (auto simp: C' dest: pending_finish)
    show "(t, w, k) \<in> grants C \<or> k \<in> servers C \<and> t \<le> currentTerm (peers C' k)" if "(t, w, k) \<in> grants C'" for t w k
      using that i by (auto simp: C')
  qed (auto simp: C')
qed

lemma restart_log:
  assumes inv: "log_inv C H" and s: "step (Restart i) C = Some C'"
  shows "log_inv C' H"
proof -
  obtain rf where i: "i \<in> servers C" and m: "Make (nservers C) i (persister (peers C i)) = Some rf"
    and C': "nservers C' = nservers C" "peers C' = (peers C)(i := rf)" "grants C' = grants C"
      "running C' = filter (\<lambda>(k, g). k \<noteq> i) (running C)" "replies C' = filter (\<lambda>(k, g, r). k \<noteq> i) (replies C)"
      "orphans C' = orphans C @ filter (\<lambda>(k, g). k = i) (running C)"
    using s by (auto simp: bind_Some_iff split: if_splits)
  note v = log_invD(1) [OF inv] and P = peer_props [OF inv i]
  note M = Make_good [OF P(1) m] and F = Make_frame [OF m]
  have l: "same_log (peers C i) rf" using P(1) m by (auto simp: good_def durable_def same_log_def)
  have p: "(k, h) \<in> pending C \<and> k \<noteq> i" if "(k, h) \<in> pending C'" for k h
    using that by (auto simp: pending_def C' image_iff)
  show ?thesis
  proof (rule log_inv_change [OF inv step_inv [OF v s] i C'(1) _ map_le_refl])
    show "log_chain H (peers C' i)" using log_invD(3) [OF inv i] same_log_chain [OF l] by (simp add: C')
    show "keeps_made C C' i" using M F p by (auto simp: keeps_made_def C' Let_def)
  qed (use p in \<open>auto simp: C'\<close>)
qed

section \<open>Events of the network\<close>

text \<open>No leader is handed a later term's snapshot.\<close>

fun demotes :: "'c goroutine \<Rightarrow> 'c cluster \<Rightarrow> bool" where
  "demotes (SendInstallSnapshot j t si st data) C \<longleftrightarrow> rstate (peers C j) = LeaderState \<and> currentTerm (peers C j) < t"
| "demotes _ C \<longleftrightarrow> False"

fun orderly :: "'c event \<Rightarrow> 'c cluster \<Rightarrow> bool" where
  "orderly (Deliver i g now) C \<longleftrightarrow> \<not> demotes g C"
| "orderly (DeliverOrphan i g now) C \<longleftrightarrow> \<not> demotes g C"
| "orderly _ C \<longleftrightarrow> True"

lemma not_own_term:
  assumes "log_inv C H" and "j \<in> servers C" and "rstate (peers C j) = LeaderState" and "led C t i" and "j \<noteq> i"
  shows "t \<noteq> currentTerm (peers C j)"
  using led_unique [OF log_invD(1,2) [OF assms(1)] assms(4)] leader_led [OF log_invD(1) [OF assms(1)] assms(2,3)] assms(5) by blast

lemma RequestVote_same:
  assumes "RequestVote args rf = Some (rf', r)" and "wf_raft rf"
  shows "same_log rf rf'" and "currentTerm rf < currentTerm rf' \<or> currentTerm rf' = currentTerm rf \<and> rstate rf' = rstate rf"
  using assms(1) unfolding RequestVote_closed [OF wf_rlogD [OF assms(2)]] Let_def by (auto simp: same_log_def split: if_splits)

lemma AppendEntries_steady:
  assumes "AppendEntries now args rf = Some (rf', r)" and "rstate rf = LeaderState \<Longrightarrow> ae_Term args \<noteq> currentTerm rf"
  shows "steady rf rf'"
  using AppendEntries_outcome [OF assms(1)]
proof (elim disjE exE conjE)
  assume "rf' = persist rf"
  then show ?thesis by (simp add: steady_def)
next
  assume "rf' = persist (ae_enter now args rf)" "currentTerm rf \<le> ae_Term args"
  then show ?thesis using assms(2) by (auto simp: steady_def)
next
  fix l
  assume "rf' = persist (commit_to (ae_LeaderCommit args) ((ae_enter now args rf)\<lparr>rlog := l\<rparr>))" "currentTerm rf \<le> ae_Term args"
  then show ?thesis using assms(2) by (auto simp: steady_def)
qed

lemma InstallSnapshot_steady:
  assumes "InstallSnapshot now args rf = Some (rf', r)" and "rstate rf = LeaderState \<Longrightarrow> is_Term args < currentTerm rf"
  shows "steady rf rf'"
  using assms by (auto simp: InstallSnapshot_closed steady_def Let_def split: if_splits)

text \<open>\<open>D\<close> is the cluster after the handler, as in \<open>handle_inv\<close>.\<close>

lemma handle_log:
  assumes inv: "log_inv C H" and p: "(i, g) \<in> set (running C) \<union> set (orphans C)" and h: "handle now i g C = Some (C', r)"
    and D: "D = C' \<or> (i, g) \<in> pending C \<and> D = answered i g r C'" and o: "\<not> demotes g C"
  shows "log_inv D H"
proof -
  note v = log_invD(1) [OF inv]
  have "set (running C) \<subseteq> pending C" by (auto simp: pending_def)
  then have i: "i \<in> servers C" using p inv_goodD(2) [OF v, of i g] by blast
  have vD: "vote_inv D" by (rule handle_inv [OF v i h D])
  note F = handle_frame [OF h]
  have s: "sent_ok C H i g" by (rule log_invD(4) [OF inv p])
  have frame: "nservers D = nservers C" "running D = running C" "orphans D = orphans C" "peers D = peers C'" "grants D = grants C'"
    using D F by (auto simp: answered_def)
  have pend: "pending D = pending C"
  proof -
    have "pending C' = pending C" using F by (simp add: pending_def)
    then show ?thesis using D by (elim disjE conjE) (simp_all add: insert_absorb)
  qed
  have change: "log_inv D H" if j: "j \<in> servers C" and C': "peers C' = (peers C)(j := rf)" and ch: "log_chain H rf"
    and st: "steady (peers C j) rf" and gr: "grants C \<subseteq> grants C'"
    and vt: "\<And>t w k. (t, w, k) \<in> grants C' \<Longrightarrow> (t, w, k) \<in> grants C \<or> k \<in> servers C \<and> t \<le> currentTerm (peers C' k)" for j rf
  proof (rule log_inv_change [OF inv vD j frame(1) _ map_le_refl])
    show "keeps_made C D j" using st pend by (auto simp: keeps_made_def steady_def frame C')
  qed (use ch gr vt pend in \<open>auto simp: frame C'\<close>)
  show ?thesis
  proof (cases g)
    case (SendRequestVote j t li lt)
    then obtain rf u where j: "j \<in> servers C" and rv: "RequestVote (sendRequestVote_args i t li lt) (peers C j) = Some (rf, u)"
      and C': "C' = (if rvr_VoteGranted u then grant t j i (put j rf C) else put j rf C)"
      using h by (auto simp: handle_def bind_Some_iff split: if_splits)
    note R = RequestVote_same [OF rv peer_props(2) [OF inv j]]
    have tm: "t \<le> currentTerm (peers C i)" using log_invD(5) [OF inv p, of t] SendRequestVote by (simp add: asks_def)
    show ?thesis
    proof (rule change [OF j])
      show "log_chain H rf" using log_invD(3) [OF inv j] same_log_chain [OF R(1)] by simp
      show "steady (peers C j) rf" using R(2) same_log_length [OF R(1)] by (auto simp: steady_def)
      show "(t', w, k) \<in> grants C \<or> k \<in> servers C \<and> t' \<le> currentTerm (peers C' k)" if "(t', w, k) \<in> grants C'" for t' w k
        using that i tm R(2) by (auto simp: C' split: if_splits)
    qed (auto simp: C')
  next
    case (SendEntries j t pi pt ci es)
    then obtain rf u where j: "j \<in> servers C" and ae: "AppendEntries now (sendEntries_args i t pi pt ci es) (peers C j) = Some (rf, u)"
      and C': "C' = put j rf C"
      using h by (auto simp: handle_def bind_Some_iff split: if_splits)
    have s': "j \<noteq> i" "led C t i" "chain H pi pt es" using s SendEntries by (simp_all add: sent_ok_def)
    show ?thesis
    proof (rule change [OF j])
      show "log_chain H rf"
        by (rule AppendEntries_chain [OF log_invD(3) [OF inv j] peer_props(3) [OF inv j] ae]) (simp add: sendEntries_args_def s'(3))
      show "steady (peers C j) rf"
        by (rule AppendEntries_steady [OF ae]) (use not_own_term [OF inv j _ s'(2,1)] in \<open>simp add: sendEntries_args_def\<close>)
    qed (auto simp: C')
  next
    case (SendInstallSnapshot j t si st data)
    then obtain rf u where j: "j \<in> servers C"
      and is_: "InstallSnapshot now (sendInstallSnapshot_args i t si st data) (peers C j) = Some (rf, u)" and C': "C' = put j rf C"
      using h by (auto simp: handle_def bind_Some_iff split: if_splits)
    have s': "j \<noteq> i" "led C t i" using s SendInstallSnapshot by (simp_all add: sent_ok_def)
    show ?thesis
    proof (rule change [OF j])
      show "log_chain H rf" by (rule InstallSnapshot_chain [OF log_invD(3) [OF inv j] peer_props(3) [OF inv j] is_])
      show "steady (peers C j) rf"
        by (rule InstallSnapshot_steady [OF is_])
           (use not_own_term [OF inv j _ s'(2,1)] o SendInstallSnapshot in \<open>simp add: sendInstallSnapshot_args_def\<close>)
    qed (auto simp: C')
  qed (use h in \<open>auto simp: handle_def\<close>)
qed

lemma reply_outcome_same:
  assumes "reply_outcome rf rf1"
  shows "same_log rf rf1" and "currentTerm rf < currentTerm rf1 \<or> currentTerm rf1 = currentTerm rf \<and> rstate rf1 = rstate rf"
proof -
  have "same_log rf rf1 \<and> (currentTerm rf < currentTerm rf1 \<or> currentTerm rf1 = currentTerm rf \<and> rstate rf1 = rstate rf)"
    using assms unfolding reply_outcome_def
    by (elim disjE exE conjE) (auto simp: same_log_def dest!: updateCommitIndex_shape)
  then show "same_log rf rf1" "currentTerm rf < currentTerm rf1 \<or> currentTerm rf1 = currentTerm rf \<and> rstate rf1 = rstate rf" by blast+
qed

lemma vote_reply_same:
  assumes "sendRequestVote_reply j t r rf = Some (rf', gs)" and "wf_raft rf"
  shows "same_log rf rf' \<and> set gs \<subseteq> {RunHeartbeatCycle} \<and> (currentTerm rf < currentTerm rf'
    \<or> currentTerm rf' = currentTerm rf \<and> rstate rf' = rstate rf
    \<or> currentTerm rf' = currentTerm rf \<and> t = currentTerm rf \<and> rstate rf \<noteq> LeaderState \<and> rstate rf' = LeaderState)"
proof -
  have b: "same_log rf rf2 \<and> rstate rf2 = LeaderState \<and> currentTerm rf2 = currentTerm rf"
    if "becomeLeader (rf\<lparr>votesReceived := vs\<rparr>) = Some rf2" for vs rf2
    using that by (auto simp: becomeLeader_def Let_def bind_Some_iff same_log_def)
  show ?thesis using assms(1) b unfolding sendRequestVote_reply_def Let_def
    by (auto simp: bind_Some_iff same_log_def split: if_splits)
qed

lemma continue_log:
  assumes inv: "log_inv C H" and p: "(i, g) \<in> pending C" and c: "continue i g res C = Some C'" and v': "vote_inv C'"
  shows "log_inv C' H"
proof -
  note v = log_invD(1) [OF inv]
  have i: "i \<in> servers C" using p inv_goodD(2) [OF v] by blast
  have out: "log_inv (put i (persist rf) C) H" if "C' = put i (persist rf) C" and o: "reply_outcome (peers C i) rf" for rf
  proof -
    have e: "spawn i [] C' = C'" using that(1) by (simp add: spawn_def put_def)
    show ?thesis using log_inv_same [OF inv _ i, of "[]" "persist rf"] v' reply_outcome_same [OF o] by (simp add: e that(1) [symmetric])
  qed
  show ?thesis
  proof (cases g)
    case (SendRequestVote j t li lt)
    show ?thesis
    proof (cases "C' = C")
      case False
      then obtain r rf gs where r: "sendRequestVote_reply j t r (peers C i) = Some (rf, gs)" and C': "C' = spawn i gs (put i rf C)"
        using c SendRequestVote by (auto simp: continue_def bind_Some_iff split: option.splits rpc_reply.splits)
      note S = vote_reply_same [OF r peer_props(2) [OF inv i]]
      have gs: "sent_ok C H i h \<and> (\<forall>t. \<not> asks t h)" if "h \<in> set gs" for h
        using S that by (auto simp: sent_ok_def asks_def)
      have a: "(i, g) \<in> pending C \<and> asks t g" using p SendRequestVote by (simp add: asks_def)
      show ?thesis
      proof (rule log_inv_change [OF inv v' i _ _ map_le_refl])
        show "log_chain H (peers C' i)" using log_invD(3) [OF inv i] same_log_chain [of "peers C i" rf H] S by (simp add: C')
        have "(i, h) \<in> pending C" if "(i, h) \<in> pending C'" "asks u h" for h u using that gs by (auto simp: C')
        then show "keeps_made C C' i" using S a same_log_length [of "peers C i" rf] by (auto simp: keeps_made_def C' Let_def)
        show "(k, h) \<in> set (running C) \<union> set (orphans C)
            \<or> k = i \<and> sent_ok C' H i h \<and> (\<forall>t. asks t h \<longrightarrow> t \<le> currentTerm (peers C' i))"
          if "(k, h) \<in> set (running C') \<union> set (orphans C')" for k h
          using that gs sent_ok_mono [of C H i h C' H] by (auto simp: C')
      qed (auto simp: C')
    qed (use inv in simp)
  qed (use c in \<open>auto simp: continue_def bind_Some_iff intro!: out
        dest!: sendEntries_reply_outcome sendInstallSnapshot_reply_outcome split: option.splits rpc_reply.splits\<close>)
qed

lemma continue_fewer_log:
  assumes inv: "log_inv C H" and f: "fewer D C" and p: "(i, g) \<in> pending C" and c: "continue i g res D = Some C'"
    and v: "\<And>r. res = Some (VoteReply r) \<Longrightarrow> rvr_VoteGranted r \<Longrightarrow> (i, g) \<in> granted C"
  shows "log_inv C' H"
proof -
  obtain E where E: "continue i g res C = Some E" and "fewer C' E" using continue_fewer [OF f c] by blast
  have "vote_inv E" by (rule continue_inv [OF log_invD(1) [OF inv] p E]) (rule v)
  then show ?thesis using log_inv_fewer [OF \<open>fewer C' E\<close> continue_log [OF inv p E]] by blast
qed

lemma handle_orphans:
  "handle now i g (C\<lparr>orphans := X\<rparr>) = map_option (apfst (\<lambda>E. E\<lparr>orphans := X\<rparr>)) (handle now i g C)"
  by (cases g) (auto simp: handle_def put_def grant_def servers_def split: bind_splits)

lemma network_log:
  assumes inv: "log_inv C H"
  shows "step (Deliver i g now) C = Some C' \<Longrightarrow> \<not> demotes g C \<Longrightarrow> log_inv C' H"
    and "step (DeliverOrphan i g now) C = Some C' \<Longrightarrow> \<not> demotes g C \<Longrightarrow> log_inv C' H"
    and "step (Lose i g) C = Some C' \<Longrightarrow> log_inv C' H"
    and "step (Reply i g r) C = Some C' \<Longrightarrow> log_inv C' H"
    and "step (LoseReply i g r) C = Some C' \<Longrightarrow> log_inv C' H"
proof -
  let ?D = "C\<lparr>orphans := remove1 (i, g) (orphans C)\<rparr>" and ?R = "C\<lparr>replies := remove1 (i, g, r) (replies C)\<rparr>"
  show "log_inv C' H" if s: "step (Deliver i g now) C = Some C'" and d: "\<not> demotes g C"
  proof -
    obtain C'' v where p: "(i, g) \<in> set (running C)" and h: "handle now i g C = Some (C'', v)"
      and C': "C' = answered i g v (finish i g C'')"
      using s by (auto simp: bind_Some_iff handle_finish answered_def split: if_splits)
    have "fewer C' (answered i g v C'')" by (simp add: fewer_def C' answered_def set_remove1_subset)
    then show ?thesis using handle_log [OF inv _ h _ d] p pending_running [OF p] log_inv_fewer by blast
  qed
  show "log_inv C' H" if s: "step (DeliverOrphan i g now) C = Some C'" and d: "\<not> demotes g C"
  proof -
    obtain v where p: "(i, g) \<in> set (orphans C)" and h: "handle now i g ?D = Some (C', v)"
      using s by (auto simp: bind_Some_iff split: if_splits)
    obtain E where E: "handle now i g C = Some (E, v)" and C': "C' = E\<lparr>orphans := remove1 (i, g) (orphans C)\<rparr>"
      using h by (auto simp: handle_orphans)
    have "fewer C' E" using handle_frame(4) [OF E] by (simp add: C' fewer_def set_remove1_subset)
    then show ?thesis using handle_log [OF inv _ E _ d] p log_inv_fewer by blast
  qed
  show "log_inv C' H" if "step (Lose i g) C = Some C'"
    by (rule continue_fewer_log [OF inv fewer_finish pending_running, of i g None]) (use that in \<open>auto split: if_splits\<close>)
  show "log_inv C' H" if "step (LoseReply i g r) C = Some C'"
    by (rule continue_fewer_log [OF inv fewer_reply pending_reply, of i g r None "(i, g, r)"]) (use that in \<open>auto split: if_splits\<close>)
  assume "step (Reply i g r) C = Some C'"
  then have p: "(i, g, r) \<in> set (replies C)" and c: "continue i g (Some r) ?R = Some C'" by (auto split: if_splits)
  show "log_inv C' H"
    by (rule continue_fewer_log [OF inv fewer_reply pending_reply [OF p] c]) (use p in \<open>auto simp: granted_def\<close>)
qed

section \<open>Log matching\<close>

text \<open>The clusters reached by orderly runs.\<close>

inductive orderly_reachable :: "nat \<Rightarrow> 'c cluster \<Rightarrow> bool" for n where
  start: "orderly_reachable n (initial n)"
| step: "orderly_reachable n C \<Longrightarrow> orderly e C \<Longrightarrow> step e C = Some C' \<Longrightarrow> orderly_reachable n C'"

lemma log_inv_step: "log_inv C H \<Longrightarrow> orderly e C \<Longrightarrow> step e C = Some C' \<Longrightarrow> \<exists>H'. log_inv C' H'"
  by (cases e) (force intro: tick_log elect_log heartbeat_log propose_log local_log network_log restart_log)+

lemma initial_log: "odd n \<Longrightarrow> log_inv (initial n) Map.empty"
  using initial_inv unfolding log_inv_def
  by (auto simp: inv_logs_def inv_sent_def inv_ballot_def inv_made_def initial_def log_chain_def Make_def readPersist_def
      MakePersister_def)

lemma orderly_log_inv: "orderly_reachable n C \<Longrightarrow> odd n \<Longrightarrow> \<exists>H. log_inv C H"
  by (induction rule: orderly_reachable.induct) (blast intro: initial_log dest: log_inv_step)+

text \<open>The entry a peer's log has at an absolute index after its snapshot.\<close>

definition entry_at :: "'c Raft \<Rightarrow> int \<Rightarrow> 'c LogEntry option" where
  "entry_at rf k = (if snapshotLastIndex rf < k then go_nth (rlog rf) (absoluteIndexToLogIndex rf k) else None)"

lemma entry_at_drop:
  assumes "snapshotLastIndex rf \<le> b" and "rlog rf \<noteq> []" and "b < k"
  shows "entry_at rf k = (let l = drop (Suc (nat (b - snapshotLastIndex rf))) (rlog rf); m = nat (k - b - 1)
    in if m < length l then Some (l ! m) else None)"
proof -
  have "Suc (nat (b - snapshotLastIndex rf)) + nat (k - b - 1) = nat (k - snapshotLastIndex rf)" using assms by linarith
  then show ?thesis using assms
    by (auto simp: entry_at_def go_nth_def absoluteIndexToLogIndex_def go_len_def Let_def nat_less_iff)
qed

lemma logs_match:
  assumes H: "log_chain H rf" "log_chain H rf'" and ne: "rlog rf \<noteq> []" "rlog rf' \<noteq> []"
    and e: "entry_at rf k = Some x" "entry_at rf' k = Some x'" "Term x = Term x'"
    and m: "snapshotLastIndex rf < m" "snapshotLastIndex rf' < m" "m \<le> k"
  shows "entry_at rf m = entry_at rf' m \<and> entry_at rf m \<noteq> None"
proof -
  define b where "b = max (snapshotLastIndex rf) (snapshotLastIndex rf')"
  let ?l = "\<lambda>rf. drop (Suc (nat (b - snapshotLastIndex rf))) (rlog rf)"
  let ?k = "nat (k - b - 1)" and ?m = "nat (m - b - 1)"
  have b: "snapshotLastIndex rf \<le> b" "snapshotLastIndex rf' \<le> b" "b < m" "b < k" using m by (auto simp: b_def)
  have c: "?k < length (?l rf)" "x = ?l rf ! ?k" "?k < length (?l rf')" "x' = ?l rf' ! ?k"
    using e(1,2) entry_at_drop [OF b(1) ne(1) b(4)] entry_at_drop [OF b(2) ne(2) b(4)] by (auto simp: Let_def split: if_splits)
  have ch: "chain H b (Term (rlog rf ! nat (b - snapshotLastIndex rf))) (?l rf)"
    "chain H b (Term (rlog rf' ! nat (b - snapshotLastIndex rf'))) (?l rf')"
    using log_chain_from [OF H(1) ne(1), of "nat (b - snapshotLastIndex rf)"] b(1,2) c(1,3)
      log_chain_from [OF H(2) ne(2), of "nat (b - snapshotLastIndex rf')"] by auto
  have t: "take (Suc ?k) (?l rf) = take (Suc ?k) (?l rf')"
    using chain_unique [OF ch c(1,3)] e(3) c(2,4) by blast
  have "?m \<le> ?k" using m(3) b by simp
  then have "?l rf ! ?m = ?l rf' ! ?m" using arg_cong [OF t, of "\<lambda>l. l ! ?m"] by simp
  moreover have "?m < length (?l rf)" "?m < length (?l rf')" using \<open>?m \<le> ?k\<close> c(1,3) by linarith+
  ultimately show ?thesis using entry_at_drop [OF b(1) ne(1) b(3)] entry_at_drop [OF b(2) ne(2) b(3)] by (simp add: Let_def)
qed

text \<open>C4. Log matching. In a cluster with an odd number of servers, in every run in which no leader is handed a
  later term's snapshot: if the logs of two servers have an entry of the same index and term, then they have the
  same entry at every index up to there that neither has compacted.\<close>

theorem log_matching:
  assumes "orderly_reachable n C" and "odd n" and "i \<in> servers C" and "j \<in> servers C"
    and "entry_at (peers C i) k = Some x" and "entry_at (peers C j) k = Some y" and "Term x = Term y"
    and "snapshotLastIndex (peers C i) < m" and "snapshotLastIndex (peers C j) < m" and "m \<le> k"
  shows "entry_at (peers C i) m = entry_at (peers C j) m \<and> entry_at (peers C i) m \<noteq> None"
proof -
  obtain H where H: "log_inv C H" using orderly_log_inv [OF assms(1,2)] by blast
  show ?thesis
    by (rule logs_match [OF log_invD(3) [OF H assms(3)] log_invD(3) [OF H assms(4)]
        peer_props(3) [OF H assms(3)] peer_props(3) [OF H assms(4)] assms(5-10)])
qed

text \<open>An orderly run, and the cluster it reaches.\<close>

fun orderly_run :: "'c event list \<Rightarrow> 'c cluster \<Rightarrow> 'c cluster option" where
  "orderly_run [] C = Some C"
| "orderly_run (e # es) C = (if orderly e C then case step e C of Some C' \<Rightarrow> orderly_run es C' | None \<Rightarrow> None else None)"

lemma orderly_run_reachable: "orderly_run es C = Some C' \<Longrightarrow> orderly_reachable n C \<Longrightarrow> orderly_reachable n C'"
  by (induction es C rule: orderly_run.induct) (auto split: if_splits option.splits intro: orderly_reachable.step)

lemma after_orderly: "after P (orderly_run es (initial n)) \<Longrightarrow> \<exists>C. orderly_reachable n C \<and> P C"
  by (cases "orderly_run es (initial n)") (auto intro: orderly_run_reachable orderly_reachable.start)

text \<open>The voters \<open>vs\<close>, each in the term it has so far, elect server \<open>i\<close> in term \<open>t\<close>; an entry of the run.\<close>

definition win :: "int \<Rightarrow> int \<Rightarrow> (int \<times> int) list \<Rightarrow> nat event list" where
  "win i t vs = concat (map (\<lambda>(j, u). [Deliver i (SendRequestVote j t 0 0) 0,
     Reply i (SendRequestVote j t 0 0) (VoteReply \<lparr>rvr_Term = u, rvr_VoteGranted = True\<rparr>)]) vs)"

definition ent :: "int \<Rightarrow> nat \<Rightarrow> nat LogEntry" where
  "ent t c = \<lparr>Term = t, Command = Some c\<rparr>"

theorem log_matching_witness:
  "\<exists>C :: nat cluster. orderly_reachable 3 C \<and> entry_at (peers C 0) 2 = Some (ent 1 11)
    \<and> entry_at (peers C 1) 2 = Some (ent 1 11) \<and> entry_at (peers C 0) 1 = entry_at (peers C 1) 1"
proof -
  have "\<exists>C :: nat cluster. orderly_reachable 3 C \<and> entry_at (peers C 0) 2 = Some (ent 1 11)
    \<and> entry_at (peers C 1) 2 = Some (ent 1 11) \<and> 0 \<in> servers C \<and> 1 \<in> servers C
    \<and> snapshotLastIndex (peers C 0) = 0 \<and> snapshotLastIndex (peers C 1) = 0"
    by (rule after_orderly [where es = "campaign 0 1 @ [Propose 0 0 10, Propose 0 0 11,
          Deliver 0 (SendEntries 1 1 0 0 0 [ent 1 10, ent 1 11]) 0]"]) code_simp
  then obtain C :: "nat cluster" where C: "orderly_reachable 3 C" "entry_at (peers C 0) 2 = Some (ent 1 11)"
    "entry_at (peers C 1) 2 = Some (ent 1 11)" "0 \<in> servers C" "1 \<in> servers C"
    "snapshotLastIndex (peers C 0) = 0" "snapshotLastIndex (peers C 1) = 0" by blast
  show ?thesis using log_matching [OF C(1) _ C(4,5,2,3), of 1] C by auto
qed

text \<open>Without that restriction log matching fails. Server 0 leads term 1 and replicates two commands to server 4
  only; server 1 wins term 2, commits one command and compacts it, and its snapshot reaches server 0. As
  \<^verbatim>\<open>InstallSnapshot\<close> neither takes the later term nor steps down, server 0 goes on as the leader of term 1 and
  puts a new command at an index of that term it had used before.\<close>

definition split_term :: "nat event list" where
  "split_term = (let ok = EntriesReply \<lparr>aer_Term = 2, aer_Success = True, aer_FailedTerm = 0, aer_FailedFirstIndex = 0\<rparr> in
    [Tick 0 10000, Elect 0] @ win 0 1 [(3, 0), (4, 0)] @ [Propose 0 0 10, Propose 0 0 11,
      Deliver 0 (SendEntries 4 1 0 0 0 [ent 1 10, ent 1 11]) 0] @
    [Tick 1 10000, Elect 1, Tick 1 20000, Elect 1] @ win 1 2 [(2, 0), (3, 1)] @ [Propose 1 0 20,
      Deliver 1 (SendEntries 2 2 0 0 0 [ent 2 20]) 0, Deliver 1 (SendEntries 3 2 0 0 0 [ent 2 20]) 0,
      Reply 1 (SendEntries 2 2 0 0 0 [ent 2 20]) ok, Reply 1 (SendEntries 3 2 0 0 0 [ent 2 20]) ok,
      Apply 1, TakeSnapshot 1 1 [1], Heartbeat 1 0] @
    [Deliver 1 (SendInstallSnapshot 0 2 1 2 [1]) 0, Propose 0 0 12])"

text \<open>C16. In a cluster of five servers two different commands can stand at the same index with the same term: a
  leader that installs the snapshot of a later term's leader keeps leading its own term on the replaced log.\<close>

theorem log_matching_violated:
  "\<exists>C :: nat cluster. reachable 5 C \<and> leads C 0 1
    \<and> entry_at (peers C 0) 2 = Some (ent 1 12) \<and> entry_at (peers C 4) 2 = Some (ent 1 11)"
  by (rule after_reachable [where es = split_term]) code_simp

end
