(* ===== verification/Raft_Tree.thy ===== *)
theory Raft_Tree
  imports Raft_Log
begin

text \<open>
  The entries ever created form a tree: the history gives for an index and a term the term of the entry before
  it. Together with the elections won, in their order, and the acknowledgements given, it carries the proof
  that a later leader has every chosen entry. The invariants of this theory speak of these histories alone.
\<close>

section \<open>Ancestors\<close>

type_synonym node = "int \<times> int"

inductive anc :: "'c history \<Rightarrow> node \<Rightarrow> node \<Rightarrow> bool" for H x where
  refl: "anc H x x"
| step: "H (i, t) = Some (c, u) \<Longrightarrow> anc H x (i - 1, u) \<Longrightarrow> anc H x (i, t)"

lemmas anc.refl [simp, intro]

inductive_cases anc_elim: "anc H x (i, t)"

lemma anc_le: "anc H x y \<Longrightarrow> fst x \<le> fst y"
  by (induction rule: anc.induct) auto

lemma anc_eq: "anc H x y \<Longrightarrow> fst y \<le> fst x \<Longrightarrow> x = y"
  by (induction rule: anc.induct) (auto dest: anc_le)

lemma anc_trans: "anc H y z \<Longrightarrow> anc H x y \<Longrightarrow> anc H x z"
  by (induction rule: anc.induct) (auto intro: anc.step)

lemma anc_linear: "anc H y z \<Longrightarrow> anc H x z \<Longrightarrow> fst x \<le> fst y \<Longrightarrow> anc H x y"
proof (induction rule: anc.induct)
  case (step i t c u)
  have "fst y \<le> i - 1" using anc_le [OF step.hyps(2)] by simp
  then show ?case using step by (auto elim: anc_elim)
qed

lemma anc_same: "anc H x z \<Longrightarrow> anc H y z \<Longrightarrow> fst x = fst y \<Longrightarrow> x = y"
  using anc_eq [OF anc_linear [of H y z x]] by simp

lemma anc_mono: "anc H x y \<Longrightarrow> H \<subseteq>\<^sub>m H' \<Longrightarrow> anc H' x y"
proof (induction rule: anc.induct)
  case (step i t c u)
  have "H' (i, t) = Some (c, u)" using step.hyps(1) step.prems by (force simp: map_le_def)
  then show ?case using step by (auto intro: anc.step)
qed auto

lemma chain_end: "chain H i t es \<Longrightarrow> anc H (i, t) (i + int (length es), end_term t es)"
proof (induction es arbitrary: i t)
  case (Cons e es)
  have "anc H (i, t) (i + 1, Term e)" using Cons.prems by (auto intro: anc.step)
  then show ?case using Cons.IH [of "i + 1" "Term e"] Cons.prems anc_trans by (auto simp: add.assoc)
qed simp

lemma chain_nth:
  assumes "chain H i t es" and "k \<le> length es"
  shows "anc H (i + int k, end_term t (take k es)) (i + int (length es), end_term t es)"
proof -
  have "end_term (end_term t (take k es)) (drop k es) = end_term t es"
    by (cases "k < length es") (auto simp: end_term_def)
  then show ?thesis using chain_end [OF chain_drop [OF assms]] assms(2) by (simp add: of_nat_diff)
qed

section \<open>The histories\<close>

text \<open>The entries with their predecessors; the end of the log a candidate stood with in a term; the elections
  won, the last one first, as term, winner, voters and end of the log; and the acknowledged entries of the
  leader's own term.\<close>

type_synonym win = "int \<times> int \<times> int set \<times> node"

record 'c ghost =
  hist :: "'c history"
  elogs :: "int \<times> int \<rightharpoonup> node"
  wins :: "win list"
  acks :: "(int \<times> node) set"

definition nodes :: "'c history \<Rightarrow> node set" where
  "nodes H = insert (0, 0) (dom H)"

definition terms :: "win list \<Rightarrow> int set" where
  "terms ws = fst ` set ws"

text \<open>Some later leader stood without the entry. The end of a log is as good as an entry.\<close>

definition lacks :: "'c history \<Rightarrow> win list \<Rightarrow> node \<Rightarrow> bool" where
  "lacks H ws x \<longleftrightarrow> (\<exists>u p Q e. (u, p, Q, e) \<in> set ws \<and> snd x < u \<and> \<not> anc H x e)"

definition as_good :: "node \<Rightarrow> node \<Rightarrow> bool" where
  "as_good e x \<longleftrightarrow> snd x < snd e \<or> snd x = snd e \<and> fst x \<le> fst e"

text \<open>What the winner of an election and its voters had.\<close>

fun wins_ok :: "nat \<Rightarrow> 'c history \<Rightarrow> (int \<times> node) set \<Rightarrow> win list \<Rightarrow> bool" where
  "wins_ok n H A [] \<longleftrightarrow> True"
| "wins_ok n H A ((V, p, Q, e) # ws) \<longleftrightarrow> V \<notin> terms ws \<and> 0 < V \<and> snd e < V \<and> quorum n Q
     \<and> (e = (0, 0) \<or> e \<in> dom H \<and> snd e \<in> terms ws)
     \<and> (\<forall>j \<in> Q. \<forall>x. (j, x) \<in> A \<longrightarrow> snd x < V \<longrightarrow> as_good e x \<or> lacks H ws x) \<and> wins_ok n H A ws"

definition tree :: "nat \<Rightarrow> 'c ghost \<Rightarrow> bool" where
  "tree n G \<longleftrightarrow> odd n \<and> wins_ok n (hist G) (acks G) (wins G)
     \<and> (\<forall>i t c u. hist G (i, t) = Some (c, u) \<longrightarrow> 0 < i
          \<and> (u = t \<and> (i - 1, t) \<in> dom (hist G) \<or> (\<exists>p Q. (t, p, Q, i - 1, u) \<in> set (wins G))))"

text \<open>An entry acknowledged by a quorum; an entry at or below one chosen in a term up to \<open>T\<close>.\<close>

definition chosen :: "nat \<Rightarrow> 'c ghost \<Rightarrow> node \<Rightarrow> bool" where
  "chosen n G x \<longleftrightarrow> x \<in> dom (hist G) \<and> (\<exists>Q. quorum n Q \<and> (\<forall>j \<in> Q. (j, x) \<in> acks G))"

definition sure :: "nat \<Rightarrow> 'c ghost \<Rightarrow> int \<Rightarrow> node \<Rightarrow> bool" where
  "sure n G T x \<longleftrightarrow> x = (0, 0) \<or> (\<exists>y. chosen n G y \<and> snd y \<le> T \<and> anc (hist G) x y)"

text \<open>The ends of the log a leader of term \<open>t\<close> had, who stood with \<open>e\<close>.\<close>

definition on_line :: "'c ghost \<Rightarrow> int \<Rightarrow> node \<Rightarrow> node \<Rightarrow> bool" where
  "on_line G t e m \<longleftrightarrow> m = e \<or> m \<in> dom (hist G) \<and> snd m = t"

section \<open>The tree\<close>

lemma anc_up: "hist G (i, t) = Some (c, u) \<Longrightarrow> anc (hist G) x (i - 1, u) \<Longrightarrow> anc (hist G) x (i, t)"
  by (rule anc.step)

lemma in_terms: "(V, p, Q, e) \<in> set ws \<Longrightarrow> V \<in> terms ws"
  unfolding terms_def by force

lemma wins_okD:
  "wins_ok n H A ws \<Longrightarrow> (V, p, Q, e) \<in> set ws \<Longrightarrow> 0 < V \<and> snd e < V \<and> quorum n Q \<and> (e = (0, 0) \<or> e \<in> dom H \<and> snd e \<in> terms ws)"
  by (induction n H A ws rule: wins_ok.induct) (auto simp: terms_def)

lemma wins_unique: "wins_ok n H A ws \<Longrightarrow> (V, p, Q, e) \<in> set ws \<Longrightarrow> (V, p', Q', e') \<in> set ws \<Longrightarrow> p = p' \<and> Q = Q' \<and> e = e'"
  by (induction n H A ws rule: wins_ok.induct) (auto dest: in_terms)

lemma treeD:
  assumes "tree n G"
  shows "odd n" "wins_ok n (hist G) (acks G) (wins G)"
    "hist G (i, t) = Some (c, u) \<Longrightarrow> 0 < i \<and> (u = t \<and> (i - 1, t) \<in> dom (hist G) \<or> (\<exists>p Q. (t, p, Q, i - 1, u) \<in> set (wins G)))"
  using assms unfolding tree_def by blast+

lemma win_node: "tree n G \<Longrightarrow> (V, p, Q, e) \<in> set (wins G) \<Longrightarrow> e \<in> nodes (hist G)"
  using wins_okD [OF treeD(2), of n G V p Q e] unfolding nodes_def by blast

lemma parent_node:
  assumes "tree n G" and "hist G (i, t) = Some (c, u)"
  shows "0 < i" "(i - 1, u) \<in> nodes (hist G)" "u \<le> t"
proof -
  note T = treeD(3) [OF assms]
  show "0 < i" using T by blast
  have "(i - 1, u) \<in> nodes (hist G) \<and> u \<le> t"
    if "(t, p, Q, i - 1, u) \<in> set (wins G)" for p Q
    using win_node [OF assms(1) that] wins_okD [OF treeD(2) [OF assms(1)] that] by simp
  then show "(i - 1, u) \<in> nodes (hist G)" "u \<le> t" using T unfolding nodes_def by blast+
qed

lemma node_nonneg: "tree n G \<Longrightarrow> x \<in> nodes (hist G) \<Longrightarrow> 0 \<le> fst x"
  using parent_node(1) [of n G "fst x" "snd x"] by (cases x) (auto simp: nodes_def intro: less_imp_le)

lemma anc_node:
  assumes "tree n G"
  shows "anc (hist G) x y \<Longrightarrow> y \<in> nodes (hist G) \<Longrightarrow> x \<in> nodes (hist G) \<and> snd x \<le> snd y"
proof (induction rule: anc.induct)
  case (step i t c u)
  then show ?case using parent_node(2,3) [OF assms step.hyps(1)] by force
qed simp

lemma root:
  assumes "tree n G"
  shows "y \<in> nodes (hist G) \<Longrightarrow> anc (hist G) (0, 0) y"
proof (induction "nat (fst y)" arbitrary: y)
  case 0
  then show ?case using node_nonneg [OF assms 0(2)] parent_node(1) [OF assms] by (cases y) (auto simp: nodes_def)
next
  case (Suc k)
  obtain i t where y: "y = (i, t)" by fastforce
  obtain c u where h: "hist G (i, t) = Some (c, u)" using Suc y by (auto simp: nodes_def)
  have "anc (hist G) (0, 0) (i - 1, u)" by (rule Suc(1)) (use Suc(2) y parent_node [OF assms h] in auto)
  then show ?case unfolding y by (rule anc_up [OF h])
qed

lemma anc_back:
  assumes "tree n G" and "hist G \<subseteq>\<^sub>m H'" and "H' (0, 0) = None"
  shows "anc H' x y \<Longrightarrow> y \<in> nodes (hist G) \<Longrightarrow> anc (hist G) x y"
proof (induction rule: anc.induct)
  case (step i t c u)
  have d: "(i, t) \<in> dom (hist G)" using step.prems step.hyps(1) assms(3) by (auto simp: nodes_def)
  then have "hist G (i, t) = H' (i, t)" using assms(2) by (simp add: map_le_def)
  then have h: "hist G (i, t) = Some (c, u)" using step.hyps(1) by simp
  show ?case by (rule anc_up [OF h]) (use step.IH parent_node(2) [OF assms(1) h] in blast)
qed auto

text \<open>The entries of one term are on one line, above the end of the log their leader stood with.\<close>

lemma win_below:
  assumes "tree n G"
  shows "(i, t) \<in> dom (hist G) \<Longrightarrow> \<exists>p Q e. (t, p, Q, e) \<in> set (wins G) \<and> anc (hist G) e (i, t) \<and> fst e < i"
proof (induction "nat i" arbitrary: i rule: less_induct)
  case less
  then obtain c u where h: "hist G (i, t) = Some (c, u)" by auto
  note P = parent_node(1) [OF assms h]
  show ?case
  proof (cases "u = t \<and> (i - 1, t) \<in> dom (hist G)")
    case True
    then obtain p Q e where w: "(t, p, Q, e) \<in> set (wins G)" "anc (hist G) e (i - 1, t)" "fst e < i - 1"
      using less(1) [of "i - 1"] P by auto
    have "anc (hist G) e (i, t)" by (rule anc_up [OF h]) (use w(2) True in simp)
    moreover have "fst e < i" using w(3) by simp
    ultimately show ?thesis using w(1) by blast
  next
    case False
    then obtain p Q where "(t, p, Q, i - 1, u) \<in> set (wins G)" using treeD(3) [OF assms h] by blast
    moreover have "anc (hist G) (i - 1, u) (i, t)" by (rule anc_up [OF h anc.refl])
    ultimately show ?thesis by force
  qed
qed

lemma own_line:
  assumes "tree n G" and "(i, t) \<in> dom (hist G)"
  shows "(k, t) \<in> dom (hist G) \<Longrightarrow> i \<le> k \<Longrightarrow> anc (hist G) (i, t) (k, t)"
proof (induction "nat (k - i)" arbitrary: k)
  case 0
  then show ?case by auto
next
  case (Suc d)
  then obtain c u where h: "hist G (k, t) = Some (c, u)" by auto
  have "u = t \<and> (k - 1, t) \<in> dom (hist G)"
  proof (rule ccontr)
    assume "\<not> ?thesis"
    then obtain p Q where w: "(t, p, Q, k - 1, u) \<in> set (wins G)" using treeD(3) [OF assms(1) h] by blast
    obtain p' Q' e where w': "(t, p', Q', e) \<in> set (wins G)" "fst e < i" using win_below [OF assms] by blast
    have "e = (k - 1, u)" using wins_unique [OF treeD(2) [OF assms(1)] w w'(1)] by simp
    then show False using Suc(2) w'(2) by simp
  qed
  then show ?case using Suc anc_up [OF h] by auto
qed

lemma win_line:
  assumes "tree n G" and "(t, p, Q, e) \<in> set (wins G)" and "x \<in> dom (hist G)" and "snd x = t"
  shows "anc (hist G) e x"
proof -
  obtain p' Q' e' where w: "(t, p', Q', e') \<in> set (wins G)" "anc (hist G) e' x"
    using win_below [OF assms(1), of "fst x" t] assms(3) unfolding assms(4) [symmetric] prod.collapse by blast
  have "e = e'" using wins_unique [OF treeD(2) [OF assms(1)] assms(2) w(1)] by simp
  then show ?thesis using w(2) by simp
qed

lemma line_cmp:
  assumes "tree n G" and "(t, p, Q, e) \<in> set (wins G)" and "on_line G t e m" and "on_line G t e m'"
  shows "anc (hist G) m m' \<or> anc (hist G) m' m"
proof -
  have e: "anc (hist G) e x" if "x \<in> dom (hist G)" "snd x = t" for x by (rule win_line [OF assms(1,2) that])
  have "anc (hist G) x y \<or> anc (hist G) y x" if "x \<in> dom (hist G)" "snd x = t" "y \<in> dom (hist G)" "snd y = t" for x y
    using own_line [OF assms(1), of "fst x" t "fst y"] own_line [OF assms(1), of "fst y" t "fst x"] that
    by (metis linorder_linear prod.collapse)
  then show ?thesis using assms(3,4) e unfolding on_line_def by blast
qed

lemma line_above: "tree n G \<Longrightarrow> (t, p, Q, e) \<in> set (wins G) \<Longrightarrow> on_line G t e m \<Longrightarrow> anc (hist G) e m"
  using win_line unfolding on_line_def by blast

section \<open>Leader completeness\<close>

lemma wins_complete:
  assumes T: "tree n G" and x: "chosen n G x"
  shows "wins_ok n (hist G) (acks G) ws \<Longrightarrow> set ws \<subseteq> set (wins G) \<Longrightarrow> (V, p, Q, e) \<in> set ws \<Longrightarrow> snd x < V \<Longrightarrow>
    anc (hist G) x e"
proof (induction ws arbitrary: V p Q e)
  case (Cons w ws)
  obtain U q P f where w: "w = (U, q, P, f)" by (cases w) auto
  have IH: "(V, p, Q, e) \<in> set ws \<Longrightarrow> snd x < V \<Longrightarrow> anc (hist G) x e" for V p Q e
    using Cons.IH Cons.prems(1,2) w by simp
  show ?case
  proof (cases "(V, p, Q, e) \<in> set ws")
    case False
    then have e: "V = U" "e = f" "Q = P" using Cons.prems(3) w by auto
    have W: "quorum n P" "e = (0, 0) \<or> e \<in> dom (hist G) \<and> snd e \<in> terms ws"
      "\<And>j x. j \<in> P \<Longrightarrow> (j, x) \<in> acks G \<Longrightarrow> snd x < V \<Longrightarrow> as_good e x \<or> lacks (hist G) ws x"
      using Cons.prems(1) unfolding w e wins_ok.simps by blast+
    obtain R where R: "quorum n R" "\<forall>j \<in> R. (j, x) \<in> acks G" and d: "x \<in> dom (hist G)"
      using x unfolding chosen_def by blast
    obtain j where j: "j \<in> P" "j \<in> R" using quorum_meet [OF treeD(1) [OF T] W(1) R(1)] by blast
    have "\<not> lacks (hist G) ws x" using IH unfolding lacks_def by blast
    then have good: "as_good e x" using W(3) [OF j(1)] R(2) j(2) Cons.prems(4) by blast
    obtain k t where xk: "x = (k, t)" by fastforce
    obtain i s where ei: "e = (i, s)" by fastforce
    have s: "e \<in> dom (hist G) \<and> s \<in> terms ws"
    proof -
      have "0 < t" using win_below [OF T, of k t] d xk wins_okD [OF treeD(2) [OF T]] by blast
      then show ?thesis using good W(2) xk ei by (auto simp: as_good_def)
    qed
    show ?thesis
    proof (cases "s = t")
      case True
      then show ?thesis using own_line [OF T, of k t i] d s good by (simp add: xk ei as_good_def)
    next
      case False
      then have lt: "snd x < s" using good by (auto simp: as_good_def xk ei)
      obtain p' Q' e' where w': "(s, p', Q', e') \<in> set ws" using s by (auto simp: terms_def)
      have "anc (hist G) e' e"
        using line_above [OF T, of s p' Q' e' e] w' Cons.prems(2) s by (auto simp: on_line_def ei)
      then show ?thesis using anc_trans IH [OF w' lt] by blast
    qed
  qed (use IH Cons.prems(4) in blast)
qed simp

lemma leader_complete:
  assumes "tree n G" and "chosen n G x" and "(V, p, Q, e) \<in> set (wins G)" and "snd x < V"
  shows "anc (hist G) x e"
  using wins_complete [OF assms(1,2) treeD(2) [OF assms(1)] subset_refl assms(3,4)] .

text \<open>Chosen entries, and with them all sure ones, are on one line.\<close>

lemma chosen_cmp:
  assumes T: "tree n G" and x: "chosen n G x" and y: "chosen n G y" and le: "snd x \<le> snd y"
  shows "anc (hist G) x y \<or> anc (hist G) y x"
proof -
  obtain k t i s where e: "x = (k, t)" "y = (i, s)" by fastforce
  have d: "(k, t) \<in> dom (hist G)" "(i, s) \<in> dom (hist G)" using x y by (auto simp: chosen_def e)
  obtain p Q f where w: "(s, p, Q, f) \<in> set (wins G)" "anc (hist G) f (i, s)" using win_below [OF T d(2)] by blast
  show ?thesis
  proof (cases "s = t")
    case True
    then show ?thesis using line_cmp [OF T w(1), of x y] d by (simp add: on_line_def e)
  next
    case False
    then have "anc (hist G) x f" using leader_complete [OF T x w(1)] le e by simp
    then show ?thesis using anc_trans [OF w(2)] e by simp
  qed
qed

lemma sure_node: "tree n G \<Longrightarrow> sure n G T x \<Longrightarrow> x \<in> nodes (hist G)"
  using anc_node unfolding sure_def chosen_def nodes_def by (metis insertCI)

lemma sure_linear:
  assumes T: "tree n G" and x: "sure n G S x" and y: "sure n G S' y" and le: "fst x \<le> fst y"
  shows "anc (hist G) x y"
proof (cases "x = (0, 0) \<or> y = (0, 0)")
  case True
  have "x = (0, 0)" if "y = (0, 0)"
    using that le sure_node [OF T x] parent_node(1) [OF T, of "fst x" "snd x"] by (cases x) (auto simp: nodes_def)
  then show ?thesis using True root [OF T sure_node [OF T y]] by blast
next
  case False
  then obtain a b where a: "chosen n G a" "anc (hist G) x a" and b: "chosen n G b" "anc (hist G) y b"
    using x y unfolding sure_def by blast
  have "anc (hist G) a b \<or> anc (hist G) b a"
    using chosen_cmp [OF T a(1) b(1)] chosen_cmp [OF T b(1) a(1)] by (meson linorder_linear)
  then show ?thesis using a(2) b(2) anc_trans anc_linear le by metis
qed

lemma sure_unique: "tree n G \<Longrightarrow> sure n G S x \<Longrightarrow> sure n G S' y \<Longrightarrow> fst x = fst y \<Longrightarrow> x = y"
  using anc_eq [OF sure_linear [of n G S x S' y]] by simp

lemma anc_root: "tree n G \<Longrightarrow> anc (hist G) x (0, 0) \<Longrightarrow> x = (0, 0)"
  by (erule anc_elim) (auto dest: parent_node(1))

lemma sure_anc:
  assumes "sure n G T y" and "anc (hist G) x y" and "tree n G"
  shows "sure n G T x"
proof (cases "y = (0, 0)")
  case True
  then show ?thesis using anc_root [OF assms(3)] assms(2) by (simp add: sure_def)
next
  case False
  then obtain z where "chosen n G z" "snd z \<le> T" "anc (hist G) y z" using assms(1) unfolding sure_def by blast
  then show ?thesis using anc_trans assms(2) unfolding sure_def by blast
qed

lemma sure_term: "sure n G T x \<Longrightarrow> T \<le> T' \<Longrightarrow> sure n G T' x"
  unfolding sure_def by force

section \<open>Logs, messages and snapshots\<close>

text \<open>A message of the leader of a term agrees with what was sure in that term; with an acknowledged entry it
  agrees unless some later leader lacks the entry.\<close>

lemma line_sure:
  assumes T: "tree n G" and w: "(V, p, Q, e) \<in> set (wins G)" and m: "on_line G V e m" and x: "sure n G V x"
  shows "anc (hist G) x m \<or> anc (hist G) m x"
proof (cases "x = (0, 0)")
  case True
  have "m \<in> nodes (hist G)" using m win_node [OF T w] by (auto simp: on_line_def nodes_def)
  then show ?thesis using root [OF T] True by blast
next
  case False
  then obtain y where y: "chosen n G y" "snd y \<le> V" "anc (hist G) x y" using x unfolding sure_def by blast
  show ?thesis
  proof (cases "snd y = V")
    case True
    then have "on_line G V e y" using y(1) by (simp add: on_line_def chosen_def)
    then have "anc (hist G) y m \<or> anc (hist G) m y" using line_cmp [OF T w _ m] by blast
    then show ?thesis using y(3) anc_trans anc_linear by (metis linorder_linear)
  next
    case False
    then have "anc (hist G) y e" using leader_complete [OF T y(1) w] y(2) by simp
    then show ?thesis using line_above [OF T w m] y(3) anc_trans by metis
  qed
qed

lemma line_ack:
  assumes T: "tree n G" and w: "(V, p, Q, e) \<in> set (wins G)" and m: "on_line G V e m"
    and x: "x \<in> dom (hist G)" "snd x \<le> V"
  shows "anc (hist G) x m \<or> anc (hist G) m x \<or> lacks (hist G) (wins G) x"
proof (cases "snd x = V")
  case True
  then show ?thesis using line_cmp [OF T w _ m, of x] x(1) by (auto simp: on_line_def)
next
  case False
  then have "snd x < V" using x(2) by simp
  then have "anc (hist G) x e \<or> lacks (hist G) (wins G) x" using w unfolding lacks_def by blast
  then show ?thesis using anc_trans [OF line_above [OF T w m]] by blast
qed

lemma sure_ack:
  assumes T: "tree n G" and y: "sure n G S y" and x: "x \<in> dom (hist G)"
  shows "anc (hist G) x y \<or> anc (hist G) y x \<or> lacks (hist G) (wins G) x"
proof (cases "y = (0, 0)")
  case True
  then show ?thesis using root [OF T, of x] x by (simp add: nodes_def)
next
  case False
  then obtain z where z: "chosen n G z" "anc (hist G) y z" using y unfolding sure_def by blast
  obtain i u where zi: "z = (i, u)" by fastforce
  obtain p Q f where w: "(u, p, Q, f) \<in> set (wins G)" "anc (hist G) f z"
    using win_below [OF T, of i u] z(1) zi by (auto simp: chosen_def)
  have lin: "anc (hist G) x y \<or> anc (hist G) y x" if "anc (hist G) x z \<or> anc (hist G) z x"
    using that z(2) anc_trans anc_linear by (metis linorder_linear)
  consider "snd x = u" | "snd x < u" | "u < snd x" by linarith
  then show ?thesis
  proof cases
    case 1
    then have "anc (hist G) x z \<or> anc (hist G) z x"
      using line_cmp [OF T w(1), of x z] x z(1) by (simp add: on_line_def chosen_def zi)
    then show ?thesis using lin by blast
  next
    case 2
    then have "anc (hist G) x f \<or> lacks (hist G) (wins G) x" using w(1) unfolding lacks_def by blast
    then show ?thesis using lin anc_trans [OF w(2)] by blast
  next
    case 3
    obtain q R g where v: "(snd x, q, R, g) \<in> set (wins G)" "anc (hist G) g x"
      using win_below [OF T, of "fst x" "snd x"] x by auto
    have "anc (hist G) z g" using leader_complete [OF T z(1) v(1)] 3 zi by simp
    then show ?thesis using lin anc_trans [OF v(2)] by blast
  qed
qed

end
