(* ===== verification/Raft_Safety.thy ===== *)
theory Raft_Safety
  imports Raft_Tree
begin

text \<open>
  State machine safety: no two servers deliver different commands at one index, in every run of an odd number of
  servers in which no candidate or leader is handed a later term's snapshot and the service only compacts what
  has been applied. The invariant ties the peers and the messages to the tree of entries.
\<close>

section \<open>Calm runs\<close>

fun upsets :: "'c goroutine \<Rightarrow> 'c cluster \<Rightarrow> bool" where
  "upsets (SendInstallSnapshot j t si st data) C \<longleftrightarrow>
     rstate (peers C j) \<in> {CandidateState, LeaderState} \<and> currentTerm (peers C j) < t"
| "upsets _ C \<longleftrightarrow> False"

fun calm :: "'c event \<Rightarrow> 'c cluster \<Rightarrow> bool" where
  "calm (Deliver i g now) C \<longleftrightarrow> \<not> upsets g C"
| "calm (DeliverOrphan i g now) C \<longleftrightarrow> \<not> upsets g C"
| "calm (TakeSnapshot i index snap) C \<longleftrightarrow> index \<le> lastApplied (peers C i)"
| "calm _ C \<longleftrightarrow> True"

lemma calm_orderly: "calm e C \<Longrightarrow> orderly e C"
proof -
  have "demotes g C \<Longrightarrow> upsets g C" for g by (cases g) auto
  then show "calm e C \<Longrightarrow> orderly e C" by (cases e) auto
qed

section \<open>The invariant\<close>

text \<open>The end of a log and its compacted part, as nodes of the tree.\<close>

definition lastn :: "'c Raft \<Rightarrow> node" where
  "lastn rf = (logLength rf - 1, Term (last (rlog rf)))"

definition base :: "'c Raft \<Rightarrow> node" where
  "base rf = (snapshotLastIndex rf, snapshotLastTerm rf)"

text \<open>The log is decided up to an index.\<close>

definition settled :: "nat \<Rightarrow> 'c ghost \<Rightarrow> 'c Raft \<Rightarrow> int \<Rightarrow> bool" where
  "settled n G rf i \<longleftrightarrow> 0 \<le> i \<and> i \<le> fst (lastn rf) \<and> (i \<le> snapshotLastIndex rf
     \<or> (\<exists>x. fst x = i \<and> anc (hist G) x (lastn rf) \<and> sure n G (currentTerm rf) x))"

definition peer_ok :: "nat \<Rightarrow> 'c ghost \<Rightarrow> int \<Rightarrow> 'c Raft \<Rightarrow> bool" where
  "peer_ok n G j rf \<longleftrightarrow>
     (\<forall>x. (j, x) \<in> acks G \<longrightarrow> snd x \<le> currentTerm rf \<and> (anc (hist G) x (lastn rf) \<or> lacks (hist G) (wins G) x))
     \<and> (\<exists>T. sure n G T (base rf)) \<and> settled n G rf (commitIndex rf) \<and> settled n G rf (lastApplied rf)
     \<and> (isSnapshotApplied rf \<longrightarrow> snapshotLastIndex rf \<le> lastApplied rf) \<and> 0 \<le> currentTerm rf"

text \<open>A leader has won its term, and has and acknowledges all of its entries; up to a match index everything is compacted, sure or
  acknowledged.\<close>

definition matched :: "nat \<Rightarrow> 'c ghost \<Rightarrow> 'c Raft \<Rightarrow> int \<Rightarrow> int \<Rightarrow> bool" where
  "matched n G rf q m \<longleftrightarrow> m \<le> fst (lastn rf) \<and> (\<forall>k \<le> m. (k, currentTerm rf) \<in> dom (hist G) \<longrightarrow>
     k \<le> snapshotLastIndex rf \<or> sure n G (currentTerm rf) (k, currentTerm rf) \<or> (q, k, currentTerm rf) \<in> acks G)"

definition leader_ok :: "nat \<Rightarrow> 'c ghost \<Rightarrow> int \<Rightarrow> 'c Raft \<Rightarrow> bool" where
  "leader_ok n G j rf \<longleftrightarrow> (rstate rf = LeaderState \<longrightarrow>
     (\<exists>Q e. (currentTerm rf, j, Q, e) \<in> set (wins G) \<and> on_line G (currentTerm rf) e (lastn rf))
     \<and> (\<forall>k. (k, currentTerm rf) \<in> dom (hist G) \<longrightarrow> k \<le> fst (lastn rf) \<and> (j, k, currentTerm rf) \<in> acks G)
     \<and> sure n G (currentTerm rf) (base rf)
     \<and> (\<forall>q < n. matched n G rf (int q) (matchIndex rf ! q)))"

text \<open>What a message carries.\<close>

definition sent_end :: "int \<Rightarrow> int \<Rightarrow> 'c LogEntry list \<Rightarrow> node" where
  "sent_end pi pt es = (pi + int (length es), end_term pt es)"

definition msg_ok :: "nat \<Rightarrow> 'c ghost \<Rightarrow> int \<Rightarrow> 'c goroutine \<Rightarrow> bool" where
  "msg_ok n G i g \<longleftrightarrow>
     (case g of
        SendRequestVote j t li lt \<Rightarrow> elogs G (t, i) = Some (li, lt)
      | SendEntries j t pi pt ci es \<Rightarrow>
          (\<exists>Q e. (t, i, Q, e) \<in> set (wins G) \<and> on_line G t e (sent_end pi pt es))
          \<and> (\<exists>x. fst x = ci \<and> anc (hist G) x (sent_end pi pt es) \<and> sure n G t x)
      | SendInstallSnapshot j t si st data \<Rightarrow> (\<exists>Q e. (t, i, Q, e) \<in> set (wins G)) \<and> sure n G t (si, st)
      | _ \<Rightarrow> True)"

definition reply_ok :: "'c ghost \<Rightarrow> 'c goroutine \<Rightarrow> rpc_reply \<Rightarrow> bool" where
  "reply_ok G g r \<longleftrightarrow> (\<forall>q t pi pt ci es a. g = SendEntries q t pi pt ci es \<longrightarrow> r = EntriesReply a \<longrightarrow> aer_Success a \<longrightarrow>
     (\<forall>k. (k, t) \<in> dom (hist G) \<longrightarrow> anc (hist G) (k, t) (sent_end pi pt es) \<longrightarrow> (q, k, t) \<in> acks G))"

text \<open>What a vote says of the candidate's log; a candidate that cannot win; what a candidate that can win has.\<close>

definition vote_ok :: "'c ghost \<Rightarrow> int \<Rightarrow> int \<Rightarrow> int \<Rightarrow> bool" where
  "vote_ok G V j p \<longleftrightarrow> (\<exists>e. elogs G (V, p) = Some e \<and>
     (\<forall>x. (j, x) \<in> acks G \<longrightarrow> snd x < V \<longrightarrow> as_good e x \<or> lacks (hist G) (wins G) x))"

definition doomed :: "'c cluster \<Rightarrow> int \<Rightarrow> int \<Rightarrow> bool" where
  "doomed C V p \<longleftrightarrow> (\<exists>Q. quorum (nservers C) Q \<and> (\<forall>j \<in> Q. V < currentTerm (peers C j) \<and> (V, j, p) \<notin> grants C))"

definition cand_ok :: "'c cluster \<Rightarrow> 'c ghost \<Rightarrow> int \<Rightarrow> bool" where
  "cand_ok C G p \<longleftrightarrow> (let rf = peers C p; V = currentTerm rf in V \<in> terms (wins G)
     \<or> rstate rf = CandidateState \<and> elogs G (V, p) = Some (lastn rf)
       \<and> (snd (lastn rf) < V \<and> sure (nservers C) G V (base rf) \<or> doomed C V p))"

definition idle :: "'c cluster \<Rightarrow> int \<Rightarrow> int \<Rightarrow> bool" where
  "idle C V p \<longleftrightarrow> (\<forall>g. (p, g) \<in> pending C \<longrightarrow> \<not> asks V g)"

definition inv_peers :: "'c cluster \<Rightarrow> 'c ghost \<Rightarrow> bool" where
  "inv_peers C G \<longleftrightarrow> (\<forall>j \<in> servers C. peer_ok (nservers C) G j (peers C j) \<and> leader_ok (nservers C) G j (peers C j))
     \<and> (\<forall>j x. (j, x) \<in> acks G \<longrightarrow> j \<in> servers C \<and> x \<in> dom (hist G))"

definition inv_msgs :: "'c cluster \<Rightarrow> 'c ghost \<Rightarrow> bool" where
  "inv_msgs C G \<longleftrightarrow> (\<forall>i g. (i, g) \<in> pending C \<union> set (orphans C) \<longrightarrow> msg_ok (nservers C) G i g)
     \<and> (\<forall>i g r. (i, g, r) \<in> set (replies C) \<longrightarrow> reply_ok G g r)"

definition inv_polls :: "'c cluster \<Rightarrow> 'c ghost \<Rightarrow> bool" where
  "inv_polls C G \<longleftrightarrow> (\<forall>V j p. (V, j, p) \<in> grants C \<longrightarrow> V \<in> terms (wins G) \<or> vote_ok G V j p)
     \<and> (\<forall>V p Q e. (V, p, Q, e) \<in> set (wins G) \<longrightarrow> (\<forall>j \<in> Q. (V, j, p) \<in> grants C)
          \<and> (currentTerm (peers C p) = V \<longrightarrow> rstate (peers C p) = LeaderState \<or> idle C V p))
     \<and> (\<forall>p. \<not> idle C (currentTerm (peers C p)) p \<longrightarrow> rstate (peers C p) \<noteq> LeaderState \<longrightarrow> cand_ok C G p)"

definition inv_applied :: "'c cluster \<Rightarrow> 'c ghost \<Rightarrow> bool" where
  "inv_applied C G \<longleftrightarrow> (\<forall>i k. applying C i = SentSnapshot k \<longrightarrow> k \<le> lastApplied (peers C i))
     \<and> (\<forall>i c k. CommandMsg c k \<in> set (delivered C i) \<longrightarrow>
          (\<exists>t u T. hist G (k, t) = Some (c, u) \<and> sure (nservers C) G T (k, t)))"

definition safe :: "'c cluster \<Rightarrow> 'c ghost \<Rightarrow> bool" where
  "safe C G \<longleftrightarrow> log_inv C (hist G) \<and> tree (nservers C) G \<and> inv_peers C G \<and> inv_msgs C G \<and> inv_polls C G \<and> inv_applied C G"

lemma safeD:
  assumes "safe C G"
  shows "log_inv C (hist G)" "tree (nservers C) G"
    "j \<in> servers C \<Longrightarrow> peer_ok (nservers C) G j (peers C j)" "j \<in> servers C \<Longrightarrow> leader_ok (nservers C) G j (peers C j)"
    "(j, x) \<in> acks G \<Longrightarrow> j \<in> servers C \<and> x \<in> dom (hist G)"
    "(i, g) \<in> pending C \<union> set (orphans C) \<Longrightarrow> msg_ok (nservers C) G i g"
    "(i, g, r) \<in> set (replies C) \<Longrightarrow> reply_ok G g r"
    "(V, j, p) \<in> grants C \<Longrightarrow> V \<in> terms (wins G) \<or> vote_ok G V j p"
    "(V, p, Q, e) \<in> set (wins G) \<Longrightarrow> j \<in> Q \<Longrightarrow> (V, j, p) \<in> grants C"
    "(V, p, Q, e) \<in> set (wins G) \<Longrightarrow> currentTerm (peers C p) = V \<Longrightarrow> rstate (peers C p) = LeaderState \<or> idle C V p"
    "\<not> idle C (currentTerm (peers C p)) p \<Longrightarrow> rstate (peers C p) \<noteq> LeaderState \<Longrightarrow> cand_ok C G p"
    "applying C i = SentSnapshot k \<Longrightarrow> k \<le> lastApplied (peers C i)"
    "CommandMsg c k \<in> set (delivered C i) \<Longrightarrow> \<exists>t u T. hist G (k, t) = Some (c, u) \<and> sure (nservers C) G T (k, t)"
proof -
  have i: "inv_peers C G" "inv_msgs C G" "inv_polls C G" "inv_applied C G" using assms by (simp_all add: safe_def)
  show "log_inv C (hist G)" "tree (nservers C) G" using assms by (simp_all add: safe_def)
  show "j \<in> servers C \<Longrightarrow> peer_ok (nservers C) G j (peers C j)" "j \<in> servers C \<Longrightarrow> leader_ok (nservers C) G j (peers C j)"
    "(j, x) \<in> acks G \<Longrightarrow> j \<in> servers C \<and> x \<in> dom (hist G)" using i(1) unfolding inv_peers_def by blast+
  show "(i, g) \<in> pending C \<union> set (orphans C) \<Longrightarrow> msg_ok (nservers C) G i g"
    "(i, g, r) \<in> set (replies C) \<Longrightarrow> reply_ok G g r" using i(2) unfolding inv_msgs_def by blast+
  show "(V, j, p) \<in> grants C \<Longrightarrow> V \<in> terms (wins G) \<or> vote_ok G V j p"
    "(V, p, Q, e) \<in> set (wins G) \<Longrightarrow> j \<in> Q \<Longrightarrow> (V, j, p) \<in> grants C"
    "(V, p, Q, e) \<in> set (wins G) \<Longrightarrow> currentTerm (peers C p) = V \<Longrightarrow> rstate (peers C p) = LeaderState \<or> idle C V p"
    "\<not> idle C (currentTerm (peers C p)) p \<Longrightarrow> rstate (peers C p) \<noteq> LeaderState \<Longrightarrow> cand_ok C G p"
    using i(3) unfolding inv_polls_def by blast+
  show "applying C i = SentSnapshot k \<Longrightarrow> k \<le> lastApplied (peers C i)"
    "CommandMsg c k \<in> set (delivered C i) \<Longrightarrow> \<exists>t u T. hist G (k, t) = Some (c, u) \<and> sure (nservers C) G T (k, t)"
    using i(4) unfolding inv_applied_def by blast+
qed

section \<open>Logs as paths\<close>

lemma log_end_from:
  assumes "k < length (rlog rf)" and "snapshotLastIndex rf + int k = i"
  shows "sent_end i (Term (rlog rf ! k)) (drop (Suc k) (rlog rf)) = lastn rf"
proof -
  have "rlog rf \<noteq> []" using assms(1) by auto
  then have "end_term (Term (rlog rf ! k)) (drop (Suc k) (rlog rf)) = Term (last (rlog rf))"
    using assms(1) by (auto simp: end_term_def last_conv_nth intro: arg_cong [of _ _ "\<lambda>k. Term (rlog rf ! k)"])
  then show ?thesis using assms by (auto simp: sent_end_def lastn_def logLength_def go_len_def of_nat_diff)
qed

lemma log_node:
  assumes "log_chain H rf" and "wf_raft rf" and "k < length (rlog rf)"
  shows "anc H (snapshotLastIndex rf + int k, Term (rlog rf ! k)) (lastn rf)"
proof -
  have ne: "rlog rf \<noteq> []" using assms(2) by (rule wf_rlogD)
  show ?thesis
    using chain_end [OF log_chain_from [OF assms(1) ne assms(3)]] log_end_from [OF assms(3), of "snapshotLastIndex rf + int k"]
    by (simp add: sent_end_def)
qed

lemma base_anc: "log_chain H rf \<Longrightarrow> wf_raft rf \<Longrightarrow> anc H (base rf) (lastn rf)"
  using log_node [of H rf 0] by (auto simp: wf_raft_def base_def hd_conv_nth)

lemma log_at:
  assumes "log_chain H rf" and "wf_raft rf" and "anc H x (lastn rf)" and "snapshotLastIndex rf \<le> fst x"
  shows "nat (fst x - snapshotLastIndex rf) < length (rlog rf)" "x = (fst x, Term (rlog rf ! nat (fst x - snapshotLastIndex rf)))"
proof -
  let ?k = "nat (fst x - snapshotLastIndex rf)"
  have "rlog rf \<noteq> []" using assms(2) by (rule wf_rlogD)
  then show k: "?k < length (rlog rf)" using anc_le [OF assms(3)] assms(4)
    by (cases "rlog rf") (auto simp: lastn_def logLength_def go_len_def nat_less_iff)
  show "x = (fst x, Term (rlog rf ! ?k))"
    by (rule anc_same [OF assms(3)]) (use log_node [OF assms(1,2) k] assms(4) in simp_all)
qed

lemma lastn_entry:
  assumes "log_chain H rf" and "wf_raft rf"
  shows "lastn rf = base rf \<or> lastn rf \<in> dom H"
proof (cases "tl (rlog rf) = []")
  case True
  then obtain e where "rlog rf = [e]" using wf_rlogD [OF assms(2)] by (cases "rlog rf") auto
  then show ?thesis using assms(2) by (simp add: lastn_def base_def wf_raft_def logLength_def go_len_def)
next
  case False
  then obtain e es x where l: "rlog rf = e # es @ [x]" by (metis append_butlast_last_id list.collapse tl_Nil)
  have "H (snapshotLastIndex rf + int (length es) + 1, Term x) \<noteq> None"
    using assms(1) unfolding log_chain_def l by (simp add: chain_append)
  then show ?thesis by (auto simp: lastn_def l logLength_def go_len_def add.commute)
qed

section \<open>Growing histories\<close>

definition grows :: "'c ghost \<Rightarrow> 'c ghost \<Rightarrow> bool" where
  "grows G G' \<longleftrightarrow> hist G \<subseteq>\<^sub>m hist G' \<and> set (wins G) \<subseteq> set (wins G') \<and> acks G \<subseteq> acks G'"

lemma grows_refl [simp]: "grows G G"
  by (simp add: grows_def)

lemma tree_no_root: "tree n G \<Longrightarrow> (0, t) \<notin> dom (hist G)"
  using parent_node(1) by fastforce

lemma grows_basic:
  assumes "grows G G'"
  shows "anc (hist G) x y \<Longrightarrow> anc (hist G') x y" "x \<in> dom (hist G) \<Longrightarrow> x \<in> dom (hist G')"
    "(j, x) \<in> acks G \<Longrightarrow> (j, x) \<in> acks G'" "w \<in> set (wins G) \<Longrightarrow> w \<in> set (wins G')" "V \<in> terms (wins G) \<Longrightarrow> V \<in> terms (wins G')"
    "chosen n G x \<Longrightarrow> chosen n G' x" "sure n G T x \<Longrightarrow> sure n G' T x" "on_line G t e x \<Longrightarrow> on_line G' t e x"
    "settled n G rf i \<Longrightarrow> settled n G' rf i"
proof -
  have le: "hist G \<subseteq>\<^sub>m hist G'" "set (wins G) \<subseteq> set (wins G')" "acks G \<subseteq> acks G'" using assms by (simp_all add: grows_def)
  have d: "x \<in> dom (hist G) \<Longrightarrow> x \<in> dom (hist G')" for x using map_le_implies_dom_le [OF le(1)] by blast
  have a: "anc (hist G) x y \<Longrightarrow> anc (hist G') x y" for x y using anc_mono le(1) by blast
  have c: "chosen n G x \<Longrightarrow> chosen n G' x" for x using d le(3) unfolding chosen_def by blast
  have s: "sure n G T x \<Longrightarrow> sure n G' T x" for x T using c a unfolding sure_def by blast
  show "anc (hist G) x y \<Longrightarrow> anc (hist G') x y" "x \<in> dom (hist G) \<Longrightarrow> x \<in> dom (hist G')"
    "(j, x) \<in> acks G \<Longrightarrow> (j, x) \<in> acks G'" "w \<in> set (wins G) \<Longrightarrow> w \<in> set (wins G')" "V \<in> terms (wins G) \<Longrightarrow> V \<in> terms (wins G')"
    "chosen n G x \<Longrightarrow> chosen n G' x" "sure n G T x \<Longrightarrow> sure n G' T x" "on_line G t e x \<Longrightarrow> on_line G' t e x"
    using a d c s le(2,3) unfolding on_line_def terms_def by blast+
  show "settled n G rf i \<Longrightarrow> settled n G' rf i" using a s unfolding settled_def by blast
qed

lemma grows_back:
  assumes "grows G G'" and "tree n G" and "tree n G'" and "anc (hist G') x y" and "y \<in> nodes (hist G)"
  shows "anc (hist G) x y"
  using anc_back [OF assms(2) _ _ assms(4,5)] assms(1) tree_no_root [OF assms(3), of 0] by (auto simp: grows_def)

lemma grows_lacks:
  assumes g: "grows G G'" and T: "tree n G" "tree n G'" and l: "lacks (hist G) (wins G) x"
  shows "lacks (hist G') (wins G') x"
proof -
  obtain u p Q e where w: "(u, p, Q, e) \<in> set (wins G)" "snd x < u" "\<not> anc (hist G) x e" using l unfolding lacks_def by blast
  have "\<not> anc (hist G') x e" using grows_back [OF g T _ win_node [OF T(1) w(1)]] w(3) by blast
  then show ?thesis using w(1,2) grows_basic(4) [OF g] unfolding lacks_def by blast
qed

lemma grows_peer:
  assumes g: "grows G G'" and T: "tree n G" "tree n G'" and p: "peer_ok n G j rf"
    and a: "\<And>x. (j, x) \<in> acks G' \<Longrightarrow> (j, x) \<in> acks G"
  shows "peer_ok n G' j rf"
proof -
  have "snd x \<le> currentTerm rf \<and> (anc (hist G') x (lastn rf) \<or> lacks (hist G') (wins G') x)" if "(j, x) \<in> acks G'" for x
    using p a [OF that] grows_basic(1) [OF g] grows_lacks [OF g T] unfolding peer_ok_def by blast
  then show ?thesis using p grows_basic(7,9) [OF g] unfolding peer_ok_def by blast
qed

lemma grows_leader:
  assumes g: "grows G G'" and l: "leader_ok n G j rf"
    and h: "\<And>k. rstate rf = LeaderState \<Longrightarrow> (k, currentTerm rf) \<in> dom (hist G') \<Longrightarrow> (k, currentTerm rf) \<in> dom (hist G)"
  shows "leader_ok n G' j rf"
proof -
  have "matched n G rf q m \<Longrightarrow> matched n G' rf q m" if "rstate rf = LeaderState" for q m
    using grows_basic(3,7) [OF g] h [OF that] unfolding matched_def by blast
  then show ?thesis using l h grows_basic(3,4,7,8) [OF g] unfolding leader_ok_def by blast
qed

lemma grows_msg:
  assumes g: "grows G G'" and m: "msg_ok n G i x" and e: "\<And>t. asks t x \<Longrightarrow> elogs G' (t, i) = elogs G (t, i)"
  shows "msg_ok n G' i x"
proof (cases x)
  case (SendEntries j t pi pt ci es)
  then show ?thesis using m grows_basic(1,4,7,8) [OF g] unfolding msg_ok_def by (simp, blast)
next
  case (SendInstallSnapshot j t si st data)
  then show ?thesis using m grows_basic(4,7) [OF g] unfolding msg_ok_def by (simp, blast)
qed (use m e in \<open>auto simp: msg_ok_def asks_def\<close>)

lemma line_node: "tree n G \<Longrightarrow> (t, p, Q, e) \<in> set (wins G) \<Longrightarrow> on_line G t e m \<Longrightarrow> m \<in> nodes (hist G)"
  using win_node unfolding on_line_def nodes_def by blast

lemma sent_end_node:
  assumes "tree n G" and "msg_ok n G i (SendEntries q t pi pt ci es)"
  shows "sent_end pi pt es \<in> nodes (hist G)"
proof -
  obtain Q e where "(t, i, Q, e) \<in> set (wins G)" "on_line G t e (sent_end pi pt es)"
    using assms(2) unfolding msg_ok_def by auto
  then show ?thesis using line_node [OF assms(1)] by blast
qed

lemma grows_reply:
  assumes g: "grows G G'" and T: "tree n G" "tree n G'" and m: "msg_ok n G i x" and r: "reply_ok G x r"
  shows "reply_ok G' x r"
  unfolding reply_ok_def
proof (intro allI impI)
  fix q t pi pt ci es a k
  assume x: "x = SendEntries q t pi pt ci es" "r = EntriesReply a" "aer_Success a"
    and k: "(k, t) \<in> dom (hist G')" "anc (hist G') (k, t) (sent_end pi pt es)"
  note N = sent_end_node [OF T(1) m [unfolded x(1)]]
  have b: "anc (hist G) (k, t) (sent_end pi pt es)" by (rule grows_back [OF g T k(2) N])
  have "k \<noteq> 0" using k(1) tree_no_root [OF T(2)] by blast
  then have "(k, t) \<in> dom (hist G)" using anc_node [OF T(1) b N] by (auto simp: nodes_def)
  then show "(q, k, t) \<in> acks G'" using r x b grows_basic(3) [OF g] unfolding reply_ok_def by blast
qed

section \<open>One change\<close>

lemma doomed_mono:
  assumes "doomed C V p" and "nservers C' = nservers C" and "\<And>i. currentTerm (peers C i) \<le> currentTerm (peers C' i)"
    and "\<And>w. (V, w, p) \<in> grants C' \<Longrightarrow> (V, w, p) \<in> grants C \<or> currentTerm (peers C w) \<le> V"
  shows "doomed C' V p"
proof -
  obtain Q where Q: "quorum (nservers C) Q" "\<And>j. j \<in> Q \<Longrightarrow> V < currentTerm (peers C j) \<and> (V, j, p) \<notin> grants C"
    using assms(1) unfolding doomed_def by blast
  have "V < currentTerm (peers C' j) \<and> (V, j, p) \<notin> grants C'" if "j \<in> Q" for j
    using Q(2) [OF that] assms(3) [of j] assms(4) [of j] by force
  then show ?thesis using Q(1) assms(2) unfolding doomed_def by auto
qed

lemma cand_mono:
  assumes c: "cand_ok C G p" and g: "grows G G'" and n: "nservers C' = nservers C" and t: "\<And>i. currentTerm (peers C i) \<le> currentTerm (peers C' i)"
    and p: "currentTerm (peers C' p) = currentTerm (peers C p)" "rstate (peers C' p) = rstate (peers C p)"
      "lastn (peers C' p) = lastn (peers C p)" "sure (nservers C) G (currentTerm (peers C p)) (base (peers C p)) \<Longrightarrow>
        sure (nservers C) G' (currentTerm (peers C p)) (base (peers C' p))"
    and e: "elogs G' (currentTerm (peers C p), p) = elogs G (currentTerm (peers C p), p)"
    and v: "\<And>V w. (V, w, p) \<in> grants C' \<Longrightarrow> (V, w, p) \<in> grants C \<or> currentTerm (peers C w) \<le> V"
  shows "cand_ok C' G' p"
  using c doomed_mono [OF _ n t v] grows_basic(5) [OF g] p e n unfolding cand_ok_def Let_def by auto

lemma won_reached:
  assumes "safe C G" and "(V, p, Q, e) \<in> set (wins G)"
  shows "V \<le> currentTerm (peers C p)" "p \<in> servers C"
proof -
  have q: "quorum (nservers C) Q" using wins_okD [OF treeD(2) [OF safeD(2) [OF assms(1)]] assms(2)] by simp
  have "Q \<noteq> {}" using quorum_meet [OF treeD(1) [OF safeD(2) [OF assms(1)]] q q] by blast
  then obtain w where "(V, w, p) \<in> grants C" using safeD(9) [OF assms] by blast
  then show "V \<le> currentTerm (peers C p)" "p \<in> servers C" using log_invD(6) [OF safeD(1) [OF assms(1)]] by blast+
qed

lemma msg_reached:
  assumes "safe C G" and "(i, g) \<in> pending C \<union> set (orphans C)" and "asks t g"
  shows "t \<le> currentTerm (peers C i)"
  using log_invD(5) [OF safeD(1) [OF assms(1)], of i g t] inv_askD(1) [OF log_invD(1) [OF safeD(1) [OF assms(1)]], of i g t] assms(2,3)
  by blast

lemma safe_change:
  assumes S: "safe C G" and j: "j \<in> servers C" and L: "log_inv C' (hist G')" and T: "tree (nservers C) G'"
    and n: "nservers C' = nservers C" and g: "grows G G'"
    and peers: "\<And>i. i \<noteq> j \<Longrightarrow> peers C' i = peers C i \<and> applying C' i = applying C i"
    and tm: "currentTerm (peers C j) \<le> currentTerm (peers C' j)"
    and pj: "peer_ok (nservers C) G' j (peers C' j)" and lj: "leader_ok (nservers C) G' j (peers C' j)"
    and hist: "\<And>x. x \<in> dom (hist G') \<Longrightarrow> x \<notin> dom (hist G) \<Longrightarrow>
      rstate (peers C' j) = LeaderState \<and> snd x = currentTerm (peers C' j)"
    and acks: "\<And>i x. (i, x) \<in> acks G' \<Longrightarrow> (i, x) \<notin> acks G \<Longrightarrow> i = j \<and> x \<in> dom (hist G') \<and> snd x = currentTerm (peers C' j)"
    and elogs: "\<And>V i. V \<le> currentTerm (peers C i) \<Longrightarrow> elogs G' (V, i) = elogs G (V, i)"
    and msgs: "\<And>i x. (i, x) \<in> pending C' \<union> set (orphans C') \<Longrightarrow>
      (i, x) \<in> pending C \<union> set (orphans C) \<or> msg_ok (nservers C) G' i x"
    and reps: "\<And>i x r. (i, x, r) \<in> set (replies C') \<Longrightarrow> (i, x, r) \<in> set (replies C) \<or> reply_ok G' x r"
    and gr: "grants C \<subseteq> grants C'"
    and gr': "\<And>V w p. (V, w, p) \<in> grants C' \<Longrightarrow> (V, w, p) \<notin> grants C \<Longrightarrow> currentTerm (peers C w) \<le> V \<and> vote_ok G' V w p"
    and wins: "\<And>V p Q e. (V, p, Q, e) \<in> set (wins G') \<Longrightarrow> (V, p, Q, e) \<notin> set (wins G) \<Longrightarrow>
      (\<forall>w \<in> Q. (V, w, p) \<in> grants C') \<and> p = j \<and> rstate (peers C' j) = LeaderState"
    and idle: "\<And>i V. i \<noteq> j \<Longrightarrow> idle C V i \<Longrightarrow> idle C' V i"
    and own: "\<And>V. currentTerm (peers C' j) = V \<Longrightarrow> currentTerm (peers C j) = V \<Longrightarrow>
      rstate (peers C j) = LeaderState \<or> idle C V j \<Longrightarrow> rstate (peers C' j) = LeaderState \<or> idle C' V j"
    and cand: "\<not> idle C' (currentTerm (peers C' j)) j \<Longrightarrow> rstate (peers C' j) \<noteq> LeaderState \<Longrightarrow> cand_ok C' G' j"
    and app: "\<And>k. applying C' j = SentSnapshot k \<Longrightarrow> k \<le> lastApplied (peers C' j)"
    and del: "\<And>i c k. CommandMsg c k \<in> set (delivered C' i) \<Longrightarrow> CommandMsg c k \<in> set (delivered C i)
      \<or> (\<exists>t u T. hist G' (k, t) = Some (c, u) \<and> sure (nservers C) G' T (k, t))"
  shows "safe C' G'"
proof -
  note T0 = safeD(2) [OF S]
  have srv: "servers C' = servers C" using n by (simp add: servers_def)
  have tms: "currentTerm (peers C i) \<le> currentTerm (peers C' i)" for i using tm peers [of i] by (cases "i = j") auto
  have "peer_ok (nservers C) G' i (peers C' i) \<and> leader_ok (nservers C) G' i (peers C' i)" if i: "i \<in> servers C" for i
  proof (cases "i = j")
    case False
    note P = peers [OF False]
    have "peer_ok (nservers C) G' i (peers C i)"
      by (rule grows_peer [OF g T0 T safeD(3) [OF S i]]) (use acks False in blast)
    moreover have "leader_ok (nservers C) G' i (peers C i)"
    proof (rule grows_leader [OF g safeD(4) [OF S i]])
      fix k assume l: "rstate (peers C i) = LeaderState" and k: "(k, currentTerm (peers C i)) \<in> dom (hist G')"
      obtain Q e where w: "(currentTerm (peers C i), i, Q, e) \<in> set (wins G')"
        using safeD(4) [OF S i] l grows_basic(4) [OF g] unfolding leader_ok_def by blast
      show "(k, currentTerm (peers C i)) \<in> dom (hist G)"
      proof (rule ccontr)
        assume "\<not> ?thesis"
        then have h: "rstate (peers C' j) = LeaderState" "currentTerm (peers C i) = currentTerm (peers C' j)" using hist [OF k] by auto
        then obtain Q' e' where "(currentTerm (peers C i), j, Q', e') \<in> set (wins G')" using lj unfolding leader_ok_def by auto
        then show False using wins_unique [OF treeD(2) [OF T] w] False by blast
      qed
    qed
    ultimately show ?thesis using P by simp
  qed (use pj lj in simp)
  moreover have "i \<in> servers C \<and> x \<in> dom (hist G')" if "(i, x) \<in> acks G'" for i x
    using that acks safeD(5) [OF S] grows_basic(2) [OF g] j by blast
  ultimately have "inv_peers C' G'" unfolding inv_peers_def n srv by blast
  moreover have "msg_ok (nservers C) G' i x" if "(i, x) \<in> pending C' \<union> set (orphans C')" for i x
    using msgs [OF that] grows_msg [OF g safeD(6) [OF S]] elogs msg_reached [OF S] by blast
  moreover have "reply_ok G' x r" if "(i, x, r) \<in> set (replies C')" for i x r
    using reps [OF that] grows_reply [OF g T0 T safeD(6) [OF S] safeD(7) [OF S]] pending_reply by blast
  ultimately have ipm: "inv_peers C' G'" "inv_msgs C' G'" unfolding inv_msgs_def n by blast+
  have vt: "V \<in> terms (wins G') \<or> vote_ok G' V w p" if v: "(V, w, p) \<in> grants C'" for V w p
  proof (cases "(V, w, p) \<in> grants C \<and> V \<notin> terms (wins G')")
    case True
    then have ok: "vote_ok G V w p" using safeD(8) [OF S] grows_basic(5) [OF g] by blast
    have e: "elogs G' (V, p) = elogs G (V, p)" using elogs log_invD(6) [OF safeD(1) [OF S]] True by blast
    have "V \<le> currentTerm (peers C w)" using log_invD(1) [OF safeD(1) [OF S]] True unfolding vote_inv_def inv_grant_def by blast
    then have "V \<le> currentTerm (peers C' w)" using tms [of w] by simp
    then have "(w, x) \<in> acks G" if "(w, x) \<in> acks G'" "snd x < V" for x using acks [OF that(1)] that(2) by force
    then show ?thesis using ok e grows_lacks [OF g T0 T] unfolding vote_ok_def by metis
  qed (use gr' v in blast)
  have wn: "(\<forall>w \<in> Q. (V, w, p) \<in> grants C') \<and> (currentTerm (peers C' p) = V \<longrightarrow> rstate (peers C' p) = LeaderState \<or> idle C' V p)"
    if w: "(V, p, Q, e) \<in> set (wins G')" for V p Q e
  proof (cases "(V, p, Q, e) \<in> set (wins G)")
    case True
    have "rstate (peers C' p) = LeaderState \<or> idle C' V p" if "currentTerm (peers C' p) = V"
      using own [of V] idle [of p V] that safeD(10) [OF S True] won_reached [OF S True] tms [of p] peers [of p] by (cases "p = j") auto
    then show ?thesis using safeD(9) [OF S True] gr by blast
  qed (use wins w in blast)
  have cd: "cand_ok C' G' p" if "\<not> idle C' (currentTerm (peers C' p)) p" "rstate (peers C' p) \<noteq> LeaderState" for p
  proof (cases "p = j")
    case False
    note P = peers [OF False]
    have "cand_ok C G p" by (rule safeD(11) [OF S]) (use that P idle [OF False] in auto)
    moreover have "(V, w, p) \<in> grants C \<or> currentTerm (peers C w) \<le> V" if "(V, w, p) \<in> grants C'" for V w using gr' that by blast
    ultimately show ?thesis using cand_mono [OF _ g n tms] P elogs grows_basic(7) [OF g] by simp
  qed (use cand that in blast)
  have "k \<le> lastApplied (peers C' i)" if "applying C' i = SentSnapshot k" for i k
    using that app peers [of i] safeD(12) [OF S, of i k] by (cases "i = j") auto
  moreover have "\<exists>t u T. hist G' (k, t) = Some (c, u) \<and> sure (nservers C) G' T (k, t)"
    if "CommandMsg c k \<in> set (delivered C' i)" for i c k
  proof (cases "CommandMsg c k \<in> set (delivered C i)")
    case True
    then obtain t u T where h: "hist G (k, t) = Some (c, u)" "sure (nservers C) G T (k, t)" using safeD(13) [OF S] by blast
    have "hist G' (k, t) = Some (c, u)" using h(1) g by (force simp: grows_def map_le_def)
    then show ?thesis using grows_basic(7) [OF g h(2)] by blast
  qed (use del that in blast)
  ultimately show ?thesis using ipm vt wn cd L T unfolding safe_def inv_polls_def inv_applied_def n by blast
qed

lemma safe_fewer:
  assumes f: "fewer D C" and a: "applying D = applying C" "delivered D = delivered C" and S: "safe C G"
  shows "safe D G"
proof -
  have e: "nservers D = nservers C" "peers D = peers C" "grants D = grants C" "servers D = servers C"
    and sub: "set (running D) \<subseteq> set (running C)" "set (replies D) \<subseteq> set (replies C)" "set (orphans D) \<subseteq> set (orphans C)"
    using f by (auto simp: fewer_def servers_def)
  have p: "pending D \<subseteq> pending C" by (rule pending_mono(1) [OF sub(1,2)])
  have i: "idle C V q \<Longrightarrow> idle D V q" for V q using p unfolding idle_def by blast
  have c: "cand_ok D G q = cand_ok C G q" for q by (simp add: cand_ok_def doomed_def e)
  have "inv_peers D G" using S by (simp add: safe_def inv_peers_def e)
  moreover have "inv_msgs D G" using S p sub(2,3) unfolding safe_def inv_msgs_def e by blast
  moreover have "inv_polls D G" using safeD(8-11) [OF S] i unfolding inv_polls_def e c by blast
  moreover have "inv_applied D G" using S by (simp add: safe_def inv_applied_def e a)
  moreover have "log_inv D (hist G)" by (rule log_inv_fewer [OF f safeD(1) [OF S]])
  ultimately show ?thesis using safeD(2) [OF S] by (simp add: safe_def e)
qed

text \<open>A change of a peer alone, with new goroutines that ask for no votes.\<close>

lemma safe_put:
  assumes S: "safe C G" and j: "j \<in> servers C" and L: "log_inv (spawn j gs (put j rf C)) (hist G)"
    and pj: "peer_ok (nservers C) G j rf" and lj: "leader_ok (nservers C) G j rf"
    and gs: "\<And>g. g \<in> set gs \<Longrightarrow> msg_ok (nservers C) G j g \<and> (\<forall>t. \<not> asks t g)"
    and q: "currentTerm (peers C j) < currentTerm rf \<or> currentTerm rf = currentTerm (peers C j)
      \<and> (rstate (peers C j) = LeaderState \<longrightarrow> rstate rf = LeaderState)
      \<and> (currentTerm rf \<in> terms (wins G) \<or> idle C (currentTerm rf) j \<or> rstate rf = rstate (peers C j) \<and> lastn rf = lastn (peers C j)
           \<and> (sure (nservers C) G (currentTerm rf) (base (peers C j)) \<longrightarrow> sure (nservers C) G (currentTerm rf) (base rf)))"
    and app: "\<And>k. applying C j = SentSnapshot k \<Longrightarrow> k \<le> lastApplied rf"
  shows "safe (spawn j gs (put j rf C)) G"
proof -
  let ?C = "spawn j gs (put j rf C)"
  have id: "idle C V i \<Longrightarrow> idle ?C V i" for V i using gs by (auto simp: idle_def)
  have cd: "cand_ok ?C G j" if i: "\<not> idle ?C (currentTerm rf) j" and l: "rstate rf \<noteq> LeaderState"
  proof -
    have ni: "\<not> idle C (currentTerm rf) j" using i id by blast
    then have "currentTerm rf \<le> currentTerm (peers C j)" using msg_reached [OF S] unfolding idle_def by blast
    then have t: "currentTerm rf = currentTerm (peers C j)" and q': "rstate (peers C j) = LeaderState \<longrightarrow> rstate rf = LeaderState"
      "currentTerm rf \<in> terms (wins G) \<or> rstate rf = rstate (peers C j) \<and> lastn rf = lastn (peers C j)
         \<and> (sure (nservers C) G (currentTerm rf) (base (peers C j)) \<longrightarrow> sure (nservers C) G (currentTerm rf) (base rf))"
      using q ni by auto
    show ?thesis
    proof (cases "currentTerm rf \<in> terms (wins G)")
      case False
      have "cand_ok C G j" by (rule safeD(11) [OF S]) (use ni q' l t in auto)
      then show ?thesis by (rule cand_mono) (use False q'(2) t in auto)
    qed (simp add: cand_ok_def)
  qed
  have ow: "rstate rf = LeaderState \<or> idle ?C V j"
    if "currentTerm rf = V" "currentTerm (peers C j) = V" "rstate (peers C j) = LeaderState \<or> idle C V j" for V
    using that q id by auto
  show ?thesis
    by (rule safe_change [OF S j L safeD(2) [OF S] _ grows_refl]) (use pj lj gs q app cd ow id in auto)
qed

text \<open>Changes that leave the log, the snapshot and the progress of a peer alone.\<close>

definition same_data :: "'c Raft \<Rightarrow> 'c Raft \<Rightarrow> bool" where
  "same_data rf rf' \<longleftrightarrow> same_log rf rf' \<and> snapshotLastTerm rf' = snapshotLastTerm rf \<and> lastApplied rf' = lastApplied rf
     \<and> isSnapshotApplied rf' = isSnapshotApplied rf"

lemma same_dataD:
  assumes "same_data rf rf'"
  shows "lastn rf' = lastn rf" "base rf' = base rf" "snapshotLastIndex rf' = snapshotLastIndex rf"
    "lastApplied rf' = lastApplied rf" "isSnapshotApplied rf' = isSnapshotApplied rf" "same_log rf rf'"
  using assms by (auto simp: same_data_def same_log_def lastn_def base_def logLength_def)

lemma same_data_simps [simp]: "same_data rf rf" "same_data rf (persist rf') = same_data rf rf'"
  "same_data rf (becomeFollower t rf') = same_data rf rf'"
  by (simp_all add: same_data_def)

lemma settled_term: "settled n G rf i \<Longrightarrow> lastn rf' = lastn rf \<Longrightarrow> snapshotLastIndex rf' = snapshotLastIndex rf \<Longrightarrow>
  currentTerm rf \<le> currentTerm rf' \<Longrightarrow> settled n G rf' i"
  unfolding settled_def using sure_term by (metis (no_types))

lemma peer_same:
  assumes "peer_ok n G j rf" and d: "same_data rf rf'" and t: "currentTerm rf \<le> currentTerm rf'" and c: "settled n G rf' (commitIndex rf')"
  shows "peer_ok n G j rf'"
  using assms(1) c settled_term [OF _ same_dataD(1,3) [OF d] t, of n G "lastApplied rf"] t
  unfolding peer_ok_def same_dataD [OF d] by force

lemma leader_same:
  assumes "leader_ok n G j rf" and "same_data rf rf'" and "rstate rf' = LeaderState \<Longrightarrow> rstate rf = LeaderState \<and> currentTerm rf' = currentTerm rf
    \<and> (\<forall>q < n. matched n G rf' (int q) (matchIndex rf' ! q))"
  shows "leader_ok n G j rf'"
  using assms(1,3) unfolding leader_ok_def same_dataD [OF assms(2)] by auto

lemma matched_same: "same_data rf rf' \<Longrightarrow> currentTerm rf' = currentTerm rf \<Longrightarrow> matched n G rf' q m = matched n G rf q m"
  unfolding matched_def by (simp add: same_dataD)

section \<open>Events of one server\<close>

lemma anc_at:
  assumes "tree n G"
  shows "y \<in> nodes (hist G) \<Longrightarrow> 0 \<le> i \<Longrightarrow> i \<le> fst y \<Longrightarrow> \<exists>x. fst x = i \<and> anc (hist G) x y"
proof (induction "nat (fst y - i)" arbitrary: y)
  case 0
  then have "fst y = i" by simp
  then show ?case by blast
next
  case (Suc d)
  obtain k t where y: "y = (k, t)" by fastforce
  have "y \<in> dom (hist G)" using Suc y by (auto simp: nodes_def)
  then obtain c u where h: "hist G (k, t) = Some (c, u)" using y by auto
  have "d = nat (k - 1 - i)" "i \<le> k - 1" using Suc(2) y by simp_all
  then obtain x where "fst x = i" "anc (hist G) x (k - 1, u)"
    using Suc(1) [of "(k - 1, u)"] Suc(4) parent_node(2) [OF assms h] by auto
  then show ?case using anc_up [OF h] y by blast
qed

lemma peer_facts:
  assumes "safe C G" and "j \<in> servers C"
  shows "log_chain (hist G) (peers C j)" "wf_raft (peers C j)" "me (peers C j) = j" "lastn (peers C j) \<in> nodes (hist G)"
    "anc (hist G) (base (peers C j)) (lastn (peers C j))" "\<exists>T. sure (nservers C) G T (base (peers C j))"
    "settled (nservers C) G (peers C j) (commitIndex (peers C j))" "settled (nservers C) G (peers C j) (lastApplied (peers C j))"
proof -
  note P = safeD(3) [OF assms]
  show l: "log_chain (hist G) (peers C j)" by (rule log_invD(3) [OF safeD(1) [OF assms(1)] assms(2)])
  show w: "wf_raft (peers C j)" "me (peers C j) = j" using peer_props [OF safeD(1) [OF assms(1)] assms(2)] by simp_all
  show b: "\<exists>T. sure (nservers C) G T (base (peers C j))" using P by (simp add: peer_ok_def)
  show "anc (hist G) (base (peers C j)) (lastn (peers C j))" by (rule base_anc [OF l w(1)])
  show "lastn (peers C j) \<in> nodes (hist G)"
    using lastn_entry [OF l w(1)] sure_node [OF safeD(2) [OF assms(1)]] b unfolding nodes_def by (metis insertCI)
  show "settled (nservers C) G (peers C j) (commitIndex (peers C j))" "settled (nservers C) G (peers C j) (lastApplied (peers C j))"
    using P by (simp_all add: peer_ok_def)
qed

lemma settled_node:
  assumes T: "tree n G" and l: "log_chain (hist G) rf" "wf_raft rf" and b: "sure n G S (base rf)" and s: "settled n G rf i"
  shows "\<exists>x. fst x = i \<and> anc (hist G) x (lastn rf) \<and> sure n G (max S (currentTerm rf)) x"
proof (cases "i \<le> snapshotLastIndex rf")
  case True
  have "0 \<le> i" "i \<le> fst (base rf)" using s True by (simp_all add: settled_def base_def)
  then obtain x where x: "fst x = i" "anc (hist G) x (base rf)" using anc_at [OF T sure_node [OF T b]] by blast
  have "sure n G (max S (currentTerm rf)) x" using sure_anc [OF b x(2) T] sure_term by fastforce
  then show ?thesis using x anc_trans [OF base_anc [OF l]] by blast
next
  case False
  then show ?thesis using s sure_term unfolding settled_def by (metis max.cobounded2)
qed

lemma sendLoop_msgs:
  assumes T: "tree n G" and l: "log_chain (hist G) rf" "wf_raft rf" and L: "leader_ok n G (me rf) rf" "rstate rf = LeaderState"
    and c: "settled n G rf (commitIndex rf)"
  shows "sendLoop rf is = Some gs \<Longrightarrow> g \<in> set gs \<Longrightarrow> msg_ok n G (me rf) g"
proof (induction "is" arbitrary: gs)
  case (Cons j "is")
  obtain Q e where w: "(currentTerm rf, me rf, Q, e) \<in> set (wins G)" "on_line G (currentTerm rf) e (lastn rf)"
    and b: "sure n G (currentTerm rf) (base rf)" using L by (auto simp: leader_ok_def)
  show ?case
  proof (cases "j \<noteq> me rf \<and> g \<notin> set (the (sendLoop rf is))")
    case True
    then obtain x where x: "go_nth (nextIndex rf) j = Some x"
      "(if x > snapshotLastIndex rf then do {
                let logIndex = absoluteIndexToLogIndex rf x;
                prev \<leftarrow> go_nth (rlog rf) (logIndex - 1);
                entries \<leftarrow> go_from (rlog rf) logIndex;
                Some (SendEntries j (currentTerm rf) (x - 1) (Term prev) (commitIndex rf) entries)
              }
              else Some (SendInstallSnapshot j (currentTerm rf) (snapshotLastIndex rf)
                           (snapshotLastTerm rf) (snapshot rf))) = Some g"
      using Cons.prems by (auto simp: bind_Some_iff)
    show ?thesis
    proof (cases "x > snapshotLastIndex rf")
      case big: True
      let ?k = "nat (x - snapshotLastIndex rf - 1)"
      have n: "nat (x - snapshotLastIndex rf) = Suc ?k" using big by simp
      have k: "?k < length (rlog rf)" "snapshotLastIndex rf + int ?k = x - 1"
        and g: "g = SendEntries j (currentTerm rf) (x - 1) (Term (rlog rf ! ?k)) (commitIndex rf) (drop (Suc ?k) (rlog rf))"
        using x(2) big by (auto simp: bind_Some_iff go_nth_Some_iff go_from_Some_iff go_len_def absoluteIndexToLogIndex_def Let_def n)
      have "sent_end (x - 1) (Term (rlog rf ! ?k)) (drop (Suc ?k) (rlog rf)) = lastn rf"
        by (rule log_end_from [OF k])
      then show ?thesis using w settled_node [OF T l b c] unfolding g msg_ok_def goroutine.case max.idem by metis
    next
      case small: False
      then have g: "g = SendInstallSnapshot j (currentTerm rf) (snapshotLastIndex rf) (snapshotLastTerm rf) (snapshot rf)"
        using x(2) by simp
      show ?thesis using w b unfolding g msg_ok_def goroutine.case base_def by blast
    qed
  next
    case False
    then show ?thesis using Cons by (auto simp: bind_Some_iff split: if_splits)
  qed
qed simp

lemma StartSendEntries_msgs:
  assumes "tree n G" and "log_chain (hist G) rf" and "wf_raft rf" and "leader_ok n G (me rf) rf" and "rstate rf = LeaderState"
    and "settled n G rf (commitIndex rf)" and "StartSendEntries now rf = Some (rf', gs)" and "g \<in> set gs"
  shows "msg_ok n G (me rf) g \<and> (\<forall>t. \<not> asks t g)"
proof -
  let ?rf = "rf\<lparr>lastHeartBeat := now\<rparr>"
  have s: "sendLoop ?rf (go_range (npeers rf)) = Some gs" using assms(7) by (auto simp: StartSendEntries_def Let_def bind_Some_iff)
  have d: "same_data rf ?rf" by (simp add: same_data_def same_log_def)
  have "log_chain (hist G) ?rf" "wf_raft ?rf" "leader_ok n G (me ?rf) ?rf" "rstate ?rf = LeaderState" "settled n G ?rf (commitIndex ?rf)"
    using assms(2,3,5) leader_same [OF assms(4) d] matched_same [OF d] assms(4) settled_term [OF assms(6) same_dataD(1,3) [OF d]]
    by (auto simp: log_chain_def wf_raft_def leader_ok_def)
  from sendLoop_msgs [OF assms(1) this s assms(8)] sendLoop_asks [OF s assms(8)] show ?thesis by simp
qed

text \<open>Events that leave the data of a peer alone.\<close>

lemma safe_still:
  assumes S: "safe C G" and j: "j \<in> servers C" and L: "log_inv (spawn j gs (put j rf C)) (hist G)"
    and d: "same_data (peers C j) rf" and c: "commitIndex rf = commitIndex (peers C j)"
    and q: "currentTerm (peers C j) < currentTerm rf \<and> rstate rf \<noteq> LeaderState
      \<or> currentTerm rf = currentTerm (peers C j) \<and> rstate rf = rstate (peers C j) \<and> matchIndex rf = matchIndex (peers C j)"
    and gs: "\<And>g. g \<in> set gs \<Longrightarrow> msg_ok (nservers C) G j g \<and> (\<forall>t. \<not> asks t g)"
  shows "safe (spawn j gs (put j rf C)) G"
proof (rule safe_put [OF S j L _ _ gs])
  have t: "currentTerm (peers C j) \<le> currentTerm rf" using q by auto
  show "peer_ok (nservers C) G j rf"
    by (rule peer_same [OF safeD(3) [OF S j] d t])
       (use settled_term [OF peer_facts(7) [OF S j] same_dataD(1,3) [OF d] t] c in simp)
  show "leader_ok (nservers C) G j rf"
    by (rule leader_same [OF safeD(4) [OF S j] d]) (use q safeD(4) [OF S j] matched_same [OF d] in \<open>auto simp: leader_ok_def\<close>)
qed (use q d safeD(12) [OF S] in \<open>auto simp: same_dataD\<close>)

lemma tick_safe:
  assumes S: "safe C G" and s: "step (Tick i now) C = Some C'"
  shows "safe C' G"
proof -
  obtain rf gs where tk: "ticker now (peers C i) = (rf, gs)" by fastforce
  then have i: "i \<in> servers C" and C': "C' = spawn i gs (put i rf C)" using s by (auto split: if_splits)
  have "same_data (peers C i) rf \<and> commitIndex rf = commitIndex (peers C i) \<and> currentTerm rf = currentTerm (peers C i)
      \<and> rstate rf = rstate (peers C i) \<and> matchIndex rf = matchIndex (peers C i)"
    using tk by (auto simp: ticker_def same_data_def same_log_def split: if_splits)
  moreover have "msg_ok (nservers C) G i g \<and> (\<forall>t. \<not> asks t g)" if "g \<in> set gs" for g
    using tk that by (auto simp: ticker_def asks_def msg_ok_def split: if_splits)
  ultimately show ?thesis using safe_still [OF S i] tick_log [OF safeD(1) [OF S] s] C' by simp
qed

lemma heartbeat_safe:
  assumes S: "safe C G" and s: "step (Heartbeat i now) C = Some C'"
  shows "safe C' G"
proof -
  let ?D = "finish i RunHeartbeatCycle C"
  obtain rf gs where p: "(i, RunHeartbeatCycle) \<in> set (running C)" and h: "runHeartbeatCycle now (peers C i) = Some (rf, gs)"
    and C': "C' = spawn i gs (put i rf ?D)"
    using s by (auto simp: bind_Some_iff split: if_splits)
  have D: "safe ?D G" by (rule safe_fewer [OF fewer_finish _ _ S]) simp_all
  have i: "i \<in> servers C" by (rule running_caller [OF log_invD(1) [OF safeD(1) [OF S]] p])
  have "rf = peers C i \<or> rf = (peers C i)\<lparr>lastHeartBeat := now\<rparr>" using runHeartbeatCycle_shape [OF h] by blast
  then have "same_data (peers C i) rf \<and> commitIndex rf = commitIndex (peers C i) \<and> currentTerm rf = currentTerm (peers C i)
      \<and> rstate rf = rstate (peers C i) \<and> matchIndex rf = matchIndex (peers C i)"
    by (elim disjE) (simp_all add: same_data_def same_log_def)
  moreover have "msg_ok (nservers C) G i g \<and> (\<forall>t. \<not> asks t g)" if g: "g \<in> set gs" for g
  proof (cases "g = RunHeartbeatCycle")
    case False
    have L: "rstate (peers C i) = LeaderState" using h g by (auto simp: runHeartbeatCycle_def split: if_splits)
    obtain rf1 gs1 where st: "StartSendEntries now (peers C i) = Some (rf1, gs1)" "gs = gs1 @ [RunHeartbeatCycle]"
      using h L by (auto simp: runHeartbeatCycle_def bind_Some_iff)
    show ?thesis
      using StartSendEntries_msgs [OF safeD(2) [OF S] peer_facts(1,2) [OF S i] _ L peer_facts(7) [OF S i] st(1), of g]
        safeD(4) [OF S i] peer_facts(3) [OF S i] g st(2) False by simp
  qed (simp add: msg_ok_def asks_def)
  ultimately show ?thesis using safe_still [OF D, of i gs rf] heartbeat_log [OF safeD(1) [OF S] s] C' i by simp
qed

lemma snapshot_safe:
  assumes S: "safe C G" and c: "index \<le> lastApplied (peers C i)" and s: "step (TakeSnapshot i index snap) C = Some C'"
  shows "safe C' G"
proof -
  let ?rf = "peers C i"
  obtain rf where i: "i \<in> servers C" and h: "Snapshot index snap ?rf = Some rf" and C': "C' = put i rf C"
    using s by (auto simp: bind_Some_iff split: if_splits)
  note T = safeD(2) [OF S] and P = peer_facts [OF S i]
  have L: "log_inv (spawn i [] (put i rf C)) (hist G)" and e: "C' = spawn i [] (put i rf C)"
    using local_log(1) [OF safeD(1) [OF S] s] by (simp_all add: C' spawn_def put_def)
  show ?thesis
  proof (cases "snapshotLastIndex ?rf < index")
    case False
    then have "rf = persist ?rf" using h by (simp add: Snapshot_def)
    then show ?thesis using safe_still [OF S i L] e by simp
  next
    case True
    have a: "index \<le> fst (lastn ?rf)" using c P(8) by (simp add: settled_def)
    then have ll: "index < logLength ?rf" by (simp add: lastn_def)
    let ?k = "nat (index - snapshotLastIndex ?rf)"
    have k: "?k < length (rlog ?rf)" "snapshotLastIndex ?rf + int ?k = index"
      using True ll by (auto simp: logLength_def go_len_def nat_less_iff)
    have r: "currentTerm rf = currentTerm ?rf" "rstate rf = rstate ?rf" "commitIndex rf = commitIndex ?rf" "lastApplied rf = lastApplied ?rf"
      "isSnapshotApplied rf = isSnapshotApplied ?rf" "matchIndex rf = matchIndex ?rf" "snapshotLastIndex rf = index"
      "base rf = (index, Term (rlog ?rf ! ?k))"
      using h by (auto simp: Snapshot_closed [OF True ll] Let_def base_def)
    have "rlog rf = \<lparr>Term = Term (rlog ?rf ! ?k), Command = None\<rparr> # drop (Suc ?k) (rlog ?rf)"
      using h by (auto simp: Snapshot_closed [OF True ll] Let_def)
    then have lst: "lastn rf = lastn ?rf" using log_end_from [of 0 rf index] log_end_from [OF k] r(7) by simp
    have "\<not> lastApplied ?rf \<le> snapshotLastIndex ?rf" using c True by simp
    then obtain x where x: "fst x = lastApplied ?rf" "anc (hist G) x (lastn ?rf)" "sure (nservers C) G (currentTerm ?rf) x"
      using P(8) unfolding settled_def by blast
    have "anc (hist G) (base rf) (lastn ?rf)" using log_node [OF P(1,2) k(1)] k(2) r(8) by simp
    then have "anc (hist G) (base rf) x" using anc_linear [OF x(2)] x(1) c r(8) by simp
    then have b: "sure (nservers C) G (currentTerm ?rf) (base rf)" by (rule sure_anc [OF x(3) _ T])
    have st: "settled (nservers C) G rf k" if "settled (nservers C) G ?rf k" for k
      using that True unfolding settled_def lst r by auto
    have "peer_ok (nservers C) G i rf"
      using safeD(3) [OF S i] st b c unfolding peer_ok_def lst r by blast
    moreover have "matched (nservers C) G ?rf q m \<Longrightarrow> matched (nservers C) G rf q m" for q m
      using True unfolding matched_def lst r by force
    then have "leader_ok (nservers C) G i rf" using safeD(4) [OF S i] b unfolding leader_ok_def lst r by blast
    ultimately show ?thesis using safe_put [OF S i L] b lst r safeD(12) [OF S] e by simp
  qed
qed

lemma settled_down:
  assumes T: "tree n G" and s: "settled n G rf c" and i: "0 \<le> i" "i \<le> c" and N: "lastn rf \<in> nodes (hist G)"
  shows "settled n G rf i"
proof (cases "i \<le> snapshotLastIndex rf")
  case False
  then obtain x where x: "fst x = c" "anc (hist G) x (lastn rf)" "sure n G (currentTerm rf) x" using s i unfolding settled_def by auto
  obtain y where y: "fst y = i" "anc (hist G) y x" using anc_at [OF T sure_node [OF T x(3)] i(1)] i(2) x(1) by blast
  have "i \<le> fst (lastn rf)" using s i(2) by (simp add: settled_def)
  then show ?thesis using y anc_trans [OF x(2) y(2)] sure_anc [OF x(3) y(2) T] i(1) unfolding settled_def by blast
qed (use s i in \<open>auto simp: settled_def\<close>)

lemma log_hist:
  assumes "log_chain H rf" and "wf_raft rf" and "0 < k" and "k < length (rlog rf)"
  shows "\<exists>u. H (snapshotLastIndex rf + int k, Term (rlog rf ! k)) = Some (Command (rlog rf ! k), u)"
proof -
  obtain m where m: "k = Suc m" using assms(3) by (cases k) simp_all
  have "chain H (snapshotLastIndex rf + int m) (Term (rlog rf ! m)) (rlog rf ! k # drop (Suc k) (rlog rf))"
    using log_chain_from [OF assms(1) wf_rlogD [OF assms(2)], of m] assms(4) Cons_nth_drop_Suc [OF assms(4)] by (simp add: m)
  then show ?thesis by (simp add: m add.commute add.left_commute)
qed

lemma applyTicker_effect:
  assumes a: "applyTicker pc rf = Some (rf', pc', msg)" and k: "\<forall>k. pc = SentSnapshot k \<longrightarrow> k \<le> lastApplied rf"
    and s: "isSnapshotApplied rf \<longrightarrow> snapshotLastIndex rf \<le> lastApplied rf"
  shows "same_log rf rf' \<and> snapshotLastTerm rf' = snapshotLastTerm rf \<and> commitIndex rf' = commitIndex rf \<and> currentTerm rf' = currentTerm rf
      \<and> rstate rf' = rstate rf \<and> matchIndex rf' = matchIndex rf"
    and "lastApplied rf' \<in> {lastApplied rf, snapshotLastIndex rf} \<or> lastApplied rf' = lastApplied rf + 1 \<and> lastApplied rf' \<le> commitIndex rf"
    and "isSnapshotApplied rf' \<Longrightarrow> snapshotLastIndex rf' \<le> lastApplied rf'" and "pc' = SentSnapshot j \<Longrightarrow> j \<le> lastApplied rf'"
    and "msg = Some (CommandMsg c i) \<Longrightarrow> i = lastApplied rf' \<and> snapshotLastIndex rf < i \<and> nat (i - snapshotLastIndex rf) < length (rlog rf)
      \<and> c = Command (rlog rf ! nat (i - snapshotLastIndex rf))"
  using a k s
  by (auto simp: applyTicker_def applySnapshots_def applyCommands_def same_log_def bind_Some_iff go_nth_Some_iff go_len_def
      absoluteIndexToLogIndex_def Let_def nat_less_iff split: apply_pc.splits if_splits)

lemma apply_safe:
  assumes S: "safe C G" and s: "step (Apply i) C = Some C'"
  shows "safe C' G"
proof -
  let ?rf = "peers C i"
  obtain rf pc m where i: "i \<in> servers C" and a: "applyTicker (applying C i) ?rf = Some (rf, pc, m)"
    and C': "C' = (put i rf C)\<lparr>applying := (applying C)(i := pc),
                delivered := (delivered C)(i := delivered C i @ (case m of None \<Rightarrow> [] | Some m \<Rightarrow> [m]))\<rparr>"
    using s by (auto simp: bind_Some_iff split: if_splits)
  note T = safeD(2) [OF S] and P = peer_facts [OF S i] and L = local_log(2) [OF safeD(1) [OF S] s]
  have ap: "\<forall>k. applying C i = SentSnapshot k \<longrightarrow> k \<le> lastApplied ?rf" "isSnapshotApplied ?rf \<longrightarrow> snapshotLastIndex ?rf \<le> lastApplied ?rf"
    using safeD(3) [OF S i] safeD(12) [OF S] by (auto simp: peer_ok_def)
  note E = applyTicker_effect [OF a ap]
  have d: "lastn rf = lastn ?rf" "base rf = base ?rf" "snapshotLastIndex rf = snapshotLastIndex ?rf"
    using E(1) by (auto simp: same_log_def lastn_def base_def logLength_def)
  have st: "settled (nservers C) G rf k = settled (nservers C) G ?rf k" for k using E(1) by (simp add: settled_def d)
  have "settled (nservers C) G ?rf (snapshotLastIndex ?rf)"
    using P(2) anc_le [OF P(5)] by (simp add: settled_def wf_raft_def base_def)
  moreover have "settled (nservers C) G ?rf (lastApplied ?rf + 1)" if "lastApplied ?rf + 1 \<le> commitIndex ?rf"
    by (rule settled_down [OF T P(7) _ that P(4)]) (use P(8) in \<open>simp add: settled_def\<close>)
  ultimately have la: "settled (nservers C) G ?rf (lastApplied rf)" using E(2) P(8) by auto
  have "peer_ok (nservers C) G i rf" using safeD(3) [OF S i] E(1,3) la unfolding peer_ok_def st d by auto
  moreover have "leader_ok (nservers C) G i rf"
    using safeD(4) [OF S i] E(1) unfolding leader_ok_def matched_def d by auto
  moreover have "\<exists>t u T. hist G (k, t) = Some (c, u) \<and> sure (nservers C) G T (k, t)" if m: "m = Some (CommandMsg c k)" for c k
  proof -
    let ?k = "nat (k - snapshotLastIndex ?rf)"
    note M = E(5) [OF m]
    obtain x where x: "fst x = k" "anc (hist G) x (lastn ?rf)" "sure (nservers C) G (currentTerm ?rf) x"
      using la M unfolding settled_def by auto
    have "x = (k, Term (rlog ?rf ! ?k))" using log_at(2) [OF P(1,2) x(2)] x(1) M by simp
    moreover have "0 < ?k" "snapshotLastIndex ?rf + int ?k = k" using M by auto
    ultimately show ?thesis using log_hist [OF P(1,2), of ?k] x(3) M by auto
  qed
  moreover have "idle C' V k = idle C V k" for V k by (simp add: idle_def pending_def C')
  moreover have "cand_ok C' G i" if "\<not> idle C (currentTerm rf) i" "rstate rf \<noteq> LeaderState"
  proof -
    have "cand_ok C G i" by (rule safeD(11) [OF S]) (use that E(1) in auto)
    then show ?thesis by (rule cand_mono) (use E(1) d in \<open>auto simp: C'\<close>)
  qed
  ultimately show ?thesis
    by (intro safe_change [OF S i L T _ grows_refl]) (use E(1,4) in \<open>auto simp: C' pending_def split: if_splits option.splits\<close>)
qed

lemma restart_safe:
  assumes S: "safe C G" and s: "step (Restart i) C = Some C'"
  shows "safe C' G"
proof -
  let ?rf = "peers C i"
  obtain rf where i: "i \<in> servers C" and m: "Make (nservers C) i (persister ?rf) = Some rf"
    and C': "nservers C' = nservers C" "peers C' = (peers C)(i := rf)" "grants C' = grants C" "applying C' = (applying C)(i := ApplyTop)"
      "running C' = filter (\<lambda>(k, g). k \<noteq> i) (running C)" "replies C' = filter (\<lambda>(k, g, r). k \<noteq> i) (replies C)"
      "orphans C' = orphans C @ filter (\<lambda>(k, g). k = i) (running C)" "delivered C' = delivered C"
    using s by (auto simp: bind_Some_iff split: if_splits)
  note P = peer_facts [OF S i] and G = peer_props(1) [OF safeD(1) [OF S] i]
  note M = Make_good [OF G m] and F = Make_frame [OF m]
  have sd: "same_log ?rf rf" "snapshotLastTerm rf = snapshotLastTerm ?rf" using G m by (auto simp: good_def durable_def same_log_def)
  have pr: "commitIndex rf = snapshotLastIndex rf" "lastApplied rf = snapshotLastIndex rf"
    using m by (auto simp: Make_def readPersist_def bind_Some_iff Let_def split: if_splits)
  have d: "lastn rf = lastn ?rf" "base rf = base ?rf" "snapshotLastIndex rf = snapshotLastIndex ?rf"
    using sd by (auto simp: same_log_def lastn_def base_def logLength_def)
  have "settled (nservers C) G rf (snapshotLastIndex ?rf)" using P(2) anc_le [OF P(5)] by (simp add: settled_def wf_raft_def base_def d)
  then have ok: "peer_ok (nservers C) G i rf" using safeD(3) [OF S i] M(2) unfolding peer_ok_def d pr by simp
  have p: "(k, h) \<in> pending C \<and> k \<noteq> i" if "(k, h) \<in> pending C'" for k h
    using that by (auto simp: pending_def C' image_iff)
  have p1: "pending C' \<subseteq> pending C" and p2: "\<And>h. (i, h) \<notin> pending C'" using p by auto
  have id: "idle C' V i" for V using p2 by (simp add: idle_def)
  have id': "idle C V k \<Longrightarrow> idle C' V k" for V k using p1 unfolding idle_def by blast
  show ?thesis
  proof (rule safe_change [OF S i restart_log [OF safeD(1) [OF S] s] safeD(2) [OF S] C'(1) grows_refl])
    show "(k, g) \<in> pending C \<union> set (orphans C) \<or> msg_ok (nservers C) G k g" if "(k, g) \<in> pending C' \<union> set (orphans C')" for k g
      using that p unfolding C' by (auto intro: pending_running)
  qed (use ok id id' F M(2) in \<open>simp_all add: C' leader_ok_def\<close>)
qed

lemma as_good_anc: "tree n G \<Longrightarrow> anc (hist G) x e \<Longrightarrow> e \<in> nodes (hist G) \<Longrightarrow> as_good e x"
  using anc_node [of n G x e] anc_le [of "hist G" x e] unfolding as_good_def by linarith

lemma own_vote:
  assumes S: "safe C G" and j: "j \<in> servers C" and e: "elogs G' (V, p) = Some e" "as_good e (lastn (peers C j))"
    and G': "hist G' = hist G" "wins G' = wins G" "acks G' = acks G"
  shows "vote_ok G' V j p"
proof -
  have "as_good e x" if "as_good (lastn (peers C j)) x" for x using that e(2) unfolding as_good_def by auto
  then show ?thesis
    using safeD(3) [OF S j] as_good_anc [OF safeD(2) [OF S] _ peer_facts(4) [OF S j]] e(1) unfolding vote_ok_def peer_ok_def G' by blast
qed

lemma won_dooms:
  assumes S: "safe C G" and w: "u \<in> terms (wins G)" "V < u" and i: "currentTerm (peers C i) < V"
    and C': "nservers C' = nservers C" "\<And>k. k \<noteq> i \<Longrightarrow> peers C' k = peers C k" "grants C' \<subseteq> insert (V, i, i) (grants C)"
  shows "doomed C' V i"
proof -
  obtain p Q e where w': "(u, p, Q, e) \<in> set (wins G)" using w(1) by (auto simp: terms_def)
  have q: "quorum (nservers C) Q" using wins_okD [OF treeD(2) [OF safeD(2) [OF S]] w'] by simp
  have "V < currentTerm (peers C' j) \<and> (V, j, i) \<notin> grants C'" if j: "j \<in> Q" for j
  proof -
    have "u \<le> currentTerm (peers C j)"
      using safeD(9) [OF S w' j] log_invD(1) [OF safeD(1) [OF S]] unfolding vote_inv_def inv_grant_def by blast
    then have "V < currentTerm (peers C j)" "j \<noteq> i" using w(2) i by auto
    moreover have "(V, j, i) \<notin> grants C" using log_invD(6) [OF safeD(1) [OF S], of V j i] i by auto
    ultimately show ?thesis using C'(2,3) by auto
  qed
  then show ?thesis using q C'(1) unfolding doomed_def by auto
qed

lemma startElection_asks:
  assumes "startElection rf = Some (rf', gs)" and "wf_raft rf" and "g \<in> set gs"
  shows "\<exists>j. g = SendRequestVote j (currentTerm rf + 1) (fst (lastn rf)) (snd (lastn rf))"
proof -
  have ne: "rlog rf \<noteq> []" using assms(2) by (rule wf_rlogD)
  have l: "nat (int (length (rlog rf)) - 1) = length (rlog rf) - Suc 0" by linarith
  have loop: "voteLoop rf1 l is = Some hs \<Longrightarrow> g \<in> set hs \<Longrightarrow> rlog rf1 = rlog rf \<Longrightarrow>
    \<exists>j. g = SendRequestVote j (currentTerm rf1) l (Term (last (rlog rf)))" for rf1 l "is" hs
    using ne by (induction "is" arbitrary: hs)
      (auto simp: bind_Some_iff go_nth_Some_iff go_len_def last_conv_nth l split: if_splits)
  obtain vs where "voteLoop (rf\<lparr>currentTerm := currentTerm rf + 1, rstate := CandidateState, votedFor := me rf, votesReceived := vs\<rparr>)
      (logLength rf - 1) (go_range (npeers rf)) = Some gs"
    using assms(1) by (auto simp: startElection_def Let_def bind_Some_iff logLength_def)
  from loop [OF this assms(3)] show ?thesis by (simp add: lastn_def)
qed

lemma elect_safe:
  assumes S: "safe C G" and s: "step (Elect i) C = Some C'"
  shows "\<exists>G'. safe C' G'"
proof -
  let ?D = "finish i StartElection C" and ?rf = "peers C i"
  obtain rf gs where p: "(i, StartElection) \<in> set (running C)" and e: "startElection ?rf = Some (rf, gs)"
    and C': "C' = spawn i gs (grant (currentTerm rf) i i (put i rf ?D))"
    using s by (auto simp: bind_Some_iff split: if_splits)
  let ?V = "currentTerm ?rf + 1"
  let ?G = "G\<lparr>elogs := (elogs G)((?V, i) \<mapsto> lastn ?rf)\<rparr>"
  have D: "safe ?D G" by (rule safe_fewer [OF fewer_finish _ _ S]) simp_all
  have i: "i \<in> servers C" by (rule running_caller [OF log_invD(1) [OF safeD(1) [OF S]] p])
  note T = safeD(2) [OF S] and P = peer_facts [OF S i]
  note E = startElection_shape [OF e P(2)]
  have d: "same_data ?rf rf" "commitIndex rf = commitIndex ?rf" "currentTerm rf = ?V" "rstate rf = CandidateState"
    using e by (auto simp: startElection_def Let_def bind_Some_iff same_data_def same_log_def)
  have T': "tree (nservers C) ?G" using T by (simp add: tree_def)
  have g: "grows G ?G" by (simp add: grows_def)
  have V: "0 < ?V" using safeD(3) [OF S i] by (simp add: peer_ok_def)
  have po: "peer_ok (nservers C) ?G i rf"
    by (rule peer_same [OF grows_peer [OF g T T' safeD(3) [OF S i]] d(1)])
       (use d settled_term [OF grows_basic(9) [OF g P(7)] same_dataD(1,3) [OF d(1)]] in simp_all)
  have mo: "msg_ok (nservers C) ?G i x" if "x \<in> set gs" for x
    using startElection_asks [OF e P(2) that] by (auto simp: msg_ok_def)
  have vo: "vote_ok ?G ?V i i" by (rule own_vote [OF S i]) (auto simp: as_good_def)
  have co: "cand_ok C' ?G i"
  proof (cases "\<exists>u \<in> terms (wins G). ?V \<le> u")
    case True
    then obtain u where u: "u \<in> terms (wins G)" "?V \<le> u" by blast
    have "doomed C' ?V i" if "?V \<noteq> u" by (rule won_dooms [OF S u(1)]) (use that u(2) d in \<open>auto simp: C'\<close>)
    then show ?thesis using u(1) d by (cases "?V = u") (simp_all add: cand_ok_def C' same_dataD [OF d(1)] Let_def)
  next
    case False
    have lt: "u < ?V" if "(k, u) \<in> dom (hist G)" for k u
      using win_below [OF T that] in_terms False by force
    have "snd (lastn ?rf) < ?V" using P(4) lt [of "fst (lastn ?rf)" "snd (lastn ?rf)"] V by (auto simp: nodes_def)
    moreover have "sure (nservers C) G ?V (base ?rf)"
      using P(6) lt unfolding sure_def chosen_def by (metis less_imp_le prod.collapse)
    then have "sure (nservers C) ?G ?V (base ?rf)" using grows_basic(7) [OF g] by blast
    ultimately show ?thesis using d by (simp add: cand_ok_def C' same_dataD [OF d(1)] Let_def)
  qed
  have id: "idle ?D W k \<Longrightarrow> idle C' W k" if "k \<noteq> i" for W k using that by (auto simp: idle_def C')
  have L: "log_inv C' (hist ?G)" using elect_log [OF safeD(1) [OF S] s] by simp
  have "safe C' ?G"
  proof (rule safe_change [OF D _ L _ _ g, of i])
    show "(k, x) \<in> pending ?D \<union> set (orphans ?D) \<or> msg_ok (nservers ?D) ?G k x" if "(k, x) \<in> pending C' \<union> set (orphans C')" for k x
      using that mo by (auto simp: C')
    show "applying C' i = SentSnapshot k \<Longrightarrow> k \<le> lastApplied (peers C' i)" for k
      using safeD(12) [OF S] d(1) by (simp add: C' same_dataD)
  qed (use i T' d po vo co id in \<open>auto simp: C' leader_ok_def\<close>)
  then show ?thesis by blast
qed

text \<open>The histories when a server acknowledges entries of its term, or a leader takes a command.\<close>

lemma wins_ok_mono:
  assumes T: "tree n G" and H: "hist G \<subseteq>\<^sub>m H'" "H' (0, 0) = None"
    and A: "\<And>j x V p Q e. (j, x) \<in> A' \<Longrightarrow> (j, x) \<notin> acks G \<Longrightarrow> (V, p, Q, e) \<in> set (wins G) \<Longrightarrow> j \<in> Q \<Longrightarrow> V \<le> snd x"
  shows "set ws \<subseteq> set (wins G) \<Longrightarrow> wins_ok n (hist G) (acks G) ws \<Longrightarrow> wins_ok n H' A' ws"
proof (induction ws)
  case (Cons w ws)
  obtain V p Q e where w: "w = (V, p, Q, e)" by (cases w) auto
  have sub: "set ws \<subseteq> set (wins G)" "(V, p, Q, e) \<in> set (wins G)" using Cons.prems(1) w by auto
  have lk: "lacks H' ws x" if l: "lacks (hist G) ws x" for x
  proof -
    obtain u q R f where l: "(u, q, R, f) \<in> set ws" "snd x < u" "\<not> anc (hist G) x f" using l unfolding lacks_def by blast
    have "f \<in> nodes (hist G)" using win_node [OF T, of u q R f] l(1) sub(1) by blast
    then have "\<not> anc H' x f" using anc_back [OF T H] l(3) by blast
    then show ?thesis using l(1,2) unfolding lacks_def by blast
  qed
  have W: "V \<notin> terms ws \<and> 0 < V \<and> snd e < V \<and> quorum n Q" "e = (0, 0) \<or> e \<in> dom (hist G) \<and> snd e \<in> terms ws"
    "\<And>j x. j \<in> Q \<Longrightarrow> (j, x) \<in> acks G \<Longrightarrow> snd x < V \<Longrightarrow> as_good e x \<or> lacks (hist G) ws x" "wins_ok n (hist G) (acks G) ws"
    using Cons.prems(2) unfolding w wins_ok.simps by blast+
  have "as_good e x \<or> lacks H' ws x" if j: "j \<in> Q" and x: "(j, x) \<in> A'" "snd x < V" for j x
    using W(3) [OF j, of x] A [OF x(1) _ sub(2) j] x(2) lk [of x] by (cases "(j, x) \<in> acks G") auto
  moreover have "e = (0, 0) \<or> e \<in> dom H' \<and> snd e \<in> terms ws" using W(2) map_le_implies_dom_le [OF H(1)] by blast
  ultimately show ?case using W(1) Cons.IH [OF sub(1) W(4)] unfolding w wins_ok.simps by blast
qed simp

lemma voted_term: "safe C G \<Longrightarrow> (V, p, Q, e) \<in> set (wins G) \<Longrightarrow> j \<in> Q \<Longrightarrow> V \<le> currentTerm (peers C j)"
  using safeD(9) [of C G V p Q e j] log_invD(1) [OF safeD(1), of C G] unfolding vote_inv_def inv_grant_def by blast

definition take_entry :: "int \<Rightarrow> 'c \<Rightarrow> 'c Raft \<Rightarrow> 'c ghost \<Rightarrow> 'c ghost" where
  "take_entry i c rf G = G\<lparr>hist := (hist G)((logLength rf, currentTerm rf) \<mapsto> (Some c, Term (last (rlog rf)))),
     acks := insert (i, logLength rf, currentTerm rf) (acks G)\<rparr>"

lemma take_entry_tree:
  assumes S: "safe C G" and i: "i \<in> servers C" and L: "rstate (peers C i) = LeaderState"
  shows "(logLength (peers C i), currentTerm (peers C i)) \<notin> dom (hist G)" "grows G (take_entry i c (peers C i) G)"
    "tree (nservers C) (take_entry i c (peers C i) G)"
proof -
  let ?rf = "peers C i" and ?G = "take_entry i c (peers C i) G"
  let ?z = "(logLength (peers C i), currentTerm (peers C i))"
  note T = safeD(2) [OF S] and P = peer_facts [OF S i]
  have lo: "(k, currentTerm ?rf) \<in> dom (hist G) \<Longrightarrow> k \<le> fst (lastn ?rf)" for k
    using safeD(4) [OF S i] L unfolding leader_ok_def by blast
  show z: "?z \<notin> dom (hist G)" using lo [of "logLength ?rf"] by (auto simp: lastn_def)
  then have le: "hist G \<subseteq>\<^sub>m hist ?G" by (auto simp: take_entry_def map_le_def)
  then show g: "grows G ?G" by (auto simp: grows_def take_entry_def)
  have pos: "0 < logLength ?rf" using node_nonneg [OF T P(4)] by (simp add: lastn_def)
  have no: "hist ?G (0, 0) = None" using tree_no_root [OF T, of 0] pos by (auto simp: take_entry_def)
  have "wins_ok (nservers C) (hist ?G) (acks ?G) (wins G)"
  proof (rule wins_ok_mono [OF T le no])
    show "V \<le> snd x" if "(j, x) \<in> acks ?G" "(j, x) \<notin> acks G" "(V, p, Q, e) \<in> set (wins G)" "j \<in> Q" for j x V p Q e
      using voted_term [OF S that(3,4)] that(1,2) by (auto simp: take_entry_def)
  qed (use treeD(2) [OF T] in simp_all)
  then have "wins_ok (nservers C) (hist ?G) (acks ?G) (wins ?G)" by (simp add: take_entry_def)
  moreover have "0 < k \<and> (u = t \<and> (k - 1, t) \<in> dom (hist ?G) \<or> (\<exists>p Q. (t, p, Q, k - 1, u) \<in> set (wins ?G)))"
    if h: "hist ?G (k, t) = Some (d, u)" for k t d u
  proof (cases "(k, t) = ?z")
    case True
    obtain Q e where w: "(currentTerm ?rf, i, Q, e) \<in> set (wins G)" "on_line G (currentTerm ?rf) e (lastn ?rf)"
      using safeD(4) [OF S i] L unfolding leader_ok_def by blast
    have l: "lastn ?rf = (k - 1, u)" using h True by (simp add: take_entry_def lastn_def)
    have "e = (k - 1, u) \<or> u = t \<and> (k - 1, t) \<in> dom (hist G)" using w(2) True unfolding on_line_def l by auto
    then show ?thesis using w(1) True pos grows_basic(2,4) [OF g] by blast
  next
    case False
    then have "hist G (k, t) = Some (d, u)" using h by (auto simp: take_entry_def split: if_splits)
    then show ?thesis using treeD(3) [OF T] grows_basic(2,4) [OF g] by blast
  qed
  ultimately show "tree (nservers C) ?G" using treeD(1) [OF T] unfolding tree_def by blast
qed

lemma propose_peer:
  assumes S: "safe C G" and i: "i \<in> servers C" and L: "rstate (peers C i) = LeaderState"
    and l: "rlog rf = rlog (peers C i) @ [\<lparr>Term = currentTerm (peers C i), Command = Some c\<rparr>]"
    and m: "matchIndex rf = (matchIndex (peers C i))[nat i := logLength (peers C i)]"
    and eq: "currentTerm rf = currentTerm (peers C i)" "rstate rf = rstate (peers C i)" "commitIndex rf = commitIndex (peers C i)"
      "lastApplied rf = lastApplied (peers C i)" "isSnapshotApplied rf = isSnapshotApplied (peers C i)"
      "snapshotLastIndex rf = snapshotLastIndex (peers C i)" "snapshotLastTerm rf = snapshotLastTerm (peers C i)"
  shows "peer_ok (nservers C) (take_entry i c (peers C i) G) i rf" "leader_ok (nservers C) (take_entry i c (peers C i) G) i rf"
proof -
  let ?rf = "peers C i" and ?G = "take_entry i c (peers C i) G" and ?V = "currentTerm (peers C i)" and ?l = "logLength (peers C i)"
  let ?n = "nservers C"
  note T = safeD(2) [OF S] and P = peer_facts [OF S i] and E = take_entry_tree [OF S i L]
  note g = E(2) [of c]
  have z: "lastn rf = (?l, ?V)" by (simp add: lastn_def l logLength_def go_len_def eq)
  have b: "base rf = base ?rf" by (simp add: base_def eq)
  have up: "anc (hist ?G) (lastn ?rf) (?l, ?V)"
    by (rule anc_up [of _ _ _ "Some c" "Term (last (rlog ?rf))"]) (simp_all add: take_entry_def lastn_def)
  have st: "settled ?n ?G rf k" if "settled ?n G ?rf k" for k
    using grows_basic(9) [OF g that] anc_trans [OF up] unfolding settled_def z eq by (auto simp: lastn_def)
  have "snd x \<le> ?V \<and> (anc (hist ?G) x (?l, ?V) \<or> lacks (hist ?G) (wins ?G) x)" if "(i, x) \<in> acks ?G" for x
  proof (cases "(i, x) \<in> acks G")
    case True
    then show ?thesis
      using safeD(3) [OF S i] grows_basic(1) [OF g] anc_trans [OF up] grows_lacks [OF g T E(3)] unfolding peer_ok_def by blast
  qed (use that in \<open>auto simp: take_entry_def\<close>)
  then show "peer_ok ?n ?G i rf"
    using safeD(3) [OF S i] st grows_basic(7) [OF g] unfolding peer_ok_def z b eq by blast
  have L0: "\<exists>Q e. (?V, i, Q, e) \<in> set (wins G)" "(k, ?V) \<in> dom (hist G) \<Longrightarrow> k \<le> fst (lastn ?rf) \<and> (i, k, ?V) \<in> acks G"
    "sure ?n G ?V (base ?rf)" "q < ?n \<Longrightarrow> matched ?n G ?rf (int q) (matchIndex ?rf ! q)" for k q
    using safeD(4) [OF S i] L unfolding leader_ok_def by blast+
  have d: "(?l, ?V) \<in> dom (hist ?G)" "(k, ?V) \<in> dom (hist ?G) \<Longrightarrow> k = ?l \<or> (k, ?V) \<in> dom (hist G)" "(i, ?l, ?V) \<in> acks ?G" for k
    by (auto simp: take_entry_def split: if_splits)
  have own: "k \<le> ?l \<and> (i, k, ?V) \<in> acks ?G" if "(k, ?V) \<in> dom (hist ?G)" for k
    using d(2) [OF that]
  proof
    assume k: "(k, ?V) \<in> dom (hist G)"
    show ?thesis using L0(2) [OF k] grows_basic(3) [OF g] by (simp add: lastn_def)
  qed (use d(3) in simp)
  have "matched ?n ?G rf (int q) (matchIndex rf ! q)" if q: "q < ?n" for q
  proof (cases "q = nat i")
    case True
    have "matchIndex rf ! q = ?l"
      using P(2) q i True peer_props(1) [OF safeD(1) [OF S] i] by (simp add: m wf_raft_def good_def)
    then show ?thesis using own i True unfolding matched_def z eq by (simp add: servers_def)
  next
    case False
    then have "matchIndex rf ! q = matchIndex ?rf ! q" by (simp add: m)
    moreover have "matched ?n ?G rf (int q) k" if k: "matched ?n G ?rf (int q) k" for k
    proof -
      have "j \<noteq> ?l" if "j \<le> k" for j using that k by (auto simp: matched_def lastn_def)
      then show ?thesis using k d(2) grows_basic(3,7) [OF g] unfolding matched_def z eq by (fastforce simp: lastn_def)
    qed
    ultimately show ?thesis using L0(4) [OF q] by simp
  qed
  moreover have "\<exists>Q e. (?V, i, Q, e) \<in> set (wins ?G) \<and> on_line ?G ?V e (?l, ?V)"
    using L0(1) grows_basic(4) [OF g] d(1) unfolding on_line_def by force
  ultimately show "leader_ok ?n ?G i rf"
    using own grows_basic(7) [OF g L0(3)] unfolding leader_ok_def z b eq by simp
qed

lemma propose_safe:
  assumes S: "safe C G" and s: "step (Propose i now c) C = Some C'"
  shows "\<exists>G'. safe C' G'"
proof -
  let ?rf = "peers C i" and ?n = "nservers C"
  obtain rf gs res where i: "i \<in> servers C" and h: "Start now c ?rf = Some (rf, gs, res)" and C': "C' = spawn i gs (put i rf C)"
    using s by (auto simp: bind_Some_iff split: if_splits)
  note T = safeD(2) [OF S] and P = peer_facts [OF S i] and L' = propose_log [OF safeD(1) [OF S] s]
  show ?thesis
  proof (cases "rstate ?rf = LeaderState")
    case False
    then have "rf = persist ?rf" "gs = []" using h by (auto simp: Start_def)
    then have "safe C' G" using safe_still [OF S i, of gs rf] L' C' False by (simp add: record_entry_def)
    then show ?thesis by blast
  next
    case L: True
    let ?e = "\<lparr>Term = currentTerm ?rf, Command = Some c\<rparr>" and ?G = "take_entry i c ?rf G"
    obtain mi rf2 where mi: "go_upd (matchIndex ?rf) (me ?rf) (logLength ?rf + 1 - 1) = Some mi"
      and st: "StartSendEntries now (?rf\<lparr>rlog := rlog ?rf @ [?e], matchIndex := mi\<rparr>) = Some (rf2, gs)" and rf: "rf = persist rf2"
      using h L by (auto simp: Start_def bind_Some_iff Let_def logLength_def)
    let ?rf1 = "?rf\<lparr>rlog := rlog ?rf @ [?e], matchIndex := mi\<rparr>"
    have rf2: "rf2 = ?rf1\<lparr>lastHeartBeat := now\<rparr>" by (rule StartSendEntries_shape [OF st])
    have mi': "mi = (matchIndex ?rf)[nat i := logLength ?rf]" using mi P(3) by (simp add: go_upd_Some_iff)
    note E = take_entry_tree [OF S i L]
    have po: "peer_ok ?n ?G i rf" "leader_ok ?n ?G i rf" by (rule propose_peer [OF S i L]; simp add: rf rf2 mi')+
    have po1: "peer_ok ?n ?G i ?rf1" "leader_ok ?n ?G i ?rf1" by (rule propose_peer [OF S i L]; simp add: mi')+
    have h': "hist ?G = record_entry ?rf c (hist G)" using L by (simp add: take_entry_def record_entry_def)
    have "log_chain (hist ?G) rf" using log_invD(3) [OF L', of i] i h' by (simp add: C' servers_def)
    then have lc: "log_chain (hist ?G) ?rf1" by (simp add: log_chain_def rf rf2)
    have wf: "wf_raft ?rf1" using P(2) by (simp add: wf_raft_def mi')
    have mo: "msg_ok ?n ?G i g \<and> (\<forall>t. \<not> asks t g)" if "g \<in> set gs" for g
      using StartSendEntries_msgs [OF E(3) lc wf _ _ _ st that] po1 L P(3) by (simp add: peer_ok_def)
    have id: "idle C V k \<Longrightarrow> idle C' V k" for V k using mo by (auto simp: idle_def C')
    have "safe C' ?G"
    proof (rule safe_change [OF S i _ E(3) _ E(2)])
      show "log_inv C' (hist ?G)" using L' h' by simp
      show "(k, x) \<in> pending C \<union> set (orphans C) \<or> msg_ok ?n ?G k x" if "(k, x) \<in> pending C' \<union> set (orphans C')" for k x
        using that mo by (auto simp: C')
      show "applying C' i = SentSnapshot k \<Longrightarrow> k \<le> lastApplied (peers C' i)" for k
        using safeD(12) [OF S] by (simp add: C' rf rf2)
    qed (use po id L in \<open>auto simp: C' rf rf2 take_entry_def split: if_splits\<close>)
    then show ?thesis by blast
  qed
qed

section \<open>Events of the network\<close>

lemma merge_end:
  "chain H i t xs \<Longrightarrow> chain H i t ys \<Longrightarrow> if anc H (sent_end i t ys) (sent_end i t xs) then ae_merge xs ys = xs
     else sent_end i t (ae_merge xs ys) = sent_end i t ys"
proof (induction xs ys arbitrary: i t rule: ae_merge.induct)
  case (1 xs)
  then show ?case using chain_end [of H i t xs] by (simp add: sent_end_def)
next
  case (2 y ys)
  have "\<not> anc H (sent_end i t (y # ys)) (sent_end i t [])" using anc_le by (fastforce simp: sent_end_def)
  then show ?case by simp
next
  case (3 x xs y ys)
  have e: "sent_end i t (e # es) = sent_end (i + 1) (Term e) es" for e :: "'a LogEntry" and es by (simp add: sent_end_def)
  have c: "chain H (i + 1) (Term x) xs" "chain H (i + 1) (Term y) ys" using 3(2,3) by simp_all
  show ?case
  proof (cases "Term x = Term y")
    case False
    have "\<not> anc H (sent_end i t (y # ys)) (sent_end i t (x # xs))"
    proof
      assume a: "anc H (sent_end i t (y # ys)) (sent_end i t (x # xs))"
      have "anc H (i + 1, Term x) (sent_end i t (x # xs))" "anc H (i + 1, Term y) (sent_end i t (y # ys))"
        using chain_end [OF c(1)] chain_end [OF c(2)] by (simp_all add: e) (simp_all add: sent_end_def)
      from anc_same [OF this(1) anc_trans [OF a this(2)]] show False using False by simp
    qed
    then show ?thesis using False by simp
  next
    case True
    then show ?thesis using 3(1) [of "i + 1" "Term y"] c by (simp add: e)
  qed
qed

lemma AppendEntries_end:
  assumes l: "log_chain H rf" "wf_raft rf" and a: "AppendEntries now args rf = Some (rf', r)" "aer_Success r"
    and c: "chain H (ae_PrevLogIndex args) (ae_PrevLogTerm args) (ae_Entries args)"
  defines "m \<equiv> sent_end (ae_PrevLogIndex args) (ae_PrevLogTerm args) (ae_Entries args)"
  shows "if anc H m (lastn rf) then lastn rf' = lastn rf else lastn rf' = m" "base rf' = base rf" "lastApplied rf' = lastApplied rf"
    "isSnapshotApplied rf' = isSnapshotApplied rf" "rstate rf' = FollowerState" "currentTerm rf' = ae_Term args" "currentTerm rf \<le> ae_Term args"
    "commitIndex rf' = (if commitIndex rf < ae_LeaderCommit args then min (ae_LeaderCommit args) (fst (lastn rf')) else commitIndex rf)"
proof -
  let ?k = "nat (ae_PrevLogIndex args - snapshotLastIndex rf)"
  note A = AppendEntries_successD [OF a]
  let ?xs = "drop (Suc ?k) (rlog rf)"
  have k: "?k < length (rlog rf)" "snapshotLastIndex rf + int ?k = ae_PrevLogIndex args"
    using A(2,3) by (auto simp: logLength_def go_len_def nat_less_iff)
  have tk: "Term (rlog rf ! ?k) = ae_PrevLogTerm args" using A(4) by simp
  have log: "rlog rf' = take (Suc ?k) (rlog rf) @ ae_merge ?xs (ae_Entries args)" "snapshotLastIndex rf' = snapshotLastIndex rf"
    unfolding A(5) by simp_all
  have "rlog rf' ! ?k = rlog rf ! ?k" "drop (Suc ?k) (rlog rf') = ae_merge ?xs (ae_Entries args)" "?k < length (rlog rf')"
    using k(1) by (simp_all add: log nth_append min_absorb2)
  then have e: "lastn rf' = sent_end (ae_PrevLogIndex args) (ae_PrevLogTerm args) (ae_merge ?xs (ae_Entries args))"
    using log_end_from [of ?k rf' "ae_PrevLogIndex args"] k(2) log(2) tk by simp
  have e0: "lastn rf = sent_end (ae_PrevLogIndex args) (ae_PrevLogTerm args) ?xs" using log_end_from [OF k] tk by simp
  have "chain H (ae_PrevLogIndex args) (ae_PrevLogTerm args) ?xs" using log_chain_from [OF l(1) wf_rlogD [OF l(2)] k(1)] k(2) tk by simp
  from merge_end [OF this c] show "if anc H m (lastn rf) then lastn rf' = lastn rf else lastn rf' = m"
    unfolding e e0 m_def by (auto split: if_splits)
  show "currentTerm rf \<le> ae_Term args" by (rule A(1))
  show "base rf' = base rf" "lastApplied rf' = lastApplied rf" "isSnapshotApplied rf' = isSnapshotApplied rf"
    "rstate rf' = FollowerState" "currentTerm rf' = ae_Term args"
    "commitIndex rf' = (if commitIndex rf < ae_LeaderCommit args then min (ae_LeaderCommit args) (fst (lastn rf')) else commitIndex rf)"
    unfolding A(5) using A(1) by (auto simp: base_def lastn_def commit_to_def logLength_def)
qed

lemma AppendEntries_refused:
  assumes "AppendEntries now args rf = Some (rf', r)" and "\<not> aer_Success r"
  shows "rf' = persist rf \<or> rf' = persist (ae_enter now args rf) \<and> currentTerm rf \<le> ae_Term args"
proof (cases "ae_Term args < currentTerm rf")
  case True
  then show ?thesis using assms(1) by (auto simp: AppendEntries_stale)
next
  case False
  then show ?thesis using assms by (auto simp: AppendEntries_enter [OF False] Let_def split: if_splits)
qed

lemma safe_acks:
  assumes S: "safe C G" and j: "j \<in> servers C"
    and N: "\<And>x. x \<in> N \<Longrightarrow> x \<in> dom (hist G) \<and> snd x = currentTerm (peers C j) \<and> anc (hist G) x (lastn (peers C j))"
  shows "safe C (G\<lparr>acks := acks G \<union> Pair j ` N\<rparr>)"
proof -
  let ?G = "G\<lparr>acks := acks G \<union> Pair j ` N\<rparr>"
  note T = safeD(2) [OF S]
  have g: "grows G ?G" by (simp add: grows_def)
  have "wins_ok (nservers C) (hist G) (acks G \<union> Pair j ` N) (wins G)"
  proof (rule wins_ok_mono [OF T map_le_refl])
    show "V \<le> snd x" if "(k, x) \<in> acks G \<union> Pair j ` N" "(k, x) \<notin> acks G" "(V, p, Q, e) \<in> set (wins G)" "k \<in> Q" for k x V p Q e
      using voted_term [OF S that(3,4)] N that(1,2) by auto
  qed (use treeD(2) [OF T] tree_no_root [OF T, of 0] in auto)
  then have T': "tree (nservers C) ?G" using T by (simp add: tree_def)
  have po: "peer_ok (nservers C) ?G j (peers C j)"
  proof -
    have "snd x \<le> currentTerm (peers C j) \<and> (anc (hist G) x (lastn (peers C j)) \<or> lacks (hist G) (wins G) x)"
      if x: "(j, x) \<in> acks G \<union> Pair j ` N" for x
    proof (cases "(j, x) \<in> acks G")
      case True
      then show ?thesis using safeD(3) [OF S j] unfolding peer_ok_def by blast
    next
      case False
      then have "x \<in> N" using x by blast
      then show ?thesis using N [of x] by simp
    qed
    moreover have "\<exists>T. sure (nservers C) ?G T (base (peers C j))" using peer_facts(6) [OF S j] grows_basic(7) [OF g] by blast
    ultimately show ?thesis using safeD(3) [OF S j] grows_basic(9) [OF g] unfolding peer_ok_def by simp
  qed
  have lo: "leader_ok (nservers C) ?G j (peers C j)" by (rule grows_leader [OF g safeD(4) [OF S j]]) simp
  have co: "cand_ok C ?G j" if "cand_ok C G j" by (rule cand_mono [OF that g]) (use grows_basic(7) [OF g] in auto)
  show ?thesis
  proof (rule safe_change [OF S j _ T' _ g])
    show "i = j \<and> x \<in> dom (hist ?G) \<and> snd x = currentTerm (peers C j)" if "(i, x) \<in> acks ?G" "(i, x) \<notin> acks G" for i x
      using that N [of x] by auto
  qed (use po lo co safeD(1,11,12) [OF S] in simp_all)
qed

lemma put_spawn: "put j rf C = spawn j [] (put j rf C)"
  by (simp add: spawn_def)

lemma sender_other:
  assumes S: "safe C G" and j: "j \<in> servers C" and w: "(t, i, Q, e) \<in> set (wins G)" and n: "j \<noteq> i" and L: "rstate (peers C j) = LeaderState"
  shows "currentTerm (peers C j) \<noteq> t"
proof
  assume t: "currentTerm (peers C j) = t"
  obtain Q' e' where "(t, j, Q', e') \<in> set (wins G)" using safeD(4) [OF S j] L t unfolding leader_ok_def by blast
  then show False using wins_unique [OF treeD(2) [OF safeD(2) [OF S]] w] n by blast
qed

lemma peer_acks:
  "peer_ok n G j rf \<Longrightarrow> (j, x) \<in> acks G \<Longrightarrow> snd x \<le> currentTerm rf \<and> (anc (hist G) x (lastn rf) \<or> lacks (hist G) (wins G) x)"
  unfolding peer_ok_def by blast

lemma settledI: "anc (hist G) x (lastn rf) \<Longrightarrow> sure n G (currentTerm rf) x \<Longrightarrow> 0 \<le> fst x \<Longrightarrow> settled n G rf (fst x)"
  unfolding settled_def using anc_le by blast

lemma settled_base:
  assumes "log_chain (hist G) rf" and "wf_raft rf" and "0 \<le> i" and "i \<le> snapshotLastIndex rf"
  shows "settled n G rf i"
  using anc_le [OF base_anc [OF assms(1,2)]] assms(3,4) by (simp add: settled_def base_def)

lemma entries_peer:
  assumes S: "safe C G" and j: "j \<in> servers C" and w: "(t, i, Q, e) \<in> set (wins G)" "on_line G t e m"
    and x: "fst x = ci" "anc (hist G) x m" "sure (nservers C) G t x"
    and lc: "log_chain (hist G) rf" "wf_raft rf"
    and A: "if anc (hist G) m (lastn (peers C j)) then lastn rf = lastn (peers C j) else lastn rf = m" "base rf = base (peers C j)"
      "lastApplied rf = lastApplied (peers C j)" "isSnapshotApplied rf = isSnapshotApplied (peers C j)" "currentTerm rf = t"
      "currentTerm (peers C j) \<le> t"
      "commitIndex rf = (if commitIndex (peers C j) < ci then min ci (fst (lastn rf)) else commitIndex (peers C j))"
  shows "peer_ok (nservers C) G j rf" "anc (hist G) m (lastn rf)"
proof -
  let ?rf = "peers C j"
  note T = safeD(2) [OF S] and P = peer_facts [OF S j] and PO = safeD(3) [OF S j]
  show am: "anc (hist G) m (lastn rf)" using A(1) by (auto split: if_splits)
  have s: "snapshotLastIndex rf = snapshotLastIndex ?rf" using A(2) by (simp add: base_def)
  have st: "settled (nservers C) G rf k" if k: "settled (nservers C) G ?rf k" for k
  proof (cases "k \<le> snapshotLastIndex ?rf")
    case True
    then show ?thesis using settled_base [OF lc] k s by (simp add: settled_def)
  next
    case False
    then obtain y where y: "fst y = k" "anc (hist G) y (lastn ?rf)" "sure (nservers C) G t y"
      using k sure_term [OF _ A(6)] unfolding settled_def by blast
    have "anc (hist G) y (lastn rf)"
      using line_sure [OF T w y(3)] anc_trans [OF y(2), of m] anc_trans [OF am, of y] A(1) y(2) by (auto split: if_splits)
    then show ?thesis using settledI [of G y rf] y(1,3) k A(5) by (simp add: settled_def)
  qed
  have ci: "settled (nservers C) G rf ci" if "commitIndex ?rf < ci"
    using settledI [OF anc_trans [OF am x(2)]] x(1,3) P(7) that A(5) by (simp add: settled_def)
  have "settled (nservers C) G rf (commitIndex rf)"
    using st [OF P(7)] ci anc_le [OF anc_trans [OF am x(2)]] x(1) by (simp add: A(7) min_absorb1)
  moreover have "snd z \<le> t \<and> (anc (hist G) z (lastn rf) \<or> lacks (hist G) (wins G) z)" if z: "(j, z) \<in> acks G" for z
  proof -
    have zt: "snd z \<le> t" "anc (hist G) z (lastn ?rf) \<or> lacks (hist G) (wins G) z"
      using peer_acks [OF PO z] A(6) by auto
    have "z \<in> dom (hist G)" using safeD(5) [OF S z] by blast
    from line_ack [OF T w this zt(1)] show ?thesis
      using zt A(1) anc_trans [of "hist G" z "lastn ?rf" m] anc_trans [OF am, of z] by (auto split: if_splits)
  qed
  moreover have "0 \<le> t" using PO A(6) by (simp add: peer_ok_def)
  ultimately show "peer_ok (nservers C) G j rf"
    using PO st [OF P(8)] unfolding peer_ok_def A(2-5) s by blast
qed

lemma entries_safe:
  assumes S: "safe C G" and p: "(i, SendEntries j t pi pt ci es) \<in> set (running C) \<union> set (orphans C)" and j: "j \<in> servers C"
    and a: "AppendEntries now (sendEntries_args i t pi pt ci es) (peers C j) = Some (rf, u)" and L: "log_inv (put j rf C) (hist G)"
  shows "\<exists>G'. hist G' = hist G \<and> safe (put j rf C) G' \<and> reply_ok G' (SendEntries j t pi pt ci es) (EntriesReply u)"
proof -
  let ?rf = "peers C j" and ?m = "sent_end pi pt es" and ?D = "put j rf C"
  note T = safeD(2) [OF S] and P = peer_facts [OF S j] and LI = safeD(1) [OF S]
  have "(i, SendEntries j t pi pt ci es) \<in> pending C \<union> set (orphans C)" using p pending_running by blast
  from safeD(6) [OF S this] obtain Q e x where w: "(t, i, Q, e) \<in> set (wins G)" "on_line G t e ?m"
    and x: "fst x = ci" "anc (hist G) x ?m" "sure (nservers C) G t x" unfolding msg_ok_def goroutine.case by blast
  have s: "j \<noteq> i" "chain (hist G) pi pt es" using log_invD(4) [OF LI p] by (simp_all add: sent_ok_def)
  have tt: "t \<in> terms (wins G)" by (rule in_terms [OF w(1)])
  note nl = sender_other [OF S j w(1) s(1)]
  have L': "log_inv (spawn j [] ?D) (hist G)" using L put_spawn by metis
  show ?thesis
  proof (cases "aer_Success u")
    case True
    note A = AppendEntries_end [OF P(1,2) a True, unfolded sendEntries_args_def AppendEntriesArgs.simps, OF s(2)]
    have lc: "log_chain (hist G) rf" "wf_raft rf"
      using log_invD(3) [OF L, of j] peer_props(2) [OF L, of j] j by simp_all
    note E = entries_peer [OF S j w x lc A(1-4,6-8)]
    have "safe (spawn j [] ?D) G"
      by (rule safe_put [OF S j L' E(1)]) (use A(3,5,6,7) tt nl safeD(12) [OF S] in \<open>auto simp: leader_ok_def\<close>)
    then have S': "safe ?D G" using put_spawn by metis
    let ?N = "{z. z \<in> dom (hist G) \<and> snd z = t \<and> anc (hist G) z ?m}"
    have "safe ?D (G\<lparr>acks := acks G \<union> Pair j ` ?N\<rparr>)"
      by (rule safe_acks [OF S']) (use j A(6) anc_trans [OF E(2)] in auto)
    moreover have "reply_ok (G\<lparr>acks := acks G \<union> Pair j ` ?N\<rparr>) (SendEntries j t pi pt ci es) (EntriesReply u)"
      by (auto simp: reply_ok_def)
    ultimately show ?thesis by (intro exI conjI) simp_all
  next
    case False
    have r: "rf = persist ?rf \<or> rf = persist (ae_enter now (sendEntries_args i t pi pt ci es) ?rf) \<and> currentTerm ?rf \<le> t"
      using AppendEntries_refused [OF a False] by (simp add: sendEntries_args_def)
    have d: "same_data ?rf rf" "commitIndex rf = commitIndex ?rf"
      "rf = persist ?rf \<or> rstate rf = FollowerState \<and> currentTerm rf = t \<and> currentTerm ?rf \<le> t"
      using r by (auto simp: same_data_def same_log_def sendEntries_args_def)
    then have tm: "currentTerm ?rf \<le> currentTerm rf" by auto
    have "peer_ok (nservers C) G j rf"
      by (rule peer_same [OF safeD(3) [OF S j] d(1) tm]) (use settled_term [OF P(7) same_dataD(1,3) [OF d(1)] tm] d(2) in simp)
    moreover have "leader_ok (nservers C) G j rf"
      by (rule leader_same [OF safeD(4) [OF S j] d(1)])
         (use d(3) safeD(4) [OF S j] matched_same [OF d(1)] in \<open>auto simp: leader_ok_def\<close>)
    ultimately have "safe (spawn j [] ?D) G"
      by (rule safe_put [OF S j L']) (use d tt nl safeD(12) [OF S] in \<open>auto simp: same_dataD\<close>)
    moreover have "reply_ok G (SendEntries j t pi pt ci es) (EntriesReply u)" using False by (simp add: reply_ok_def)
    ultimately show ?thesis using put_spawn by metis
  qed
qed

lemma InstallSnapshot_end:
  assumes l: "log_chain H rf" "wf_raft rf" and a: "InstallSnapshot now args rf = Some (rf', r)"
    and n: "\<not> is_Term args < currentTerm rf" "snapshotLastIndex rf < is_LastIncludedIndex args"
  defines "y \<equiv> (is_LastIncludedIndex args, is_LastIncludedTerm args)"
  shows "if anc H y (lastn rf) then lastn rf' = lastn rf else lastn rf' = y" "base rf' = y"
    "commitIndex rf' = max (commitIndex rf) (fst y)" "lastApplied rf' = lastApplied rf" "\<not> isSnapshotApplied rf'"
    "currentTerm rf' = currentTerm rf" "rstate rf' = rstate rf"
proof -
  let ?i = "is_LastIncludedIndex args" and ?k = "nat (is_LastIncludedIndex args - snapshotLastIndex rf)"
  let ?rest = "if ?k < length (rlog rf) \<and> Term (rlog rf ! ?k) = is_LastIncludedTerm args then drop (Suc ?k) (rlog rf) else []"
  have k: "snapshotLastIndex rf + int ?k = ?i" "nat (?i - snapshotLastIndex rf + 1) = Suc ?k" "?i - snapshotLastIndex rf < go_len (rlog rf) \<longleftrightarrow> ?k < length (rlog rf)"
    using n(2) by (auto simp: go_len_def nat_less_iff Suc_nat_eq_nat_zadd1)
  have f: "rf' = persist (rf\<lparr>lastHeartBeat := now, rlog := \<lparr>Term = is_LastIncludedTerm args, Command = None\<rparr> # ?rest,
      commitIndex := max (commitIndex rf) ?i, snapshotLastIndex := ?i, snapshotLastTerm := is_LastIncludedTerm args,
      snapshot := is_Data args, isSnapshotApplied := False\<rparr>)"
    using a n by (auto simp: InstallSnapshot_closed Let_def k)
  have e: "lastn rf' = sent_end ?i (is_LastIncludedTerm args) ?rest" using log_end_from [of 0 rf' ?i] by (simp add: f)
  have "anc H y (lastn rf) \<longleftrightarrow> ?k < length (rlog rf) \<and> Term (rlog rf ! ?k) = is_LastIncludedTerm args"
  proof
    assume "anc H y (lastn rf)"
    from log_at [OF l this] show "?k < length (rlog rf) \<and> Term (rlog rf ! ?k) = is_LastIncludedTerm args" using n(2) by (simp add: y_def)
  next
    assume "?k < length (rlog rf) \<and> Term (rlog rf ! ?k) = is_LastIncludedTerm args"
    then show "anc H y (lastn rf)" using log_node [OF l, of ?k] k(1) by (simp add: y_def)
  qed
  then show "if anc H y (lastn rf) then lastn rf' = lastn rf else lastn rf' = y"
    using log_end_from [OF _ k(1)] by (auto simp: e y_def sent_end_def)
  show "base rf' = y" "commitIndex rf' = max (commitIndex rf) (fst y)" "lastApplied rf' = lastApplied rf" "\<not> isSnapshotApplied rf'"
    "currentTerm rf' = currentTerm rf" "rstate rf' = rstate rf"
    by (simp_all add: f base_def y_def)
qed

lemma install_peer:
  assumes S: "safe C G" and j: "j \<in> servers C" and y: "sure (nservers C) G t y" "snapshotLastIndex (peers C j) < fst y"
    and lc: "log_chain (hist G) rf" "wf_raft rf"
    and A: "if anc (hist G) y (lastn (peers C j)) then lastn rf = lastn (peers C j) else lastn rf = y" "base rf = y"
      "commitIndex rf = max (commitIndex (peers C j)) (fst y)" "lastApplied rf = lastApplied (peers C j)" "\<not> isSnapshotApplied rf"
      "currentTerm rf = currentTerm (peers C j)"
  shows "peer_ok (nservers C) G j rf"
proof -
  let ?rf = "peers C j"
  note T = safeD(2) [OF S] and P = peer_facts [OF S j] and PO = safeD(3) [OF S j]
  have s: "snapshotLastIndex rf = fst y" using A(2) by (auto simp: base_def)
  have ay: "anc (hist G) y (lastn rf)" using A(1) by (auto split: if_splits)
  have st: "settled (nservers C) G rf k" if k: "settled (nservers C) G ?rf k" for k
  proof (cases "k \<le> fst y")
    case True
    then show ?thesis using settled_base [OF lc] k s by (simp add: settled_def)
  next
    case False
    then obtain x where x: "fst x = k" "anc (hist G) x (lastn ?rf)" "sure (nservers C) G (currentTerm ?rf) x"
      using k y(2) unfolding settled_def by auto
    have "anc (hist G) y x" using sure_linear [OF T y(1) x(3)] x(1) False by simp
    then have "anc (hist G) y (lastn ?rf)" by (rule anc_trans [OF x(2)])
    then have "lastn rf = lastn ?rf" using A(1) by simp
    then show ?thesis using settledI [of G x rf] x A(6) k by (simp add: settled_def)
  qed
  have "settled (nservers C) G rf (fst y)"
    using settled_base [OF lc] s node_nonneg [OF T sure_node [OF T y(1)]] by simp
  then have "settled (nservers C) G rf (commitIndex rf)" using st [OF P(7)] by (simp add: A(3) max_def)
  moreover have "snd z \<le> currentTerm rf \<and> (anc (hist G) z (lastn rf) \<or> lacks (hist G) (wins G) z)" if z: "(j, z) \<in> acks G" for z
  proof -
    note K = peer_acks [OF PO z]
    have "z \<in> dom (hist G)" using safeD(5) [OF S z] by blast
    from sure_ack [OF T y(1) this] show ?thesis
      using K A(1,6) anc_trans [of "hist G" z "lastn ?rf" y] anc_trans [OF ay, of z] by (auto split: if_splits)
  qed
  moreover have "0 \<le> currentTerm rf" using PO A(6) by (simp add: peer_ok_def)
  ultimately show ?thesis
    using y(1) st [OF P(8)] A(5) unfolding peer_ok_def A(2,4) by blast
qed

lemma install_safe:
  assumes S: "safe C G" and p: "(i, SendInstallSnapshot j t si st data) \<in> set (running C) \<union> set (orphans C)" and j: "j \<in> servers C"
    and a: "InstallSnapshot now (sendInstallSnapshot_args i t si st data) (peers C j) = Some (rf, u)" and L: "log_inv (put j rf C) (hist G)"
    and o: "\<not> upsets (SendInstallSnapshot j t si st data) C"
  shows "safe (put j rf C) G"
proof -
  let ?rf = "peers C j" and ?D = "put j rf C"
  note P = peer_facts [OF S j] and LI = safeD(1) [OF S]
  have "(i, SendInstallSnapshot j t si st data) \<in> pending C \<union> set (orphans C)" using p pending_running by blast
  from safeD(6) [OF S this] obtain Q e where w: "(t, i, Q, e) \<in> set (wins G)" and y: "sure (nservers C) G t (si, st)"
    unfolding msg_ok_def goroutine.case by blast
  have n: "j \<noteq> i" using log_invD(4) [OF LI p] by (simp add: sent_ok_def)
  have L': "log_inv (spawn j [] ?D) (hist G)" using L put_spawn by metis
  have "safe (spawn j [] ?D) G"
  proof (cases "t < currentTerm ?rf \<or> si \<le> snapshotLastIndex ?rf")
    case True
    then have "rf = persist ?rf \<or> rf = persist (?rf\<lparr>lastHeartBeat := now\<rparr>)"
      using a by (auto simp: InstallSnapshot_closed sendInstallSnapshot_args_def split: if_splits)
    then have "same_data ?rf rf \<and> commitIndex rf = commitIndex ?rf \<and> currentTerm rf = currentTerm ?rf \<and> rstate rf = rstate ?rf
        \<and> matchIndex rf = matchIndex ?rf"
      by (elim disjE) (simp_all add: same_data_def same_log_def)
    then show ?thesis using safe_still [OF S j L'] by simp
  next
    case False
    have A: "if anc (hist G) (si, st) (lastn ?rf) then lastn rf = lastn ?rf else lastn rf = (si, st)" "base rf = (si, st)"
      "commitIndex rf = max (commitIndex ?rf) (fst (si, st))" "lastApplied rf = lastApplied ?rf" "\<not> isSnapshotApplied rf"
      "currentTerm rf = currentTerm ?rf" "rstate rf = rstate ?rf"
      using InstallSnapshot_end [OF P(1,2) a] False by (simp_all add: sendInstallSnapshot_args_def)
    have lc: "log_chain (hist G) rf" "wf_raft rf" using log_invD(3) [OF L, of j] peer_props(2) [OF L, of j] j by simp_all
    have po: "peer_ok (nservers C) G j rf" by (rule install_peer [OF S j y _ lc A(1-6)]) (use False in simp)
    have nl: "rstate ?rf \<noteq> LeaderState" using sender_other [OF S j w n] o False by auto
    have "currentTerm ?rf \<in> terms (wins G) \<or> idle C (currentTerm ?rf) j"
    proof (cases "t = currentTerm ?rf")
      case True
      then show ?thesis using in_terms [OF w] by simp
    next
      case nt: False
      then have "rstate ?rf \<noteq> CandidateState" using o False by auto
      then show ?thesis using safeD(11) [OF S, of j] nl by (auto simp: cand_ok_def Let_def)
    qed
    then show ?thesis
      by (intro safe_put [OF S j L' po]) (use nl A(4,6,7) safeD(12) [OF S] in \<open>auto simp: leader_ok_def\<close>)
  qed
  then show ?thesis using put_spawn by metis
qed

lemma vote_safe:
  assumes S: "safe C G" and p: "(i, SendRequestVote j t li lt) \<in> set (running C) \<union> set (orphans C)" and j: "j \<in> servers C"
    and a: "RequestVote (sendRequestVote_args i t li lt) (peers C j) = Some (rf, u)"
    and C': "C' = (if rvr_VoteGranted u then grant t j i (put j rf C) else put j rf C)" and L: "log_inv C' (hist G)"
  shows "safe C' G"
proof -
  let ?rf = "peers C j"
  note P = peer_facts [OF S j] and LI = safeD(1) [OF S]
  have "(i, SendRequestVote j t li lt) \<in> pending C \<union> set (orphans C)" using p pending_running by blast
  from safeD(6) [OF S this] have e: "elogs G (t, i) = Some (li, lt)" by (simp add: msg_ok_def)
  have d: "same_data ?rf rf" "commitIndex rf = commitIndex ?rf" "matchIndex rf = matchIndex ?rf"
    and q: "currentTerm ?rf < currentTerm rf \<and> rstate rf \<noteq> LeaderState \<or> currentTerm rf = currentTerm ?rf \<and> rstate rf = rstate ?rf"
    and g: "rvr_VoteGranted u \<Longrightarrow> currentTerm ?rf \<le> t \<and> currentTerm rf = t \<and> up_to_date (sendRequestVote_args i t li lt) ?rf"
    using a unfolding RequestVote_closed [OF wf_rlogD [OF P(2)]] Let_def
    by (auto simp: same_data_def same_log_def sendRequestVote_args_def split: if_splits)
  show ?thesis
  proof (cases "rvr_VoteGranted u")
    case False
    then have "C' = spawn j [] (put j rf C)" using C' put_spawn by metis
    then show ?thesis using safe_still [OF S j _ d(1,2), of "[]"] L q d(3) by auto
  next
    case True
    have C'g: "C' = grant t j i (put j rf C)" using C' True by simp
    have tm: "currentTerm ?rf \<le> currentTerm rf" using q by auto
    have po: "peer_ok (nservers C) G j rf"
      by (rule peer_same [OF safeD(3) [OF S j] d(1) tm]) (use settled_term [OF P(7) same_dataD(1,3) [OF d(1)] tm] d(2) in simp)
    have lo: "leader_ok (nservers C) G j rf"
      by (rule leader_same [OF safeD(4) [OF S j] d(1)])
         (use q d(3) safeD(4) [OF S j] matched_same [OF d(1)] in \<open>auto simp: leader_ok_def\<close>)
    have "as_good (li, lt) (lastn ?rf)"
      using g [OF True] by (auto simp: up_to_date_def as_good_def lastn_def sendRequestVote_args_def)
    then have vo: "vote_ok G t j i" by (rule own_vote [OF S j e]) simp_all
    have id: "idle C' V k = idle C V k" for V k by (simp add: idle_def C'g)
    have co: "cand_ok C' G j" if ni: "\<not> idle C (currentTerm rf) j" and nl: "rstate rf \<noteq> LeaderState"
    proof -
      have "currentTerm rf \<le> currentTerm ?rf" using ni msg_reached [OF S] unfolding idle_def by blast
      then have s: "currentTerm rf = currentTerm ?rf" "rstate rf = rstate ?rf" using q by auto
      have "cand_ok C G j" by (rule safeD(11) [OF S]) (use ni nl s in auto)
      then show ?thesis by (rule cand_mono) (use s g [OF True] same_dataD [OF d(1)] in \<open>auto simp: C'g\<close>)
    qed
    show ?thesis
    proof (rule safe_change [OF S j L safeD(2) [OF S] _ grows_refl])
      show "applying C' j = SentSnapshot k \<Longrightarrow> k \<le> lastApplied (peers C' j)" for k
        using safeD(12) [OF S] d(1) by (simp add: C'g same_dataD)
    qed (use po lo vo co q id g [OF True] in \<open>auto simp: C'g\<close>)
  qed
qed

lemma handle_safe:
  assumes S: "safe C G" and p: "(i, g) \<in> set (running C) \<union> set (orphans C)" and h: "handle now i g C = Some (C', r)" and o: "\<not> upsets g C"
  shows "\<exists>G'. hist G' = hist G \<and> safe C' G' \<and> reply_ok G' g r"
proof -
  have "\<not> demotes g C" using o by (cases g) auto
  then have L: "log_inv C' (hist G)" using handle_log [OF safeD(1) [OF S] p h] by blast
  show ?thesis
  proof (cases g)
    case (SendRequestVote j t li lt)
    then obtain rf u where v: "j \<in> servers C" "RequestVote (sendRequestVote_args i t li lt) (peers C j) = Some (rf, u)"
      "C' = (if rvr_VoteGranted u then grant t j i (put j rf C) else put j rf C)" and r: "r = VoteReply u"
      using h by (auto simp: handle_def bind_Some_iff split: if_splits)
    have "safe C' G" by (rule vote_safe [OF S _ v L]) (use p SendRequestVote in simp)
    then show ?thesis using SendRequestVote by (auto simp: reply_ok_def)
  next
    case (SendEntries j t pi pt ci es)
    then obtain rf u where a: "j \<in> servers C" "AppendEntries now (sendEntries_args i t pi pt ci es) (peers C j) = Some (rf, u)"
      and C': "C' = put j rf C" and r: "r = EntriesReply u"
      using h by (auto simp: handle_def bind_Some_iff split: if_splits)
    show ?thesis using entries_safe [OF S _ a, of ] p L unfolding SendEntries C' r by blast
  next
    case (SendInstallSnapshot j t si st data)
    then obtain rf u where a: "j \<in> servers C" "InstallSnapshot now (sendInstallSnapshot_args i t si st data) (peers C j) = Some (rf, u)"
      and C': "C' = put j rf C" and r: "r = SnapshotReply u"
      using h by (auto simp: handle_def bind_Some_iff split: if_splits)
    have "safe C' G" unfolding C' by (rule install_safe [OF S _ a]) (use p L o SendInstallSnapshot C' in simp_all)
    then show ?thesis using SendInstallSnapshot by (auto simp: reply_ok_def)
  qed (use h in \<open>auto simp: handle_def\<close>)
qed

lemma answer_safe:
  assumes S: "safe C G" and p: "(i, g) \<in> pending C" and r: "reply_ok G g r" and L: "log_inv (answered i g r C) (hist G)"
  shows "safe (answered i g r C) G"
proof -
  let ?D = "answered i g r C"
  have e: "nservers ?D = nservers C" "peers ?D = peers C" "grants ?D = grants C" "servers ?D = servers C" "orphans ?D = orphans C"
    "applying ?D = applying C" "delivered ?D = delivered C" "replies ?D = (i, g, r) # replies C"
    by (simp_all add: answered_def servers_def)
  have pd: "pending ?D = pending C" using p by (simp add: insert_absorb)
  have id: "idle ?D V q = idle C V q" for V q unfolding idle_def pd ..
  have c: "cand_ok ?D G q = cand_ok C G q" for q by (simp add: cand_ok_def doomed_def e)
  have "inv_peers ?D G" using S by (simp add: safe_def inv_peers_def e)
  moreover have "inv_msgs ?D G" using safeD(6,7) [OF S] r unfolding inv_msgs_def e pd by auto
  moreover have "inv_polls ?D G" using safeD(8-11) [OF S] unfolding inv_polls_def e c id by blast
  moreover have "inv_applied ?D G" using S by (simp add: safe_def inv_applied_def e)
  ultimately show ?thesis using safeD(2) [OF S] L by (simp add: safe_def e)
qed

lemma majority_quorum:
  assumes "length mi = n" and "0 < n" and "go_nth (sort mi) (go_div (go_len (sort mi) - 1) 2) = Some m"
  shows "quorum n (int ` {q. q < n \<and> m \<le> mi ! q})"
proof -
  let ?k = "(n - 1) div 2"
  have "go_div (int n - 1) 2 = int ?k" using assms(2) by (simp add: go_div_nat of_nat_diff zdiv_int)
  then have k: "m = sort mi ! ?k" using assms(1,3) by (auto simp: go_nth_Some_iff go_len_def)
  have "n - ?k \<le> length (filter (\<lambda>x. m \<le> x) mi)" using sort_ge_count [of ?k mi] k assms(1,2) by fastforce
  then have "n - ?k \<le> card {q. q < n \<and> m \<le> mi ! q}" using assms(1) by (simp add: length_filter_conv_card)
  then have "int (n - ?k) \<le> int (card (int ` {q. q < n \<and> m \<le> mi ! q}))" by (simp add: card_image inj_on_def)
  moreover have "go_div (int n + 1) 2 = int ((n + 1) div 2)" by (simp add: go_div_nat zdiv_int)
  then have "go_div (int n + 1) 2 \<le> int (n - ?k)" using assms(2) by linarith
  ultimately show ?thesis by (auto simp: quorum_def)
qed

lemma commit_settled:
  assumes l: "log_chain (hist G) rf" "wf_raft rf" "npeers rf = n" "0 < n" and L: "leader_ok n G j rf" "rstate rf = LeaderState"
    and c: "settled n G rf (commitIndex rf)" and u: "updateCommitIndex rf = Some rf'"
  shows "settled n G rf' (commitIndex rf')"
proof (cases "rf' = rf")
  case False
  let ?V = "currentTerm rf"
  obtain m e where m: "go_nth (sort (matchIndex rf)) (go_div (go_len (sort (matchIndex rf)) - 1) 2) = Some m"
    and e: "go_nth (rlog rf) (m - snapshotLastIndex rf) = Some e" "Term e = ?V" and rf': "rf' = rf\<lparr>commitIndex := m\<rparr>"
    using u False by (auto simp: updateCommitIndex_def Let_def bind_Some_iff absoluteIndexToLogIndex_def split: if_splits)
  have st: "settled n G rf' k = settled n G rf k" for k by (simp add: rf' settled_def lastn_def logLength_def)
  let ?k = "nat (m - snapshotLastIndex rf)"
  have k: "?k < length (rlog rf)" "snapshotLastIndex rf + int ?k = m" "rlog rf ! ?k = e" "0 \<le> m"
    using e(1) l(2) by (auto simp: go_nth_Some_iff go_len_def nat_less_iff wf_raft_def)
  have a: "anc (hist G) (m, ?V) (lastn rf)" using log_node [OF l(1,2) k(1)] k(2,3) e(2) by simp
  have "settled n G rf m"
  proof (cases "m \<le> snapshotLastIndex rf")
    case True
    then show ?thesis using settled_base [OF l(1,2) k(4)] by blast
  next
    case False
    then have d: "(m, ?V) \<in> dom (hist G)" using log_hist [OF l(1,2) _ k(1)] k(2,3) e(2) by auto
    let ?Q = "int ` {q. q < n \<and> m \<le> matchIndex rf ! q}"
    have q: "quorum n ?Q" by (rule majority_quorum [OF _ l(4) m]) (use l(2,3) in \<open>simp add: wf_raft_def\<close>)
    have "sure n G ?V (m, ?V)"
    proof (cases "\<forall>q \<in> ?Q. (q, m, ?V) \<in> acks G")
      case True
      then have "chosen n G (m, ?V)" using d q unfolding chosen_def by blast
      then show ?thesis unfolding sure_def by force
    next
      case nq: False
      then obtain q where "q < n" "m \<le> matchIndex rf ! q" "(int q, m, ?V) \<notin> acks G" by auto
      moreover have "matched n G rf (int q) (matchIndex rf ! q)" using L \<open>q < n\<close> by (simp add: leader_ok_def)
      ultimately show ?thesis using d False unfolding matched_def by blast
    qed
    then show ?thesis using settledI [OF a] k(4) by simp
  qed
  then show ?thesis unfolding st by (simp add: rf')
qed (use c in simp)

text \<open>A leader's bookkeeping after a reply: a match index the histories vouch for, and the commit index.\<close>

lemma match_safe:
  assumes S: "safe C G" and i: "i \<in> servers C" and L: "rstate (peers C i) = LeaderState" and q: "0 \<le> q"
    and m: "matched (nservers C) G (peers C i) q m"
    and u: "updateCommitIndex ((peers C i)\<lparr>nextIndex := ni, matchIndex := (matchIndex (peers C i))[nat q := m]\<rparr>) = Some rf"
    and ni: "length ni = length (nextIndex (peers C i))" and LI: "log_inv (put i (persist rf) C) (hist G)"
  shows "safe (put i (persist rf) C) G"
proof -
  let ?rf = "peers C i" and ?n = "nservers C"
  let ?rf1 = "?rf\<lparr>nextIndex := ni, matchIndex := (matchIndex ?rf)[nat q := m]\<rparr>"
  note P = peer_facts [OF S i] and N = peer_props(1) [OF safeD(1) [OF S] i]
  have d: "same_data ?rf ?rf1" by (simp add: same_data_def same_log_def)
  have len: "length (matchIndex ?rf) = ?n" "npeers ?rf = ?n" using N by (auto simp: good_def wf_raft_def)
  have "matched ?n G ?rf1 (int k) (matchIndex ?rf1 ! k)" if "k < ?n" for k
    using that safeD(4) [OF S i] L m q len matched_same [OF d] by (cases "k = nat q") (auto simp: leader_ok_def)
  then have lo: "leader_ok ?n G i ?rf1" by (intro leader_same [OF safeD(4) [OF S i] d]) (use L in auto)
  have c: "settled ?n G rf (commitIndex rf)"
    by (rule commit_settled [OF _ _ _ _ lo _ _ u])
       (use P(1,2) len ni i L settled_term [OF P(7) same_dataD(1,3) [OF d]] in \<open>auto simp: log_chain_def wf_raft_def servers_def\<close>)
  have r: "rf = ?rf1 \<or> (\<exists>c. rf = ?rf1\<lparr>commitIndex := c\<rparr>)" by (rule updateCommitIndex_shape [OF u])
  have d': "same_data ?rf (persist rf)" "same_data ?rf1 (persist rf)" "currentTerm rf = currentTerm ?rf" "rstate rf = LeaderState"
    "matchIndex rf = matchIndex ?rf1"
    using r L by (auto simp: same_data_def same_log_def)
  have s: "settled ?n G (persist rf) k = settled ?n G rf k" for k by (simp add: settled_def lastn_def)
  have po: "peer_ok ?n G i (persist rf)" by (rule peer_same [OF safeD(3) [OF S i] d'(1)]) (use d' c s in simp_all)
  have lo': "leader_ok ?n G i (persist rf)"
    by (rule leader_same [OF lo d'(2)]) (use d' L lo matched_same [OF d'(2)] in \<open>auto simp: leader_ok_def\<close>)
  have la: "lastApplied (persist rf) = lastApplied ?rf" by (rule same_dataD(4) [OF d'(1)])
  have "safe (spawn i [] (put i (persist rf) C)) G"
  proof (rule safe_put [OF S i _ po lo'])
    show "log_inv (spawn i [] (put i (persist rf) C)) (hist G)" using LI put_spawn by metis
    show "applying C i = SentSnapshot k \<Longrightarrow> k \<le> lastApplied (persist rf)" for k using safeD(12) [OF S] unfolding la by blast
  qed (use d' L same_dataD [OF d'(1)] in simp_all)
  then show ?thesis using put_spawn by metis
qed

lemma win_tree:
  assumes S: "safe C G" and i: "i \<in> servers C" and ni: "\<not> idle C (currentTerm (peers C i)) i" and nl: "rstate (peers C i) \<noteq> LeaderState"
    and Q: "quorum (nservers C) Q" "\<And>j. j \<in> Q \<Longrightarrow> (currentTerm (peers C i), j, i) \<in> grants C"
  defines "V \<equiv> currentTerm (peers C i)"
  shows "V \<notin> terms (wins G)" "sure (nservers C) G V (base (peers C i))"
    "tree (nservers C) (G\<lparr>wins := (V, i, Q, lastn (peers C i)) # wins G\<rparr>)"
proof -
  let ?rf = "peers C i" and ?n = "nservers C"
  note T = safeD(2) [OF S] and P = peer_facts [OF S i] and v = log_invD(1) [OF safeD(1) [OF S]]
  have once: "(V, j, p) \<in> grants C \<Longrightarrow> (V, j, p') \<in> grants C \<Longrightarrow> p = p'" for j p p'
    using v unfolding vote_inv_def inv_once_def by blast
  show nw: "V \<notin> terms (wins G)"
  proof
    assume "V \<in> terms (wins G)"
    then obtain p R e where w: "(V, p, R, e) \<in> set (wins G)" by (auto simp: terms_def)
    have "quorum ?n R" using wins_okD [OF treeD(2) [OF T] w] by simp
    then obtain j where "j \<in> Q" "j \<in> R" using quorum_meet [OF treeD(1) [OF T] Q(1)] by blast
    then have "p = i" using once Q(2) safeD(9) [OF S w] unfolding V_def by blast
    then show False using safeD(10) [OF S w] nl ni by (simp add: V_def)
  qed
  have "\<not> doomed C V i"
    using quorum_meet [OF treeD(1) [OF T] Q(1)] Q(2) unfolding doomed_def V_def by blast
  then have c: "elogs G (V, i) = Some (lastn ?rf)" "snd (lastn ?rf) < V" "sure ?n G V (base ?rf)"
    using safeD(11) [OF S ni nl] nw by (auto simp: cand_ok_def Let_def V_def)
  show "sure ?n G V (base ?rf)" by (rule c(3))
  have nz: "lastn ?rf = (0, 0) \<or> lastn ?rf \<in> dom (hist G) \<and> snd (lastn ?rf) \<in> terms (wins G)"
    using P(4) win_below [OF T, of "fst (lastn ?rf)" "snd (lastn ?rf)"] in_terms unfolding nodes_def by (metis insertE prod.collapse)
  moreover have "0 < V"
  proof -
    have "0 \<le> snd (lastn ?rf)" using nz wins_okD [OF treeD(2) [OF T]] by (fastforce simp: terms_def)
    then show ?thesis using c(2) by simp
  qed
  moreover have "as_good (lastn ?rf) x \<or> lacks (hist G) (wins G) x" if "j \<in> Q" "(j, x) \<in> acks G" "snd x < V" for j x
    using safeD(8) [OF S Q(2) [OF that(1)]] nw c(1) that(2,3) unfolding vote_ok_def V_def [symmetric] by (metis option.inject)
  ultimately have "wins_ok ?n (hist G) (acks G) ((V, i, Q, lastn ?rf) # wins G)"
    using nw c(2) Q(1) treeD(2) [OF T] unfolding wins_ok.simps by blast
  moreover have "0 < k \<and> (u = t \<and> (k - 1, t) \<in> dom (hist G) \<or> (\<exists>p Q'. (t, p, Q', k - 1, u) \<in> set ((V, i, Q, lastn ?rf) # wins G)))"
    if "hist G (k, t) = Some (d, u)" for k t d u using treeD(3) [OF T that] by auto
  ultimately show "tree ?n (G\<lparr>wins := (V, i, Q, lastn ?rf) # wins G\<rparr>)"
    using treeD(1) [OF T] unfolding tree_def by simp
qed

lemma win_safe:
  assumes S: "safe C G" and i: "i \<in> servers C" and ni: "\<not> idle C (currentTerm (peers C i)) i" and nl: "rstate (peers C i) \<noteq> LeaderState"
    and b: "becomeLeader ((peers C i)\<lparr>votesReceived := vs\<rparr>) = Some rf2"
    and C': "C' = spawn i [RunHeartbeatCycle] (put i (persist rf2) C)" and L: "log_inv C' (hist G)"
  shows "\<exists>G'. safe C' G'"
proof -
  let ?rf = "peers C i" and ?n = "nservers C" and ?V = "currentTerm (peers C i)" and ?rf2 = "persist rf2"
  note T = safeD(2) [OF S] and P = peer_facts [OF S i] and N = peer_props(1) [OF safeD(1) [OF S] i]
  have len: "length (matchIndex ?rf) = ?n" "i = int (nat i)" using N i by (auto simp: good_def wf_raft_def servers_def)
  have d: "same_data ?rf ?rf2" "currentTerm ?rf2 = ?V" "rstate ?rf2 = LeaderState" "commitIndex ?rf2 = commitIndex ?rf"
    "matchIndex ?rf2 = (replicate ?n (commitIndex ?rf))[nat i := fst (lastn ?rf)]"
    using b P(3) len(1) by (auto simp: becomeLeader_def Let_def bind_Some_iff go_upd_Some_iff same_data_def same_log_def lastn_def
        logLength_def map_replicate_const)
  have "led C' ?V i" using leader_led [OF log_invD(1) [OF L], of i] i d by (simp add: C')
  then obtain Q where Q: "quorum ?n Q" "\<And>j. j \<in> Q \<Longrightarrow> (?V, j, i) \<in> grants C" unfolding led_def by (auto simp: C')
  note W = win_tree [OF S i ni nl Q]
  let ?G = "G\<lparr>wins := (?V, i, Q, lastn ?rf) # wins G\<rparr>"
  have g: "grows G ?G" by (auto simp: grows_def)
  have nd: "(k, ?V) \<notin> dom (hist G)" for k using win_below [OF T, of k ?V] in_terms W(1) by blast
  have po: "peer_ok ?n ?G i ?rf2"
    by (rule peer_same [OF grows_peer [OF g T W(3) safeD(3) [OF S i]] d(1)])
       (use d settled_term [OF grows_basic(9) [OF g P(7)] same_dataD(1,3) [OF d(1)]] in simp_all)
  have "matchIndex ?rf2 ! q \<le> fst (lastn ?rf)" if "q < ?n" for q
    using that P(7) unfolding d(5) settled_def by (cases "q = nat i") auto
  moreover have "\<exists>Q e. (?V, i, Q, e) \<in> set (wins ?G) \<and> on_line ?G ?V e (lastn ?rf)" 
    by (intro exI [of _ Q] exI [of _ "lastn ?rf"]) (simp add: on_line_def)
  ultimately have lo: "leader_ok ?n ?G i ?rf2"
    using nd grows_basic(7) [OF g W(2)] unfolding leader_ok_def matched_def d(2) same_dataD [OF d(1)] by simp
  have id: "idle C W k \<Longrightarrow> idle C' W k" for W k by (auto simp: idle_def C' asks_def)
  have "safe C' ?G"
  proof (rule safe_change [OF S i _ W(3) _ g])
    show "log_inv C' (hist ?G)" using L by simp
    show "(k, x) \<in> pending C \<union> set (orphans C) \<or> msg_ok ?n ?G k x" if "(k, x) \<in> pending C' \<union> set (orphans C')" for k x
      using that by (auto simp: C' msg_ok_def)
    show "applying C' i = SentSnapshot k \<Longrightarrow> k \<le> lastApplied (peers C' i)" for k
      using safeD(12) [OF S] same_dataD(4) [OF d(1)] by (simp add: C')
  qed (use po lo id d(2,3) Q(2) in \<open>auto simp: C'\<close>)
  then show ?thesis by blast
qed

lemma sendRequestVote_reply_cases:
  assumes "sendRequestVote_reply j t r rf = Some (rf', gs)"
  shows "gs = [] \<and> same_data rf rf' \<and> commitIndex rf' = commitIndex rf \<and> (currentTerm rf < currentTerm rf' \<and> rstate rf' \<noteq> LeaderState
      \<or> currentTerm rf' = currentTerm rf \<and> rstate rf' = rstate rf \<and> matchIndex rf' = matchIndex rf)
    \<or> (\<exists>vs rf2. gs = [RunHeartbeatCycle] \<and> rf' = persist rf2 \<and> becomeLeader (rf\<lparr>votesReceived := vs\<rparr>) = Some rf2
         \<and> rstate rf \<noteq> LeaderState \<and> t = currentTerm rf)"
proof (cases "gs = []")
  case True
  then show ?thesis using assms
    by (auto simp: sendRequestVote_reply_def Let_def bind_Some_iff same_data_def same_log_def split: if_splits)
next
  case False
  then show ?thesis using assms by (auto simp: sendRequestVote_reply_def Let_def bind_Some_iff split: if_splits)
qed

text \<open>What a sender may do with an answer short of moving a match index.\<close>

definition minor :: "'c Raft \<Rightarrow> 'c Raft \<Rightarrow> bool" where
  "minor rf rf' \<longleftrightarrow> rf' = persist rf \<or> (\<exists>t > currentTerm rf. rf' = persist (becomeFollower t rf)) \<or> (\<exists>ni. rf' = persist (rf\<lparr>nextIndex := ni\<rparr>))"

lemma sendEntries_reply_cases:
  assumes "sendEntries_reply j args res rf = Some rf'"
  shows "minor rf rf' \<or> (\<exists>a ni rf1. res = Some a \<and> aer_Success a \<and> rstate rf = LeaderState \<and> currentTerm rf = ae_Term args \<and> 0 \<le> j
    \<and> length ni = length (nextIndex rf) \<and> rf' = persist rf1
    \<and> updateCommitIndex (rf\<lparr>nextIndex := ni, matchIndex := (matchIndex rf)[nat j := ae_PrevLogIndex args + int (length (ae_Entries args))]\<rparr>) = Some rf1)"
  (is "_ \<or> ?match")
proof (cases "\<exists>a. res = Some a \<and> aer_Success a \<and> \<not> currentTerm rf < aer_Term a \<and> rstate rf = LeaderState
    \<and> currentTerm rf = ae_Term args \<and> go_nth (nextIndex rf) j = Some (ae_PrevLogIndex args + 1)")
  case True
  then obtain a rf1 where "res = Some a" "aer_Success a" "rstate rf = LeaderState" "currentTerm rf = ae_Term args" "0 \<le> j" "rf' = persist rf1"
    "updateCommitIndex (rf\<lparr>nextIndex := (nextIndex rf)[nat j := ae_PrevLogIndex args + int (length (ae_Entries args)) + 1],
       matchIndex := (matchIndex rf)[nat j := ae_PrevLogIndex args + int (length (ae_Entries args))]\<rparr>) = Some rf1"
    using assms by (auto simp: sendEntries_reply_def bind_Some_iff go_upd_Some_iff go_len_def)
  then have ?match using length_list_update by metis
  then show ?thesis ..
next
  case False
  then have "minor rf rf'" using assms
    by (auto simp: sendEntries_reply_def minor_def bind_Some_iff split: option.splits if_splits)
  then show ?thesis ..
qed

lemma sendInstallSnapshot_reply_cases:
  assumes "sendInstallSnapshot_reply j args res rf = Some rf'"
  shows "minor rf rf' \<or> (\<exists>ni rf1. rstate rf = LeaderState \<and> is_LastIncludedIndex args = snapshotLastIndex rf \<and> 0 \<le> j
    \<and> j < go_len (matchIndex rf) \<and> length ni = length (nextIndex rf) \<and> rf' = persist rf1
    \<and> updateCommitIndex (rf\<lparr>nextIndex := ni, matchIndex := (matchIndex rf)[nat j := max (is_LastIncludedIndex args) (matchIndex rf ! nat j)]\<rparr>) = Some rf1)"
  (is "_ \<or> ?match")
proof (cases "\<exists>a. res = Some a \<and> \<not> currentTerm rf < isr_Term a \<and> rstate rf = LeaderState \<and> currentTerm rf = is_Term args
    \<and> is_LastIncludedIndex args = snapshotLastIndex rf")
  case True
  then obtain x rf1 where "rstate rf = LeaderState" "is_LastIncludedIndex args = snapshotLastIndex rf" "0 \<le> j" "j < go_len (matchIndex rf)" "rf' = persist rf1"
    "updateCommitIndex (rf\<lparr>nextIndex := (nextIndex rf)[nat j := x],
       matchIndex := (matchIndex rf)[nat j := max (is_LastIncludedIndex args) (matchIndex rf ! nat j)]\<rparr>) = Some rf1"
    using assms by (auto simp: sendInstallSnapshot_reply_def bind_Some_iff go_upd_Some_iff go_nth_Some_iff)
  then have ?match using length_list_update by metis
  then show ?thesis ..
next
  case False
  then have "minor rf rf'" using assms
    by (auto simp: sendInstallSnapshot_reply_def minor_def bind_Some_iff split: option.splits if_splits)
  then show ?thesis ..
qed

lemma reply_still:
  assumes S: "safe C G" and i: "i \<in> servers C" and L: "log_inv (put i rf C) (hist G)" and m: "minor (peers C i) rf"
  shows "safe (put i rf C) G"
proof -
  have "same_data (peers C i) rf \<and> commitIndex rf = commitIndex (peers C i) \<and> (currentTerm (peers C i) < currentTerm rf \<and> rstate rf \<noteq> LeaderState
      \<or> currentTerm rf = currentTerm (peers C i) \<and> rstate rf = rstate (peers C i) \<and> matchIndex rf = matchIndex (peers C i))"
    using m by (auto simp: minor_def same_data_def same_log_def)
  then show ?thesis using safe_still [OF S i, of "[]" rf] L put_spawn [of i rf C] by simp
qed

lemma line_le: "tree n G \<Longrightarrow> (t, p, Q, e) \<in> set (wins G) \<Longrightarrow> on_line G t e x \<Longrightarrow> on_line G t e m \<Longrightarrow> fst x \<le> fst m \<Longrightarrow> anc (hist G) x m"
  using line_cmp [of n G t p Q e x m] anc_eq [of "hist G" m x] by auto

lemma entries_matched:
  assumes S: "safe C G" and i: "i \<in> servers C" and L: "rstate (peers C i) = LeaderState" "currentTerm (peers C i) = t"
    and m: "msg_ok (nservers C) G i (SendEntries j t pi pt ci es)"
    and r: "reply_ok G (SendEntries j t pi pt ci es) (EntriesReply a)" "aer_Success a"
  shows "matched (nservers C) G (peers C i) j (pi + int (length es))"
proof -
  let ?m = "sent_end pi pt es"
  note T = safeD(2) [OF S]
  obtain Q e where w: "(t, i, Q, e) \<in> set (wins G)" "on_line G t e ?m" using m unfolding msg_ok_def goroutine.case by blast
  obtain Q' e' where w': "(t, i, Q', e') \<in> set (wins G)" "on_line G t e' (lastn (peers C i))"
    and own: "\<And>k. (k, t) \<in> dom (hist G) \<Longrightarrow> k \<le> fst (lastn (peers C i))"
    using safeD(4) [OF S i] L unfolding leader_ok_def by blast
  have e: "e' = e" using wins_unique [OF treeD(2) [OF T] w(1) w'(1)] by simp
  have f: "fst ?m = pi + int (length es)" by (simp add: sent_end_def)
  have "fst ?m \<le> fst (lastn (peers C i))"
  proof (cases "?m = e")
    case True
    then show ?thesis using anc_le [OF line_above [OF T w'(1,2)]] e by simp
  next
    case False
    then show ?thesis using w(2) own [of "fst ?m"] unfolding on_line_def by (metis prod.collapse)
  qed
  moreover have "(j, k, t) \<in> acks G" if k: "k \<le> fst ?m" "(k, t) \<in> dom (hist G)" for k
  proof -
    have "anc (hist G) (k, t) ?m" by (rule line_le [OF T w(1) _ w(2)]) (use k in \<open>simp_all add: on_line_def\<close>)
    then show ?thesis using r k(2) unfolding reply_ok_def by blast
  qed
  ultimately show ?thesis unfolding matched_def L(2) f by blast
qed

lemma entries_reply_safe:
  assumes S: "safe C G" and p: "(i, SendEntries j t pi pt ci es) \<in> pending C" and i: "i \<in> servers C"
    and r: "\<And>a. res = Some a \<Longrightarrow> reply_ok G (SendEntries j t pi pt ci es) (EntriesReply a)"
    and c: "sendEntries_reply j (sendEntries_args i t pi pt ci es) res (peers C i) = Some rf" and L: "log_inv (put i rf C) (hist G)"
  shows "safe (put i rf C) G"
proof -
  let ?rf = "peers C i"
  from sendEntries_reply_cases [OF c, unfolded sendEntries_args_def AppendEntriesArgs.simps] show ?thesis
  proof (elim disjE exE conjE)
    fix a ni rf1
    assume a: "res = Some a" "aer_Success a" and l: "rstate ?rf = LeaderState" "currentTerm ?rf = t" and j: "0 \<le> j" and n: "length ni = length (nextIndex ?rf)"
      and rf: "rf = persist rf1"
      and u: "updateCommitIndex (?rf\<lparr>nextIndex := ni, matchIndex := (matchIndex ?rf)[nat j := pi + int (length es)]\<rparr>) = Some rf1"
    have "matched (nservers C) G ?rf j (pi + int (length es))"
      by (rule entries_matched [OF S i l _ r [OF a(1)] a(2)]) (use safeD(6) [OF S] p in blast)
    then show ?thesis using match_safe [OF S i l(1) j _ u n] L rf by simp
  qed (rule reply_still [OF S i L])
qed

lemma snapshot_reply_safe:
  assumes S: "safe C G" and i: "i \<in> servers C"
    and c: "sendInstallSnapshot_reply j (sendInstallSnapshot_args i t si st data) res (peers C i) = Some rf" and L: "log_inv (put i rf C) (hist G)"
  shows "safe (put i rf C) G"
proof -
  let ?rf = "peers C i"
  from sendInstallSnapshot_reply_cases [OF c, unfolded sendInstallSnapshot_args_def InstallSnapshotArgs.simps] show ?thesis
  proof (elim disjE exE conjE)
    fix ni rf1
    assume l: "rstate ?rf = LeaderState" and si: "si = snapshotLastIndex ?rf" and j: "0 \<le> j" "j < go_len (matchIndex ?rf)"
      and n: "length ni = length (nextIndex ?rf)" and rf: "rf = persist rf1"
      and u: "updateCommitIndex (?rf\<lparr>nextIndex := ni, matchIndex := (matchIndex ?rf)[nat j := max si (matchIndex ?rf ! nat j)]\<rparr>) = Some rf1"
    have "nat j < nservers C" using j peer_props(1) [OF safeD(1) [OF S] i] by (simp add: go_len_def good_def wf_raft_def)
    then have "matched (nservers C) G ?rf (int (nat j)) (matchIndex ?rf ! nat j)" using safeD(4) [OF S i] l unfolding leader_ok_def by blast
    moreover have "si \<le> fst (lastn ?rf)" using anc_le [OF peer_facts(5) [OF S i]] si by (simp add: base_def)
    ultimately have "matched (nservers C) G ?rf j (max si (matchIndex ?rf ! nat j))"
      using si j(1) unfolding matched_def by (auto simp: le_max_iff_disj)
    then show ?thesis using match_safe [OF S i l j(1) _ u n] L rf by simp
  qed (rule reply_still [OF S i L])
qed

lemma continue_safe:
  assumes S: "safe C G" and p: "(i, g) \<in> pending C" and c: "continue i g res C = Some C'" and L: "log_inv C' (hist G)"
    and r: "\<And>a. res = Some a \<Longrightarrow> reply_ok G g a"
  shows "\<exists>G'. safe C' G'"
proof -
  have i: "i \<in> servers C" using p inv_goodD(2) [OF log_invD(1) [OF safeD(1) [OF S]]] by blast
  show ?thesis
  proof (cases g)
    case (SendRequestVote j t li lt)
    show ?thesis
    proof (cases "C' = C")
      case False
      then obtain a rf gs where a: "sendRequestVote_reply j t a (peers C i) = Some (rf, gs)" and C': "C' = spawn i gs (put i rf C)"
        using c SendRequestVote by (auto simp: continue_def bind_Some_iff split: option.splits rpc_reply.splits)
      from sendRequestVote_reply_cases [OF a] show ?thesis
      proof (elim disjE exE conjE)
        fix vs rf2
        assume w: "gs = [RunHeartbeatCycle]" "rf = persist rf2" "becomeLeader ((peers C i)\<lparr>votesReceived := vs\<rparr>) = Some rf2"
          "rstate (peers C i) \<noteq> LeaderState" "t = currentTerm (peers C i)"
        have "\<not> idle C (currentTerm (peers C i)) i" using p w(5) SendRequestVote by (auto simp: idle_def asks_def)
        then show ?thesis using win_safe [OF S i _ w(4,3)] L C' w(1,2) by blast
      qed (use safe_still [OF S i, of gs rf] L C' in \<open>auto intro!: exI [of _ G]\<close>)
    qed (use S in blast)
  next
    case (SendEntries j t pi pt ci es)
    show ?thesis
      using c entries_reply_safe [OF S p [unfolded SendEntries] i] r L SendEntries
      by (auto simp: continue_def bind_Some_iff split: option.splits rpc_reply.splits intro!: exI [of _ G])
  next
    case (SendInstallSnapshot j t si st data)
    then show ?thesis using c snapshot_reply_safe [OF S i] L
      by (auto simp: continue_def bind_Some_iff split: option.splits rpc_reply.splits intro!: exI [of _ G])
  qed (use c in \<open>auto simp: continue_def\<close>)
qed

section \<open>Every calm event\<close>

lemma continue_frame:
  "continue i g res C = Some C' \<Longrightarrow> applying C' = applying C \<and> delivered C' = delivered C"
  by (auto simp: continue_def bind_Some_iff put_def spawn_def split: goroutine.splits option.splits rpc_reply.splits)

lemma handle_applied:
  "handle now i g C = Some (C', r) \<Longrightarrow> applying C' = applying C \<and> delivered C' = delivered C"
  by (cases g) (auto simp: handle_def bind_Some_iff put_def grant_def split: if_splits)

lemma continue_fewer_safe:
  assumes S: "safe C G" and f: "fewer D C" "applying D = applying C" "delivered D = delivered C"
    and p: "(i, g) \<in> pending C" and c: "continue i g res D = Some C'"
    and v: "\<And>r. res = Some r \<Longrightarrow> (i, g, r) \<in> set (replies C)"
  shows "\<exists>G'. safe C' G'"
proof -
  note L = safeD(1) [OF S]
  obtain E where E: "continue i g res C = Some E" and "fewer C' E" using continue_fewer [OF f(1) c] by blast
  have "vote_inv E" by (rule continue_inv [OF log_invD(1) [OF L] p E]) (use v in \<open>auto simp: granted_def\<close>)
  then have "log_inv E (hist G)" by (rule continue_log [OF L p E])
  then obtain G' where "safe E G'" using continue_safe [OF S p E] v safeD(7) [OF S] by blast
  then have "safe C' G'"
    by (rule safe_fewer [OF \<open>fewer C' E\<close>, rotated 2]) (use continue_frame [OF c] continue_frame [OF E] f in auto)
  then show ?thesis ..
qed

lemma network_safe:
  assumes S: "safe C G"
  shows "step (Deliver i g now) C = Some C' \<Longrightarrow> \<not> upsets g C \<Longrightarrow> \<exists>G'. safe C' G'"
    and "step (DeliverOrphan i g now) C = Some C' \<Longrightarrow> \<not> upsets g C \<Longrightarrow> \<exists>G'. safe C' G'"
    and "step (Lose i g) C = Some C' \<Longrightarrow> \<exists>G'. safe C' G'"
    and "step (Reply i g r) C = Some C' \<Longrightarrow> \<exists>G'. safe C' G'"
    and "step (LoseReply i g r) C = Some C' \<Longrightarrow> \<exists>G'. safe C' G'"
proof -
  note L = safeD(1) [OF S]
  have d: "\<not> upsets g C \<Longrightarrow> \<not> demotes g C" by (cases g) auto
  show "\<exists>G'. safe C' G'" if s: "step (Deliver i g now) C = Some C'" and u: "\<not> upsets g C"
  proof -
    obtain C'' v where p: "(i, g) \<in> set (running C)" and h: "handle now i g C = Some (C'', v)"
      and C': "C' = answered i g v (finish i g C'')"
      using s by (auto simp: bind_Some_iff handle_finish answered_def split: if_splits)
    obtain G' where G': "hist G' = hist G" "safe C'' G'" "reply_ok G' g v" using handle_safe [OF S _ h u] p by blast
    have "log_inv (answered i g v C'') (hist G')" using handle_log [OF L _ h _ d [OF u]] p pending_running [OF p] G'(1) by simp
    moreover have "(i, g) \<in> pending C''" using p handle_frame [OF h] by (simp add: pending_def)
    ultimately have "safe (answered i g v C'') G'" using answer_safe [OF G'(2) _ G'(3)] by blast
    then have "safe C' G'"
      by (rule safe_fewer [rotated 3]) (simp_all add: fewer_def C' answered_def set_remove1_subset)
    then show ?thesis ..
  qed
  show "\<exists>G'. safe C' G'" if s: "step (DeliverOrphan i g now) C = Some C'" and u: "\<not> upsets g C"
  proof -
    let ?D = "C\<lparr>orphans := remove1 (i, g) (orphans C)\<rparr>"
    obtain v where p: "(i, g) \<in> set (orphans C)" and h: "handle now i g ?D = Some (C', v)"
      using s by (auto simp: bind_Some_iff split: if_splits)
    obtain E where E: "handle now i g C = Some (E, v)" and C': "C' = E\<lparr>orphans := remove1 (i, g) (orphans C)\<rparr>"
      using h by (auto simp: handle_orphans)
    obtain G' where G': "safe E G'" using handle_safe [OF S _ E u] p by blast
    then have "safe C' G'"
      by (rule safe_fewer [rotated 3]) (use handle_frame(4) [OF E] in \<open>simp_all add: C' fewer_def set_remove1_subset\<close>)
    then show ?thesis ..
  qed
  show "\<exists>G'. safe C' G'" if "step (Lose i g) C = Some C'"
    by (rule continue_fewer_safe [OF S fewer_finish, of i g i g None]) (use that in \<open>auto split: if_splits intro: pending_running\<close>)
  show "\<exists>G'. safe C' G'" if "step (LoseReply i g r) C = Some C'"
    by (rule continue_fewer_safe [OF S fewer_reply, of "(i, g, r)" i g None]) (use that in \<open>auto split: if_splits intro: pending_reply\<close>)
  show "\<exists>G'. safe C' G'" if "step (Reply i g r) C = Some C'"
    by (rule continue_fewer_safe [OF S fewer_reply, of "(i, g, r)" i g "Some r"]) (use that in \<open>auto split: if_splits intro: pending_reply\<close>)
qed

lemma safe_step: "safe C G \<Longrightarrow> calm e C \<Longrightarrow> step e C = Some C' \<Longrightarrow> \<exists>G'. safe C' G'"
  by (cases e) (simp only: calm.simps; blast intro: tick_safe elect_safe heartbeat_safe propose_safe snapshot_safe apply_safe restart_safe network_safe)+

section \<open>State machine safety\<close>

text \<open>The clusters reached by calm runs, and a calm run.\<close>

inductive calm_reachable :: "nat \<Rightarrow> 'c cluster \<Rightarrow> bool" for n where
  start: "calm_reachable n (initial n)"
| step: "calm_reachable n C \<Longrightarrow> calm e C \<Longrightarrow> step e C = Some C' \<Longrightarrow> calm_reachable n C'"

fun calm_run :: "'c event list \<Rightarrow> 'c cluster \<Rightarrow> 'c cluster option" where
  "calm_run [] C = Some C"
| "calm_run (e # es) C = (if calm e C then case step e C of Some C' \<Rightarrow> calm_run es C' | None \<Rightarrow> None else None)"

lemma calm_run_reachable: "calm_run es C = Some C' \<Longrightarrow> calm_reachable n C \<Longrightarrow> calm_reachable n C'"
  by (induction es C rule: calm_run.induct) (auto split: if_splits option.splits intro: calm_reachable.step)

lemma after_calm: "after P (calm_run es (initial n)) \<Longrightarrow> \<exists>C. calm_reachable n C \<and> P C"
  by (cases "calm_run es (initial n)") (auto intro: calm_run_reachable calm_reachable.start)

lemma initial_safe:
  assumes "odd n"
  shows "safe (initial n) \<lparr>hist = Map.empty, elogs = Map.empty, wins = [], acks = {}\<rparr>"
  using initial_log [OF assms] assms
  by (auto simp: safe_def tree_def inv_peers_def inv_msgs_def inv_polls_def inv_applied_def initial_def Make_def readPersist_def
      MakePersister_def pending_def idle_def peer_ok_def leader_ok_def settled_def lastn_def base_def sure_def logLength_def go_len_def)

lemma calm_safe: "calm_reachable n C \<Longrightarrow> odd n \<Longrightarrow> \<exists>G. safe C G"
  by (induction rule: calm_reachable.induct) (blast intro: initial_safe dest: safe_step)+

lemma delivered_agree:
  assumes "calm_reachable n C" and "odd n"
    and "CommandMsg c k \<in> set (delivered C i)" and "CommandMsg c' k \<in> set (delivered C j)"
  shows "c = c'"
proof -
  obtain G where S: "safe C G" using calm_safe [OF assms(1,2)] ..
  obtain t u T where x: "hist G (k, t) = Some (c, u)" "sure (nservers C) G T (k, t)" using safeD(13) [OF S assms(3)] by blast
  obtain t' u' T' where y: "hist G (k, t') = Some (c', u')" "sure (nservers C) G T' (k, t')" using safeD(13) [OF S assms(4)] by blast
  have "(k, t) = (k, t')" by (rule sure_unique [OF safeD(2) [OF S] x(2) y(2)]) simp
  then show ?thesis using x(1) y(1) by simp
qed

text \<open>C2. State machine safety: in a cluster of an odd number of servers, two servers never deliver different commands
  to their services at one index, through any number of elections, crashes, lost, delayed and reordered messages and
  snapshots, as long as no candidate or leader is handed a later term's snapshot and services compact only what was
  applied.
\<close>

theorem state_machine_safety:
  assumes "calm_reachable n C" and "odd n"
    and "CommandMsg c k \<in> set (delivered C i)" and "CommandMsg c' k \<in> set (delivered C j)"
  shows "c = c'"
  using delivered_agree [OF assms] .

text \<open>A run of three servers: server 0 is elected, replicates a command to server 1 and delivers it. Then server 1 learns that it
  is committed and delivers it too, or is elected by server 2.\<close>

definition replicate_run :: "nat event list" where
  "replicate_run = campaign 0 1 @ [Propose 0 0 10, Deliver 0 (SendEntries 1 1 0 0 0 [ent 1 10]) 0,
     Reply 0 (SendEntries 1 1 0 0 0 [ent 1 10])
       (EntriesReply \<lparr>aer_Term = 1, aer_Success = True, aer_FailedTerm = 0, aer_FailedFirstIndex = 0\<rparr>), Apply 0]"

theorem state_machine_safety_witness:
  "\<exists>C :: nat cluster. calm_reachable 3 C \<and> delivered C 0 = [CommandMsg (Some 10) 1]
    \<and> (\<forall>c. CommandMsg c 1 \<in> set (delivered C 1) \<longrightarrow> c = Some 10) \<and> delivered C 1 \<noteq> []"
proof -
  have "\<exists>C :: nat cluster. calm_reachable 3 C \<and> delivered C 0 = [CommandMsg (Some 10) 1] \<and> delivered C 1 = [CommandMsg (Some 10) 1]"
    by (rule after_calm [where es = "replicate_run @ [Heartbeat 0 0, Deliver 0 (SendEntries 1 1 1 1 1 []) 0, Apply 1]"]) code_simp
  then obtain C :: "nat cluster" where C: "calm_reachable 3 C" "delivered C 0 = [CommandMsg (Some 10) 1]"
    "delivered C 1 = [CommandMsg (Some 10) 1]" by blast
  have "CommandMsg c 1 \<in> set (delivered C 1) \<Longrightarrow> c = Some 10" for c
    using state_machine_safety [OF C(1), of "Some 10" 1 0 c 1] C(2) by simp
  then show ?thesis using C by force
qed

text \<open>A chosen entry is in the log of a leader whose term nobody has passed.\<close>

lemma leader_has_chosen:
  assumes S: "safe C G" and i: "i \<in> servers C" and l: "rstate (peers C i) = LeaderState"
    and top: "\<forall>q \<in> servers C. currentTerm (peers C q) \<le> currentTerm (peers C i)" and y: "chosen (nservers C) G y"
  shows "anc (hist G) y (lastn (peers C i))"
proof -
  note T = safeD(2) [OF S]
  let ?V = "currentTerm (peers C i)" and ?m = "lastn (peers C i)"
  obtain Q e where w: "(?V, i, Q, e) \<in> set (wins G)" and m: "on_line G ?V e ?m"
    and h: "\<And>k. (k, ?V) \<in> dom (hist G) \<Longrightarrow> k \<le> fst ?m"
    using safeD(4) [OF S i] l unfolding leader_ok_def by blast
  obtain R where "y \<in> dom (hist G)" and R: "quorum (nservers C) R" "\<forall>q \<in> R. (q, y) \<in> acks G" using y unfolding chosen_def by blast
  then obtain q where "(q, y) \<in> acks G" using quorum_meet [OF _ R(1) R(1)] T unfolding tree_def by blast
  then have "q \<in> servers C" "snd y \<le> currentTerm (peers C q)"
    using safeD(5) [OF S] safeD(3) [OF S, of q] unfolding peer_ok_def by blast+
  then have le: "snd y \<le> ?V" using top by force
  show ?thesis
  proof (cases "snd y = ?V")
    case True
    then have "on_line G ?V e y" "fst y \<le> fst ?m" using \<open>y \<in> dom (hist G)\<close> h [of "fst y"] by (cases y; auto simp: on_line_def)+
    then show ?thesis using line_le [OF T w _ m] by blast
  next
    case False
    then have "anc (hist G) y e" using leader_complete [OF T y w] le by simp
    moreover have "anc (hist G) e ?m" by (rule line_above [OF T w m])
    ultimately show ?thesis using anc_trans by blast
  qed
qed

text \<open>C3. Leader completeness: in a cluster of an odd number of servers, a leader whose term no server has passed has in
  its log every command that any server ever delivered to its service, at the index it was delivered, unless its
  snapshot covers that index (same runs as for state machine safety).
\<close>

theorem leader_completeness:
  assumes "calm_reachable n C" and "odd n" and "i \<in> servers C" and "rstate (peers C i) = LeaderState"
    and "\<forall>q \<in> servers C. currentTerm (peers C q) \<le> currentTerm (peers C i)"
    and "CommandMsg c k \<in> set (delivered C j)" and "snapshotLastIndex (peers C i) < k"
  shows "\<exists>t. entry_at (peers C i) k = Some \<lparr>Term = t, Command = c\<rparr>"
proof -
  obtain G where S: "safe C G" using calm_safe [OF assms(1,2)] ..
  let ?rf = "peers C i" and ?m = "nat (k - snapshotLastIndex (peers C i))"
  note P = peer_facts [OF S assms(3)]
  obtain t u T where x: "hist G (k, t) = Some (c, u)" "sure (nservers C) G T (k, t)" using safeD(13) [OF S assms(6)] by blast
  have "0 < k" using parent_node(1) [OF safeD(2) [OF S] x(1)] .
  then obtain y where "chosen (nservers C) G y" "anc (hist G) (k, t) y" using x(2) unfolding sure_def by auto
  then have a: "anc (hist G) (k, t) (lastn ?rf)" using leader_has_chosen [OF S assms(3-5)] anc_trans by blast
  have m: "?m < length (rlog ?rf)" "(k, t) = (k, Term (rlog ?rf ! ?m))" using log_at [OF P(1,2) a] assms(7) by simp_all
  then have "Command (rlog ?rf ! ?m) = c" using log_hist [OF P(1,2), of ?m] assms(7) x(1) by auto
  then have "rlog ?rf ! ?m = \<lparr>Term = t, Command = c\<rparr>" using m(2) by simp
  then show ?thesis using m(1) assms(7) by (auto simp: entry_at_def go_nth_Some_iff absoluteIndexToLogIndex_def go_len_def)
qed

theorem leader_completeness_witness:
  "\<exists>C :: nat cluster. calm_reachable 3 C \<and> delivered C 0 = [CommandMsg (Some 10) 1] \<and> rstate (peers C 1) = LeaderState
    \<and> currentTerm (peers C 1) = 2 \<and> (\<exists>t. entry_at (peers C 1) 1 = Some \<lparr>Term = t, Command = Some 10\<rparr>)"
proof -
  have "\<exists>C :: nat cluster. calm_reachable 3 C \<and> delivered C 0 = [CommandMsg (Some 10) 1] \<and> rstate (peers C 1) = LeaderState
    \<and> currentTerm (peers C 1) = 2 \<and> list_all (\<lambda>q. currentTerm (peers C q) \<le> 2) [0, 1, 2] \<and> nservers C = 3 \<and> snapshotLastIndex (peers C 1) = 0"
    by (rule after_calm [where es = "replicate_run @ [Tick 1 10000, Elect 1, Deliver 1 (SendRequestVote 2 2 1 1) 0,
      Reply 1 (SendRequestVote 2 2 1 1) (VoteReply \<lparr>rvr_Term = 0, rvr_VoteGranted = True\<rparr>)]"]) code_simp
  then obtain C :: "nat cluster" where C: "calm_reachable 3 C" "delivered C 0 = [CommandMsg (Some 10) 1]" "rstate (peers C 1) = LeaderState"
    "currentTerm (peers C 1) = 2" "list_all (\<lambda>q. currentTerm (peers C q) \<le> 2) [0, 1, 2]" "nservers C = 3" "snapshotLastIndex (peers C 1) = 0"
    by blast
  have s: "servers C = {0, 1, 2}" by (auto simp: servers_def C(6))
  have "\<exists>t. entry_at (peers C 1) 1 = Some \<lparr>Term = t, Command = Some 10\<rparr>"
    using leader_completeness [OF C(1), of 1 "Some 10" 1 0] C(2-7) by (simp add: s)
  then show ?thesis using C by blast
qed

end
