(* ===== verification/Raft_Plain.thy ===== *)
theory Raft_Plain
  imports Raft_Safety
begin

text \<open>
  Runs in which no service takes a snapshot. No snapshot is then ever sent, so that these runs are calm and have
  state machine safety without any assumption; and each server delivers its commands without gaps, from the first
  index again after every restart.
\<close>

section \<open>No snapshot is sent\<close>

definition plain_peer :: "'c Raft \<Rightarrow> bool" where
  "plain_peer rf \<longleftrightarrow> snapshotLastIndex rf = 0 \<and> isSnapshotApplied rf \<and> (rstate rf = LeaderState \<longrightarrow> (\<forall>x \<in> set (nextIndex rf). 1 \<le> x))"

fun plain_msg :: "'c goroutine \<Rightarrow> bool" where
  "plain_msg (SendInstallSnapshot j t si st data) \<longleftrightarrow> False"
| "plain_msg (SendEntries j t pi pt ci es) \<longleftrightarrow> 0 \<le> pi"
| "plain_msg _ \<longleftrightarrow> True"

text \<open>A rejection that the sender will look at names an index of the log.\<close>

fun plain_reply :: "'c goroutine \<Rightarrow> rpc_reply \<Rightarrow> bool" where
  "plain_reply (SendEntries j t pi pt ci es) (EntriesReply a) \<longleftrightarrow> aer_Success a \<or> t < aer_Term a \<or> 1 \<le> aer_FailedFirstIndex a"
| "plain_reply _ _ \<longleftrightarrow> True"

definition plainly :: "'c Raft \<Rightarrow> 'c Raft \<Rightarrow> bool" where
  "plainly rf rf' \<longleftrightarrow> (plain_peer rf \<longrightarrow> plain_peer rf') \<and> lastApplied rf' = lastApplied rf"

lemma plainlyD: "plainly rf rf' \<Longrightarrow> plain_peer rf \<Longrightarrow> plain_peer rf'"
  by (simp add: plainly_def)

lemma plainly_same:
  "snapshotLastIndex rf' = snapshotLastIndex rf \<Longrightarrow> isSnapshotApplied rf' = isSnapshotApplied rf \<Longrightarrow> lastApplied rf' = lastApplied rf \<Longrightarrow>
    rstate rf' = LeaderState \<longrightarrow> rstate rf = LeaderState \<and> (\<forall>x \<in> set (nextIndex rf'). x \<in> set (nextIndex rf) \<or> 1 \<le> x) \<Longrightarrow> plainly rf rf'"
  unfolding plainly_def plain_peer_def by auto

lemma sendLoop_plain:
  assumes "plain_peer rf" and "rstate rf = LeaderState"
  shows "sendLoop rf is = Some gs \<Longrightarrow> g \<in> set gs \<Longrightarrow> plain_msg g"
proof (induction "is" arbitrary: gs)
  case (Cons i "is")
  show ?case
  proof (cases "i = me rf")
    case False
    then obtain x g' gs' where x: "go_nth (nextIndex rf) i = Some x" and gs: "gs = g' # gs'" "sendLoop rf is = Some gs'"
      and g': "0 < x \<longrightarrow> (\<exists>pt ci es. g' = SendEntries i (currentTerm rf) (x - 1) pt ci es)"
      using Cons.prems(1) assms(1) by (auto simp: bind_Some_iff plain_peer_def Let_def split: if_splits)
    have "1 \<le> x" using x assms by (auto simp: go_nth_Some_iff plain_peer_def go_len_def)
    then have "plain_msg g'" using g' by auto
    then show ?thesis using Cons.IH [OF gs(2)] Cons.prems(2) gs(1) by auto
  qed (use Cons in auto)
qed simp

lemma StartSendEntries_plain:
  assumes "StartSendEntries now rf = Some (rf', gs)" and "plain_peer rf" and "rstate rf = LeaderState"
  shows "plainly rf rf'" and "g \<in> set gs \<Longrightarrow> plain_msg g"
proof -
  let ?rf = "rf\<lparr>lastHeartBeat := now\<rparr>"
  have s: "sendLoop ?rf (go_range (npeers rf)) = Some gs" and rf': "rf' = ?rf"
    using assms(1) by (auto simp: StartSendEntries_def Let_def bind_Some_iff)
  show "plainly rf rf'" by (rule plainly_same) (simp_all add: rf')
  show "plain_msg g" if "g \<in> set gs" by (rule sendLoop_plain [OF _ _ s that]) (use assms in \<open>simp_all add: plain_peer_def\<close>)
qed

lemma runHeartbeatCycle_plain:
  assumes "runHeartbeatCycle now rf = Some (rf', gs)" and "plain_peer rf"
  shows "plainly rf rf'" and "g \<in> set gs \<Longrightarrow> plain_msg g"
  using assms StartSendEntries_plain [of now rf rf'] plainly_same [of rf rf]
  by (auto simp: runHeartbeatCycle_def bind_Some_iff split: if_splits)

lemma Start_plain:
  assumes s: "Start now c rf = Some (rf', gs, res)" and p: "plain_peer rf"
  shows "plainly rf rf'" and "g \<in> set gs \<Longrightarrow> plain_msg g"
proof -
  have "plainly rf rf' \<and> (g \<in> set gs \<longrightarrow> plain_msg g)"
  proof (cases "rstate rf = LeaderState")
    case True
    then obtain mi rf2 where h: "StartSendEntries now (rf\<lparr>rlog := rlog rf @ [\<lparr>Term = currentTerm rf, Command = Some c\<rparr>], matchIndex := mi\<rparr>) = Some (rf2, gs)"
      and rf': "rf' = persist rf2" using s by (auto simp: Start_def bind_Some_iff Let_def)
    have "plain_peer (rf\<lparr>rlog := rlog rf @ [\<lparr>Term = currentTerm rf, Command = Some c\<rparr>], matchIndex := mi\<rparr>)"
      using p by (simp add: plain_peer_def)
    from StartSendEntries_plain [OF h this] True show ?thesis by (auto simp: plainly_def plain_peer_def rf')
  qed (use s in \<open>auto simp: Start_def intro!: plainly_same\<close>)
  then show "plainly rf rf'" and "g \<in> set gs \<Longrightarrow> plain_msg g" by blast+
qed

lemma startElection_plain:
  assumes "startElection rf = Some (rf', gs)"
  shows "plainly rf rf'" and "g \<in> set gs \<Longrightarrow> plain_msg g"
proof -
  have "plain_msg g" if "voteLoop r l is = Some gs" "g \<in> set gs" for r :: "'a Raft" and l "is" gs g
    using that by (induction "is" arbitrary: gs) (auto simp: bind_Some_iff split: if_splits)
  then show "plainly rf rf'" and "g \<in> set gs \<Longrightarrow> plain_msg g"
    using assms by (auto simp: startElection_def bind_Some_iff Let_def intro!: plainly_same)
qed

lemma RequestVote_plain: "RequestVote args rf = Some (rf', r) \<Longrightarrow> plainly rf rf'"
  by (auto simp: RequestVote_def Let_def bind_Some_iff split: if_splits intro!: plainly_same)

lemma AppendEntries_plain: "AppendEntries now args rf = Some (rf', r) \<Longrightarrow> plainly rf rf'"
  by (drule AppendEntries_outcome) (auto simp: commit_to_def plainly_def plain_peer_def split: if_splits)

lemma AppendEntries_rejects:
  assumes "AppendEntries now (sendEntries_args i t pi pt ci es) rf = Some (rf', r)" and "plain_peer rf" and "0 \<le> pi"
  shows "plain_reply (SendEntries j t pi pt ci es) (EntriesReply r)"
  using assms
  by (auto simp: AppendEntries_def Let_def bind_Some_iff sendEntries_args_def buildFailedReply_def plain_peer_def split: if_splits)

lemma becomeLeader_plain:
  assumes "becomeLeader rf = Some rf'" and "wf_raft rf"
  shows "plainly rf rf'"
proof -
  have "rlog rf \<noteq> []" using assms(2) by (rule wf_rlogD)
  then have "1 \<le> logLength rf" if "snapshotLastIndex rf = 0" using that by (cases "rlog rf") (simp_all add: logLength_def go_len_def)
  then show ?thesis using assms(1) by (auto simp: becomeLeader_def bind_Some_iff Let_def plainly_def plain_peer_def)
qed

lemma sendRequestVote_reply_plain:
  assumes "sendRequestVote_reply j t r rf = Some (rf', gs)" and "wf_raft rf"
  shows "plainly rf rf'" and "g \<in> set gs \<Longrightarrow> plain_msg g"
proof -
  have w: "wf_raft (rf\<lparr>votesReceived := vs\<rparr>)" for vs using assms(2) by (simp add: wf_raft_def)
  show "plainly rf rf'"
  proof (cases "gs = []")
    case True
    then show ?thesis using assms(1)
      by (auto simp: sendRequestVote_reply_def bind_Some_iff Let_def split: if_splits intro!: plainly_same)
  next
    case False
    then obtain vs rf2 where "rf' = persist rf2" "becomeLeader (rf\<lparr>votesReceived := vs\<rparr>) = Some rf2"
      using sendRequestVote_reply_cases [OF assms(1)] by blast
    then show ?thesis using becomeLeader_plain [OF _ w] by (simp add: plainly_def plain_peer_def)
  qed
  show "g \<in> set gs \<Longrightarrow> plain_msg g" using sendRequestVote_reply_cases [OF assms(1)] by auto
qed

lemma sendEntries_reply_plain:
  assumes c: "sendEntries_reply j (sendEntries_args i t pi pt ci es) res rf = Some rf'" and p: "0 \<le> pi"
    and r: "\<forall>a. res = Some a \<longrightarrow> plain_reply (SendEntries j t pi pt ci es) (EntriesReply a)"
  shows "plainly rf rf'"
proof -
  have u: "updateCommitIndex x = Some y \<Longrightarrow> \<exists>k. y = x\<lparr>commitIndex := k\<rparr>" for x y :: "'a Raft"
    by (cases "y = x") (auto simp: updateCommitIndex_def bind_Some_iff Let_def split: if_splits intro: exI [of _ "commitIndex x"])
  have n: "x \<in> set ns' \<Longrightarrow> x \<in> set ns \<or> x = v" if "go_upd ns k v = Some ns'" for ns ns' :: "int list" and k v x
    using that set_update_subset_insert [of ns "nat k" v] by (auto simp: go_upd_Some_iff)
  show ?thesis
    using c p r
    by (auto simp: sendEntries_reply_def sendEntries_args_def bind_Some_iff go_len_def split: option.splits if_splits
        intro!: plainly_same dest!: u dest: n)
qed

section \<open>The invariant of plain runs\<close>

text \<open>Each command is delivered after the one before it.\<close>

definition gapless :: "'c ApplyMsg list \<Rightarrow> bool" where
  "gapless ms \<longleftrightarrow> (\<forall>p < length ms. \<exists>c k. ms ! p = CommandMsg c k \<and> 0 < k \<and> (1 < k \<longrightarrow> (\<exists>q < p. \<exists>c'. ms ! q = CommandMsg c' (k - 1))))"

lemma gapless_snoc:
  assumes "gapless ms" and "0 < k" and "1 < k \<Longrightarrow> CommandMsg c' (k - 1) \<in> set ms"
  shows "gapless (ms @ [CommandMsg c k])"
proof -
  show ?thesis unfolding gapless_def
  proof (intro allI impI)
    fix p assume p: "p < length (ms @ [CommandMsg c k])"
    show "\<exists>d j. (ms @ [CommandMsg c k]) ! p = CommandMsg d j \<and> 0 < j \<and> (1 < j \<longrightarrow> (\<exists>q < p. \<exists>c'. (ms @ [CommandMsg c k]) ! q = CommandMsg c' (j - 1)))"
    proof (cases "p < length ms")
      case True
      then obtain d j where d: "ms ! p = CommandMsg d j" "0 < j" and q: "1 < j \<longrightarrow> (\<exists>q < p. \<exists>c'. ms ! q = CommandMsg c' (j - 1))"
        using assms(1) unfolding gapless_def by blast
      have "\<exists>q < p. \<exists>c'. (ms @ [CommandMsg c k]) ! q = CommandMsg c' (j - 1)" if j: "1 < j"
      proof -
        obtain q c' where "q < p" "ms ! q = CommandMsg c' (j - 1)" using q j by blast
        then show ?thesis using True by (intro exI [of _ q]) (auto simp: nth_append)
      qed
      then show ?thesis using d True by (auto simp: nth_append)
    next
      case False
      then have e: "p = length ms" using p by simp
      have "\<exists>q < p. \<exists>c'. (ms @ [CommandMsg c k]) ! q = CommandMsg c' (k - 1)" if j: "1 < k"
      proof -
        obtain q where "q < length ms" "ms ! q = CommandMsg c' (k - 1)" using assms(3) [OF j] by (auto simp: in_set_conv_nth)
        then show ?thesis by (intro exI [of _ q]) (auto simp: nth_append e)
      qed
      then show ?thesis using assms(2) by (simp add: e)
    qed
  qed
qed

definition told :: "'c cluster \<Rightarrow> int \<Rightarrow> bool" where
  "told C i \<longleftrightarrow> 0 \<le> lastApplied (peers C i) \<and> gapless (delivered C i)
     \<and> (0 < lastApplied (peers C i) \<longrightarrow> (\<exists>c. CommandMsg c (lastApplied (peers C i)) \<in> set (delivered C i)))"

definition plain :: "'c cluster \<Rightarrow> bool" where
  "plain C \<longleftrightarrow> (\<forall>i \<in> servers C. plain_peer (peers C i) \<and> told C i)
     \<and> (\<forall>i g. (i, g) \<in> pending C \<union> set (orphans C) \<longrightarrow> plain_msg g) \<and> (\<forall>i g r. (i, g, r) \<in> set (replies C) \<longrightarrow> plain_reply g r)"

lemma plainD:
  assumes "plain C"
  shows "i \<in> servers C \<Longrightarrow> plain_peer (peers C i)" "i \<in> servers C \<Longrightarrow> told C i"
    "(i, g) \<in> pending C \<union> set (orphans C) \<Longrightarrow> plain_msg g" "(i, g, r) \<in> set (replies C) \<Longrightarrow> plain_reply g r"
  using assms unfolding plain_def by blast+

lemma plain_change:
  assumes P: "plain C" and n: "nservers C' = nservers C" and p: "peers C' = (peers C)(i := rf)" and r: "plainly (peers C i) rf"
    and d: "delivered C' = delivered C"
    and m: "\<And>k g. (k, g) \<in> pending C' \<union> set (orphans C') \<Longrightarrow> (k, g) \<in> pending C \<union> set (orphans C) \<or> plain_msg g"
    and a: "\<And>k g r. (k, g, r) \<in> set (replies C') \<Longrightarrow> (k, g, r) \<in> set (replies C) \<or> plain_reply g r"
  shows "plain C'"
proof -
  have s: "servers C' = servers C" by (simp add: servers_def n)
  have "plain_peer (peers C' k) \<and> told C' k" if "k \<in> servers C'" for k
  proof (cases "k = i")
    case True
    have "lastApplied rf = lastApplied (peers C i)" "plain_peer (peers C i) \<Longrightarrow> plain_peer rf" using r by (simp_all add: plainly_def)
    then show ?thesis using plainD(1,2) [OF P, of k] that by (simp add: told_def p d s True)
  qed (use plainD(1,2) [OF P, of k] that in \<open>simp add: told_def p d s\<close>)
  then show ?thesis using plainD(3,4) [OF P] m a unfolding plain_def by blast
qed

lemma plain_fewer:
  assumes P: "plain C" and f: "fewer D C" and d: "delivered D = delivered C"
  shows "plain D"
proof (rule plain_change [OF P, where i = 0 and rf = "peers C 0"])
  have "pending D \<subseteq> pending C" using f by (intro pending_mono(1)) (simp_all add: fewer_def)
  then show "(k, g) \<in> pending C \<union> set (orphans C) \<or> plain_msg g" if "(k, g) \<in> pending D \<union> set (orphans D)" for k g
    using that f unfolding fewer_def by blast
qed (use f d in \<open>auto simp: fewer_def plainly_def\<close>)

section \<open>Every plain event\<close>

lemma tick_plain:
  assumes P: "plain C" and s: "step (Tick i now) C = Some C'"
  shows "plain C'"
proof -
  obtain rf gs where tk: "ticker now (peers C i) = (rf, gs)" by fastforce
  have "plainly (peers C i) rf" "set gs \<subseteq> {StartElection}" using tk by (auto simp: ticker_def split: if_splits intro!: plainly_same)
  then show ?thesis
    using s tk by (intro plain_change [OF P, of C' i rf]) (auto split: if_splits)
qed

lemma elect_plain:
  assumes P: "plain C" and s: "step (Elect i) C = Some C'"
  shows "plain C'"
proof -
  obtain rf gs where e: "startElection (peers C i) = Some (rf, gs)"
    and C': "C' = spawn i gs (grant (currentTerm rf) i i (put i rf (finish i StartElection C)))"
    using s by (auto simp: bind_Some_iff split: if_splits)
  show ?thesis using startElection_plain [OF e]
    by (intro plain_change [OF P, of C' i rf]) (auto simp: C' dest: pending_finish)
qed

lemma heartbeat_plain:
  assumes P: "plain C" and v: "vote_inv C" and s: "step (Heartbeat i now) C = Some C'"
  shows "plain C'"
proof -
  obtain rf gs where p: "(i, RunHeartbeatCycle) \<in> set (running C)" and h: "runHeartbeatCycle now (peers C i) = Some (rf, gs)"
    and C': "C' = spawn i gs (put i rf (finish i RunHeartbeatCycle C))"
    using s by (auto simp: bind_Some_iff split: if_splits)
  show ?thesis using runHeartbeatCycle_plain [OF h plainD(1) [OF P running_caller [OF v p]]]
    by (intro plain_change [OF P, of C' i rf]) (auto simp: C' dest: pending_finish)
qed

lemma propose_plain:
  assumes P: "plain C" and s: "step (Propose i now c) C = Some C'"
  shows "plain C'"
proof -
  obtain rf gs res where i: "i \<in> servers C" and h: "Start now c (peers C i) = Some (rf, gs, res)" and C': "C' = spawn i gs (put i rf C)"
    using s by (auto simp: bind_Some_iff split: if_splits)
  show ?thesis using Start_plain [OF h plainD(1) [OF P i]]
    by (intro plain_change [OF P, of C' i rf]) (auto simp: C')
qed

lemma restart_plain:
  assumes P: "plain C" and v: "vote_inv C" and s: "step (Restart i) C = Some C'"
  shows "plain C'"
proof -
  obtain rf where i: "i \<in> servers C" and m: "Make (nservers C) i (persister (peers C i)) = Some rf"
    and C': "nservers C' = nservers C" "peers C' = (peers C)(i := rf)" "delivered C' = delivered C"
      "running C' = filter (\<lambda>(k, g). k \<noteq> i) (running C)" "replies C' = filter (\<lambda>(k, g, r). k \<noteq> i) (replies C)"
      "orphans C' = orphans C @ filter (\<lambda>(k, g). k = i) (running C)"
    using s by (auto simp: bind_Some_iff split: if_splits)
  have sl: "snapshotLastIndex rf = 0"
    using inv_goodD(1) [OF v i] m plainD(1) [OF P i] by (auto simp: good_def durable_def plain_peer_def)
  then have rf: "lastApplied rf = 0" "plain_peer rf"
    using m by (auto simp: Make_def readPersist_def bind_Some_iff Let_def plain_peer_def split: if_splits)
  have "plain_peer (peers C' k) \<and> told C' k" if "k \<in> servers C'" for k
    using plainD(1,2) [OF P, of k] that rf by (cases "k = i") (auto simp: told_def C' servers_def)
  moreover have "pending C' \<union> set (orphans C') \<subseteq> pending C \<union> set (orphans C)"
    using pending_mono(1) [of C' C] by (auto simp: C' intro: pending_running)
  moreover have "set (replies C') \<subseteq> set (replies C)" by (auto simp: C')
  ultimately show ?thesis using plainD(3,4) [OF P] unfolding plain_def by blast
qed

lemma apply_plain:
  assumes P: "plain C" and s: "step (Apply i) C = Some C'"
  shows "plain C'"
proof -
  let ?rf = "peers C i"
  obtain rf pc m where i: "i \<in> servers C" and a: "applyTicker (applying C i) ?rf = Some (rf, pc, m)"
    and C': "C' = (put i rf C)\<lparr>applying := (applying C)(i := pc),
                delivered := (delivered C)(i := delivered C i @ (case m of None \<Rightarrow> [] | Some m \<Rightarrow> [m]))\<rparr>"
    using s by (auto simp: bind_Some_iff split: if_splits)
  have p: "plain_peer ?rf" "told C i" using plainD(1,2) [OF P i] by simp_all
  have "plain_peer rf \<and> (m = None \<and> lastApplied rf = lastApplied ?rf
      \<or> lastApplied rf = lastApplied ?rf + 1 \<and> (\<exists>c. m = Some (CommandMsg c (lastApplied rf))))"
    using a p(1) by (auto simp: applyTicker_def applySnapshots_def applyCommands_def bind_Some_iff Let_def plain_peer_def
        split: apply_pc.splits if_splits)
  then have r: "plain_peer rf \<and> told C' i"
    using p(2) gapless_snoc [of "delivered C i" "lastApplied rf"] by (auto simp: told_def C' intro: exI)
  have "plain_peer (peers C' k) \<and> told C' k" if "k \<in> servers C'" for k
    using plainD(1,2) [OF P, of k] that r by (cases "k = i") (auto simp: told_def C' servers_def)
  moreover have "pending C' = pending C" "orphans C' = orphans C" "replies C' = replies C" by (simp_all add: C' pending_def)
  ultimately show ?thesis using plainD(3,4) [OF P] unfolding plain_def by simp
qed

lemma handle_plain:
  assumes P: "plain C" and p: "(i, g) \<in> pending C \<union> set (orphans C)" and h: "handle now i g C = Some (C', r)"
  shows "plain C' \<and> plain_reply g r"
proof -
  note m = plainD(3) [OF P p]
  have F: "nservers C' = nservers C" "running C' = running C" "orphans C' = orphans C" "replies C' = replies C" "delivered C' = delivered C"
    using handle_frame [OF h] handle_applied [OF h] by simp_all
  have pd: "pending C' = pending C" by (simp add: pending_def F)
  obtain j rf where j: "j \<in> servers C" "peers C' = (peers C)(j := rf)" "plainly (peers C j) rf" "plain_reply g r"
  proof (cases g)
    case (SendRequestVote j t li lt)
    then obtain rf a where a: "j \<in> servers C" "RequestVote (sendRequestVote_args i t li lt) (peers C j) = Some (rf, a)"
      "peers C' = (peers C)(j := rf)" using h by (auto simp: handle_def bind_Some_iff split: if_splits)
    show ?thesis by (rule that [OF a(1,3) RequestVote_plain [OF a(2)]]) (simp add: SendRequestVote)
  next
    case (SendEntries j t pi pt ci es)
    then obtain rf a where a: "j \<in> servers C" "AppendEntries now (sendEntries_args i t pi pt ci es) (peers C j) = Some (rf, a)"
      "C' = put j rf C" "r = EntriesReply a" using h by (auto simp: handle_def bind_Some_iff split: if_splits)
    have "plain_reply g r" using AppendEntries_rejects [OF a(2) plainD(1) [OF P a(1)]] m SendEntries a(4) by simp
    then show ?thesis using that [of j rf] a AppendEntries_plain [OF a(2)] by simp
  qed (use h m in \<open>auto simp: handle_def\<close>)
  have "plain C'" by (rule plain_change [OF P F(1) j(2,3) F(5)]) (simp_all add: pd F)
  then show ?thesis using j(4) by simp
qed

lemma continue_plain:
  assumes P: "plain C" and v: "vote_inv C" and p: "(i, g) \<in> pending C" and c: "continue i g res C = Some C'"
    and r: "\<And>a. res = Some a \<Longrightarrow> plain_reply g a"
  shows "plain C'"
proof -
  have m: "plain_msg g" using plainD(3) [OF P] p by blast
  have i: "i \<in> servers C" using p inv_goodD(2) [OF v] by blast
  then have w: "wf_raft (peers C i)" using inv_goodD(1) [OF v] by (simp add: good_def)
  have out: "plain (spawn i gs (put i rf C))" if "plainly (peers C i) rf" "\<And>h. h \<in> set gs \<Longrightarrow> plain_msg h" for rf gs
    by (rule plain_change [OF P, of _ i rf]) (use that in auto)
  have e: "spawn i [] (put i rf C) = put i rf C" for rf by (simp add: spawn_def put_def)
  show ?thesis
  proof (cases g)
    case (SendRequestVote j t li lt)
    then show ?thesis using c P out sendRequestVote_reply_plain [OF _ w]
      by (auto simp: continue_def bind_Some_iff split: option.splits rpc_reply.splits)
  next
    case (SendEntries j t pi pt ci es)
    then obtain a rf where a: "sendEntries_reply j (sendEntries_args i t pi pt ci es) a (peers C i) = Some rf" "C' = put i rf C"
      "\<forall>b. a = Some b \<longrightarrow> res = Some (EntriesReply b)"
      using c by (auto simp: continue_def bind_Some_iff split: option.splits rpc_reply.splits)
    have "plainly (peers C i) rf" by (rule sendEntries_reply_plain [OF a(1)]) (use m r a(3) SendEntries in auto)
    then show ?thesis using out [of rf "[]"] a(2) e by simp
  qed (use c m in \<open>auto simp: continue_def\<close>)
qed

lemma continue_fewer_plain:
  assumes P: "plain C" and v: "vote_inv C" and f: "fewer D C" "delivered D = delivered C"
    and p: "(i, g) \<in> pending C" and c: "continue i g res D = Some C'" and r: "\<And>r. res = Some r \<Longrightarrow> (i, g, r) \<in> set (replies C)"
  shows "plain C'"
proof -
  obtain E where E: "continue i g res C = Some E" and "fewer C' E" using continue_fewer [OF f(1) c] by blast
  have "plain E" by (rule continue_plain [OF P v p E]) (use r plainD(4) [OF P] in blast)
  then show ?thesis by (rule plain_fewer [OF _ \<open>fewer C' E\<close>]) (use continue_frame [OF c] continue_frame [OF E] f in auto)
qed

lemma network_plain:
  assumes P: "plain C" and v: "vote_inv C"
  shows "step (Deliver i g now) C = Some C' \<Longrightarrow> plain C'" and "step (DeliverOrphan i g now) C = Some C' \<Longrightarrow> plain C'"
    and "step (Lose i g) C = Some C' \<Longrightarrow> plain C'" and "step (Reply i g r) C = Some C' \<Longrightarrow> plain C'"
    and "step (LoseReply i g r) C = Some C' \<Longrightarrow> plain C'"
proof -
  show "plain C'" if s: "step (Deliver i g now) C = Some C'"
  proof -
    let ?D = "finish i g C"
    obtain E a where p: "(i, g) \<in> set (running C)" and h: "handle now i g C = Some (E, a)" and C': "C' = answered i g a (finish i g E)"
      using s by (auto simp: bind_Some_iff handle_finish answered_def split: if_splits)
    have E: "plain E" "plain_reply g a" using handle_plain [OF P _ h] pending_running [OF p] by blast+
    have m: "(i, g) \<in> pending E" using p handle_frame [OF h] by (simp add: pending_def)
    have "plain (answered i g a E)"
      by (rule plain_change [OF E(1), of _ i "peers E i"]) (use E(2) m in \<open>auto simp: answered_def pending_def plainly_def\<close>)
    then show ?thesis by (rule plain_fewer) (simp_all add: fewer_def C' answered_def set_remove1_subset)
  qed
  show "plain C'" if s: "step (DeliverOrphan i g now) C = Some C'"
  proof -
    obtain E a where p: "(i, g) \<in> set (orphans C)" and h: "handle now i g C = Some (E, a)" and C': "C' = E\<lparr>orphans := remove1 (i, g) (orphans C)\<rparr>"
      using s by (auto simp: bind_Some_iff handle_orphans split: if_splits)
    have "plain E" using handle_plain [OF P _ h] p by blast
    then show ?thesis by (rule plain_fewer) (use handle_frame(4) [OF h] in \<open>simp_all add: C' fewer_def set_remove1_subset\<close>)
  qed
  show "plain C'" if "step (Lose i g) C = Some C'"
    by (rule continue_fewer_plain [OF P v fewer_finish, of i g i g None]) (use that in \<open>auto split: if_splits intro: pending_running\<close>)
  show "plain C'" if "step (LoseReply i g r) C = Some C'"
    by (rule continue_fewer_plain [OF P v fewer_reply, of "(i, g, r)" i g None]) (use that in \<open>auto split: if_splits intro: pending_reply\<close>)
  show "plain C'" if "step (Reply i g r) C = Some C'"
    by (rule continue_fewer_plain [OF P v fewer_reply, of "(i, g, r)" i g "Some r"]) (use that in \<open>auto split: if_splits intro: pending_reply\<close>)
qed

fun compacts :: "'c event \<Rightarrow> bool" where
  "compacts (TakeSnapshot i index snap) \<longleftrightarrow> True"
| "compacts _ \<longleftrightarrow> False"

lemma plain_step: "plain C \<Longrightarrow> vote_inv C \<Longrightarrow> \<not> compacts e \<Longrightarrow> step e C = Some C' \<Longrightarrow> plain C'"
  by (cases e) (simp only: compacts.simps simp_thms;
    blast intro: tick_plain elect_plain heartbeat_plain propose_plain apply_plain restart_plain network_plain)+

lemma plain_calm:
  assumes "plain C" and "\<not> compacts e" and "step e C = Some C'"
  shows "calm e C"
proof -
  have m: "plain_msg g \<Longrightarrow> \<not> upsets g C" for g by (cases g) auto
  have "plain_msg g" if "(i, g) \<in> set (running C) \<union> set (orphans C)" for i g using that plainD(3) [OF assms(1)] pending_running by blast
  then show ?thesis using assms(2,3) m by (cases e) (fastforce split: if_splits)+
qed

section \<open>Plain runs\<close>

inductive plain_reachable :: "nat \<Rightarrow> 'c cluster \<Rightarrow> bool" for n where
  start: "plain_reachable n (initial n)"
| step: "plain_reachable n C \<Longrightarrow> \<not> compacts e \<Longrightarrow> step e C = Some C' \<Longrightarrow> plain_reachable n C'"

lemma initial_plain: "plain (initial n)"
  by (auto simp: plain_def initial_def Make_def readPersist_def MakePersister_def plain_peer_def told_def gapless_def pending_def)

lemma plain_reachable_inv: "plain_reachable n C \<Longrightarrow> plain C \<and> calm_reachable n C \<and> reachable n C"
proof (induction rule: plain_reachable.induct)
  case start
  show ?case using initial_plain calm_reachable.start reachable.start by blast
next
  case (step C e C')
  have "plain C'" using plain_step [OF _ _ step(2,3)] step(4) reachable_inv by blast
  moreover have "calm e C" using plain_calm [OF _ step(2,3)] step(4) by blast
  ultimately show ?case using step(3,4) calm_reachable.step reachable.step by blast
qed

fun plain_run :: "'c event list \<Rightarrow> 'c cluster \<Rightarrow> 'c cluster option" where
  "plain_run [] C = Some C"
| "plain_run (e # es) C = (if compacts e then None else case step e C of Some C' \<Rightarrow> plain_run es C' | None \<Rightarrow> None)"

lemma plain_run_reachable: "plain_run es C = Some C' \<Longrightarrow> plain_reachable n C \<Longrightarrow> plain_reachable n C'"
  by (induction es C rule: plain_run.induct) (auto split: if_splits option.splits intro: plain_reachable.step)

lemma after_plain: "after P (plain_run es (initial n)) \<Longrightarrow> \<exists>C. plain_reachable n C \<and> P C"
  by (cases "plain_run es (initial n)") (auto intro: plain_run_reachable plain_reachable.start)

end
