(* ===== verification/Go_Fmt.thy ===== *)
theory Go_Fmt
  imports Go_Prelude
begin

text \<open>
  Decimal numbers as \<^verbatim>\<open>strconv\<close>, \<^verbatim>\<open>fmt\<close> and \<^verbatim>\<open>encoding/json\<close> write and read them.
\<close>

section \<open>Definitions\<close>

definition digit :: "nat \<Rightarrow> char" where
  "digit n = char_of (48 + n)"

fun show_nat :: "nat \<Rightarrow> string" where
  "show_nat n = (if n < 10 then [digit n] else show_nat (n div 10) @ [digit (n mod 10)])"

declare show_nat.simps [simp del]

definition show_int :: "int \<Rightarrow> string" where
  "show_int i = (if i < 0 then CHR ''-'' # show_nat (nat (- i)) else show_nat (nat i))"

definition is_digit :: "char \<Rightarrow> bool" where
  "is_digit c \<longleftrightarrow> (48 :: nat) \<le> of_char c \<and> of_char c < (58 :: nat)"

fun read_digits :: "nat \<Rightarrow> string \<Rightarrow> nat \<times> string" where
  "read_digits acc [] = (acc, [])"
| "read_digits acc (c # cs) =
     (if is_digit c then read_digits (acc * 10 + (of_char c - 48)) cs else (acc, c # cs))"

definition read_nat :: "string \<Rightarrow> (nat \<times> string) option" where
  "read_nat s = (case s of [] \<Rightarrow> None | c # cs \<Rightarrow> if is_digit c then Some (read_digits 0 s) else None)"

definition read_int :: "string \<Rightarrow> (int \<times> string) option" where
  "read_int s =
     (case s of
        [] \<Rightarrow> None
      | c # cs \<Rightarrow>
          if c = CHR ''-'' then map_option (\<lambda>(n, r). (- int n, r)) (read_nat cs)
          else map_option (\<lambda>(n, r). (int n, r)) (read_nat s))"

section \<open>Reading back what was written\<close>

lemma digit_props:
  assumes "n < 10"
  shows "is_digit (digit n)" "of_char (digit n) - 48 = n"
  using assms by (simp_all add: is_digit_def digit_def of_char_of)

text \<open>What may follow a number.\<close>

definition stops :: "string \<Rightarrow> bool" where
  "stops r \<longleftrightarrow> (case r of [] \<Rightarrow> True | c # cs \<Rightarrow> \<not> is_digit c)"

lemma read_digits_show:
  "read_digits acc (show_nat n @ s) = read_digits (acc * 10 ^ length (show_nat n) + n) s"
proof (induction n arbitrary: acc s rule: show_nat.induct)
  case (1 n)
  show ?case
  proof (cases "n < 10")
    case True
    then show ?thesis using digit_props [OF True] by (simp add: show_nat.simps [of n])
  next
    case False
    have "n mod 10 < 10" by simp
    note d = digit_props [OF this]
    have "n div 10 * 10 + n mod 10 = n" by simp
    then show ?thesis using False 1 d
      by (simp add: show_nat.simps [of n] algebra_simps)
  qed
qed

lemma read_digits_stops: "stops s \<Longrightarrow> read_digits acc s = (acc, s)"
  by (cases s) (simp_all add: stops_def)

lemma show_nat_hd: "\<exists>c cs. show_nat n = c # cs \<and> is_digit c"
proof (induction n rule: show_nat.induct)
  case (1 n)
  then show ?case
    by (cases "n < 10") (auto simp: show_nat.simps [of n] digit_props)
qed

lemma read_nat_show: "stops s \<Longrightarrow> read_nat (show_nat n @ s) = Some (n, s)"
proof -
  assume s: "stops s"
  obtain c cs where c: "show_nat n = c # cs" "is_digit c" using show_nat_hd by blast
  have "read_digits 0 (show_nat n @ s) = (n, s)" by (simp add: read_digits_show read_digits_stops [OF s])
  then show ?thesis using c by (simp add: read_nat_def)
qed

lemma not_digit [simp]: "\<not> is_digit (CHR ''-'')" "\<not> is_digit (CHR '','')" "\<not> is_digit (CHR '']'')"
  "\<not> is_digit (CHR ''}'')" "\<not> is_digit (CHR 0x22)"
  by (simp_all add: is_digit_def)

lemma read_int_show: "stops s \<Longrightarrow> read_int (show_int i @ s) = Some (i, s)"
proof -
  assume s: "stops s"
  obtain c cs where c: "show_nat (nat i) = c # cs" "is_digit c" using show_nat_hd by blast
  have "c \<noteq> CHR ''-''" using c(2) by auto
  moreover have "read_nat (c # cs @ s) = Some (nat i, s)" using read_nat_show [OF s, of "nat i"] c(1) by simp
  ultimately show ?thesis
    using read_nat_show [OF s, of "nat (- i)"] c(1) by (cases "i < 0") (simp_all add: show_int_def read_int_def)
qed

lemma show_int_hd: "\<exists>c cs. show_int i = c # cs \<and> (is_digit c \<or> c = CHR ''-'')"
  using show_nat_hd [of "nat i"] unfolding show_int_def by fastforce

lemma show_nat_inject: "show_nat m = show_nat n \<longleftrightarrow> m = n"
proof
  assume "show_nat m = show_nat n"
  then have "read_nat (show_nat m @ []) = read_nat (show_nat n @ [])" by simp
  moreover have "stops []" by (simp add: stops_def)
  ultimately show "m = n" using read_nat_show by (metis option.inject prod.inject)
qed simp

lemma show_int_inject: "show_int i = show_int j \<longleftrightarrow> i = j"
proof
  assume "show_int i = show_int j"
  then have "read_int (show_int i @ []) = read_int (show_int j @ [])" by simp
  moreover have "stops []" by (simp add: stops_def)
  ultimately show "i = j" using read_int_show by (metis option.inject prod.inject)
qed simp

lemma show_nat_digits: "c \<in> set (show_nat n) \<Longrightarrow> is_digit c"
proof (induction n rule: show_nat.induct)
  case (1 n)
  have "is_digit (digit (n mod 10))" by (rule digit_props) simp
  then show ?case using 1 digit_props(1) [of n]
    by (cases "n < 10") (auto simp: show_nat.simps [of n])
qed

end
