(* ===== verification/Raft_Server.thy ===== *)
theory Raft_Server
  imports Raft_Peer_Props Go_Fmt
begin

text \<open>
  The server the Raft tests run on top of a peer (\<^verbatim>\<open>raft1/server.go\<close>): it reads the apply channel,
  tells the tester what it was sent, keeps the commands, and every ten commands hands the peer a
  snapshot of them. The tester's answers to \<^verbatim>\<open>CheckLogs\<close> are arguments, the calls to it are results.
  The peer runs concurrently: each message comes with the peer as it is when the message is processed.

  Snapshots are encoded with \<^verbatim>\<open>labgob\<close>: \<open>enc\<close> and \<open>dec\<close> are parameters, the theorems assume that decoding
  an encoded snapshot gives it back and that an encoding is not empty.
\<close>

definition SnapShotInterval :: int where
  "SnapShotInterval = 10"

type_synonym 'c command_log = "int \<rightharpoonup> 'c option"

record 'c rfsrv =
  rs_me :: int
  rs_lastApplied :: int
  rs_raft :: "'c Raft option"
  rs_log :: "'c command_log"

text \<open>The calls of the interface \<^verbatim>\<open>Itester\<close>.\<close>

datatype 'c tester_call = CheckLogs int "'c ApplyMsg" | IngestLog int "'c command_log" | ApplyErr int string

definition read_log :: "'c command_log \<Rightarrow> int \<Rightarrow> 'c option" where
  \<comment> \<open>a missing key of the map reads as nil\<close>
  "read_log l j = (case l j of None \<Rightarrow> None | Some c \<Rightarrow> c)"

definition out_of_order :: "int \<Rightarrow> int \<Rightarrow> string" where
  "out_of_order i index = ''server '' @ show_int i @ '' apply out of order '' @ show_int index"

definition unexpected_index :: "int \<Rightarrow> int \<Rightarrow> int \<Rightarrow> string" where
  "unexpected_index i expected index =
     ''server '' @ show_int i @ '' apply out of order, expected index '' @ show_int expected @ '', got '' @ show_int index"

definition report :: "string \<Rightarrow> 'c rfsrv \<Rightarrow> 'c tester_call list" where
  "report err rs = (if err \<noteq> [] then [ApplyErr (rs_me rs) err] else [])"

section \<open>Reading the apply channel\<close>

fun applier :: "('c ApplyMsg \<times> string \<times> bool) list \<Rightarrow> 'c rfsrv \<Rightarrow> 'c tester_call list" where
  "applier [] rs = []"
| "applier ((SnapshotMsg _ _ _, _) # ms) rs = applier ms rs"
| "applier ((CommandMsg c index, err_msg, prevok) # ms) rs =
     (let err = (if index > 1 \<and> \<not> prevok then out_of_order (rs_me rs) index else err_msg)
      in CheckLogs (rs_me rs) (CommandMsg c index) # report err rs @ applier ms rs)"

text \<open>The snapshot is nil (\<open>None\<close>) or a byte slice; the result is the error string.\<close>

definition ingestSnap :: "(bytes \<Rightarrow> (int \<times> 'c option list) option) \<Rightarrow> bytes option \<Rightarrow> int \<Rightarrow> 'c rfsrv \<Rightarrow> 'c rfsrv \<times> string" where
  "ingestSnap dec snap index rs =
     (case snap of
        None \<Rightarrow> (rs, ''nil snapshot'')
      | Some b \<Rightarrow>
          (case dec b of
             None \<Rightarrow> (rs, ''failed to decode snapshot'')
           | Some (lastIncludedIndex, xlog) \<Rightarrow>
               if index \<noteq> -1 \<and> index \<noteq> lastIncludedIndex
               then (rs, ''server '' @ show_int (rs_me rs) @ '' snapshot doesn't match m.SnapshotIndex'')
               else (rs\<lparr>rs_log := (\<lambda>j. go_nth xlog j), rs_lastApplied := lastIncludedIndex\<rparr>, [])))"

definition snapshot_log :: "int \<Rightarrow> 'c command_log \<Rightarrow> 'c option list" where
  \<comment> \<open>\<^verbatim>\<open>for j := 0; j <= index; j++\<close>\<close>
  "snapshot_log index l = map (\<lambda>j. read_log l (int j)) [0..<nat (index + 1)]"

definition applierSnap_command :: "(int \<times> 'c option list \<Rightarrow> bytes) \<Rightarrow> string \<times> bool \<Rightarrow> 'c option \<Rightarrow> int \<Rightarrow> 'c rfsrv \<Rightarrow>
    ('c rfsrv \<times> 'c tester_call list) option" where
  "applierSnap_command enc answer c index rs =
     (let (calls, err) =
        (if index \<noteq> rs_lastApplied rs + 1 then ([], unexpected_index (rs_me rs) (rs_lastApplied rs + 1) index)
         else let (err_msg, prevok) = answer
              in ([CheckLogs (rs_me rs) (CommandMsg c index)],
                  if err_msg \<noteq> ''ErrRPC'' \<and> index > 1 \<and> \<not> prevok then out_of_order (rs_me rs) index else err_msg));
        rs1 = rs\<lparr>rs_log := (rs_log rs)(index \<mapsto> c), rs_lastApplied := index\<rparr>
      in do {
        rs2 \<leftarrow> (if (index + 1) mod SnapShotInterval = 0 then do {
                  rf \<leftarrow> rs_raft rs1;
                  rf1 \<leftarrow> Snapshot index (enc (index, snapshot_log index (rs_log rs1))) rf;
                  Some (rs1\<lparr>rs_raft := Some rf1\<rparr>)
                } else Some rs1);
        Some (rs2, calls @ report err rs)
      })"

definition applierSnap_snapshot :: "(bytes \<Rightarrow> (int \<times> 'c option list) option) \<Rightarrow> bytes \<Rightarrow> int \<Rightarrow> 'c rfsrv \<Rightarrow> 'c rfsrv \<times> 'c tester_call list" where
  "applierSnap_snapshot dec snap index rs =
     (let (rs1, err) = ingestSnap dec (Some snap) index rs
      in (rs1, IngestLog (rs_me rs1) (rs_log rs1) # report err rs1))"

text \<open>The loop: each message with the tester's answer and the peer at that time.\<close>

fun applierSnap_loop :: "(int \<times> 'c option list \<Rightarrow> bytes) \<Rightarrow> (bytes \<Rightarrow> (int \<times> 'c option list) option) \<Rightarrow>
    ('c ApplyMsg \<times> (string \<times> bool) \<times> 'c Raft) list \<Rightarrow> 'c rfsrv \<Rightarrow> ('c rfsrv \<times> 'c tester_call list) option" where
  "applierSnap_loop enc dec [] rs = Some (rs, [])"
| "applierSnap_loop enc dec ((m, answer, rf) # ms) rs = do {
     (rs1, calls1) \<leftarrow> (case m of
        SnapshotMsg snap _ index \<Rightarrow> Some (applierSnap_snapshot dec snap index (rs\<lparr>rs_raft := Some rf\<rparr>))
      | CommandMsg c index \<Rightarrow> applierSnap_command enc answer c index (rs\<lparr>rs_raft := Some rf\<rparr>));
     (rs2, calls2) \<leftarrow> applierSnap_loop enc dec ms rs1;
     Some (rs2, calls1 @ calls2)
   }"

definition applierSnap :: "(int \<times> 'c option list \<Rightarrow> bytes) \<Rightarrow> (bytes \<Rightarrow> (int \<times> 'c option list) option) \<Rightarrow>
    ('c ApplyMsg \<times> (string \<times> bool) \<times> 'c Raft) list \<Rightarrow> 'c rfsrv \<Rightarrow> ('c rfsrv \<times> 'c tester_call list) option" where
  "applierSnap enc dec ms rs = (if rs_raft rs = None then Some (rs, []) else applierSnap_loop enc dec ms rs)"

section \<open>Starting a server\<close>

text \<open>The last argument is the flag \<^verbatim>\<open>tester.UseRaftStateMachine\<close>, the one before says whether snapshots are on.\<close>

definition newRfsrv :: "(bytes \<Rightarrow> (int \<times> 'c option list) option) \<Rightarrow> nat \<Rightarrow> int \<Rightarrow> 'c Persister \<Rightarrow> bool \<Rightarrow> bool \<Rightarrow>
    ('c rfsrv \<times> 'c tester_call list) option" where
  "newRfsrv dec n srv ps snapshots useRaftStateMachine = do {
     let sn = psnapshot ps;
     let s = \<lparr>rs_me = srv, rs_lastApplied = 0, rs_raft = None, rs_log = Map.empty\<rparr>;
     s1 \<leftarrow> (if useRaftStateMachine then Some s
            else do { rf \<leftarrow> Make n srv ps; Some (s\<lparr>rs_raft := Some rf\<rparr>) });
     if snapshots \<and> sn \<noteq> [] then
       (let (s2, err) = ingestSnap dec (Some sn) (-1) s1
        in if err \<noteq> [] then None else Some (s2, [IngestLog (rs_me s2) (rs_log s2)]))
     else Some (s1, [])
   }"

definition rs_Start :: "int \<Rightarrow> 'c \<Rightarrow> 'c rfsrv \<Rightarrow> ('c rfsrv \<times> 'c goroutine list \<times> int \<times> int \<times> bool) option" where
  "rs_Start now command rs =
     (case rs_raft rs of
        None \<Rightarrow> Some (rs, [], 0, 0, False)
      | Some rf \<Rightarrow> do {
          (rf1, gs, index, term, isLeader) \<leftarrow> Start now command rf;
          Some (rs\<lparr>rs_raft := Some rf1\<rparr>, gs, index, term, isLeader)
        })"

definition rs_GetState :: "'c rfsrv \<Rightarrow> (int \<times> bool) option" where
  "rs_GetState rs = map_option GetState (rs_raft rs)"

section \<open>Following the committed log\<close>

text \<open>
  The messages a peer sends for the committed log \<open>L\<close> (entry 0 is the dummy) from index \<open>k\<close> on: the next command, or a
  snapshot of a prefix. The tester accepts every command, and the peer still has the entry or has compacted it.
\<close>

fun follows :: "(int \<times> 'c option list \<Rightarrow> bytes) \<Rightarrow> 'c option list \<Rightarrow> nat \<Rightarrow> ('c ApplyMsg \<times> (string \<times> bool) \<times> 'c Raft) list \<Rightarrow> nat \<Rightarrow> bool" where
  "follows enc L k [] k' \<longleftrightarrow> k' = k"
| "follows enc L k ((CommandMsg c i, answer, rf) # ms) k' \<longleftrightarrow>
     Suc k < length L \<and> i = int (Suc k) \<and> c = L ! Suc k \<and> answer = ([], True) \<and> i < logLength rf \<and> follows enc L (Suc k) ms k'"
| "follows enc L k ((SnapshotMsg b t i, answer, rf) # ms) k' \<longleftrightarrow>
     0 \<le> i \<and> i < go_len L \<and> b = enc (i, take (Suc (nat i)) L) \<and> follows enc L (nat i) ms k'"

definition holds_prefix :: "'c option list \<Rightarrow> nat \<Rightarrow> 'c rfsrv \<Rightarrow> bool" where
  "holds_prefix L k rs \<longleftrightarrow> k < length L \<and> rs_lastApplied rs = int k \<and> (\<forall>j \<le> k. read_log (rs_log rs) (int j) = L ! j)"

lemma snapshot_log_prefix:
  assumes "holds_prefix L k rs"
  shows "snapshot_log (int k) (rs_log rs) = take (Suc k) L"
  using assms by (intro nth_equalityI) (auto simp: snapshot_log_def holds_prefix_def nat_add_distrib simp del: upt_Suc)

lemma Snapshot_any:
  assumes "i < logLength rf"
  shows "\<exists>rf'. Snapshot i b rf = Some rf' \<and> saved rf' \<and> (snapshotLastIndex rf < i \<longrightarrow> snapshot rf' = b \<and> snapshotLastIndex rf' = i)"
proof (cases "snapshotLastIndex rf < i")
  case True
  with assms show ?thesis by (simp add: Snapshot_closed Let_def)
next
  case False
  then show ?thesis by (simp add: Snapshot_def)
qed

lemma command_step:
  assumes "holds_prefix L k rs" and "Suc k < length L" and "rs_raft rs = Some rf" and "int (Suc k) < logLength rf"
  shows "\<exists>rs' rf'. applierSnap_command enc ([], True) (L ! Suc k) (int (Suc k)) rs
        = Some (rs', [CheckLogs (rs_me rs) (CommandMsg (L ! Suc k) (int (Suc k)))])
    \<and> holds_prefix L (Suc k) rs' \<and> rs_me rs' = rs_me rs \<and> rs_raft rs' = Some rf'
    \<and> ((int k + 2) mod SnapShotInterval = 0 \<and> snapshotLastIndex rf < int (Suc k) \<longrightarrow>
        saved rf' \<and> snapshot rf' = enc (int (Suc k), take (Suc (Suc k)) L) \<and> snapshotLastIndex rf' = int (Suc k))"
proof -
  let ?i = "int (Suc k)" and ?rs1 = "rs\<lparr>rs_log := (rs_log rs)(int (Suc k) \<mapsto> L ! Suc k), rs_lastApplied := int (Suc k)\<rparr>"
  have h: "holds_prefix L (Suc k) ?rs1" using assms(1,2) by (auto simp: holds_prefix_def read_log_def le_Suc_eq)
  have l: "snapshot_log ?i (rs_log ?rs1) = take (Suc (Suc k)) L" using snapshot_log_prefix [OF h] by simp
  obtain rf' where rf': "Snapshot ?i (enc (?i, take (Suc (Suc k)) L)) rf = Some rf'" "saved rf'"
    "snapshotLastIndex rf < ?i \<longrightarrow> snapshot rf' = enc (?i, take (Suc (Suc k)) L) \<and> snapshotLastIndex rf' = ?i"
    using Snapshot_any [OF assms(4)] by blast
  have la: "rs_lastApplied rs + 1 = ?i" using assms(1) by (simp add: holds_prefix_def)
  have h2: "holds_prefix L (Suc k) (?rs1\<lparr>rs_raft := Some r\<rparr>)" for r using h by (simp add: holds_prefix_def)
  show ?thesis
  proof (cases "(?i + 1) mod SnapShotInterval = 0")
    case True
    with l rf' la assms(3) h2 [of rf'] show ?thesis
      by (simp add: applierSnap_command_def report_def Let_def)
  next
    case False
    with la assms(3) h show ?thesis by (simp add: applierSnap_command_def report_def Let_def add.commute)
  qed
qed

lemma snapshot_step:
  assumes "\<forall>x. dec (enc x) = Some x" and "0 \<le> i" and "i < go_len L"
  shows "\<exists>rs'. applierSnap_snapshot dec (enc (i, take (Suc (nat i)) L)) i rs = (rs', [IngestLog (rs_me rs) (rs_log rs')])
    \<and> holds_prefix L (nat i) rs' \<and> rs_me rs' = rs_me rs"
  using assms
  by (auto simp: applierSnap_snapshot_def ingestSnap_def report_def holds_prefix_def read_log_def go_nth_def go_len_def min_def)

definition no_errors :: "'c tester_call list \<Rightarrow> bool" where
  "no_errors calls \<longleftrightarrow> (\<forall>i e. ApplyErr i e \<notin> set calls)"

lemma loop_follows:
  assumes "\<forall>x. dec (enc x) = Some x"
  shows "holds_prefix L k rs \<Longrightarrow> follows enc L k ms k' \<Longrightarrow>
    \<exists>rs' calls. applierSnap_loop enc dec ms rs = Some (rs', calls) \<and> holds_prefix L k' rs' \<and> rs_me rs' = rs_me rs \<and> no_errors calls"
proof (induction ms arbitrary: k rs)
  case (Cons x ms)
  obtain m answer rf where x: "x = (m, answer, rf)" by (cases x)
  let ?rs = "rs\<lparr>rs_raft := Some rf\<rparr>"
  have h: "holds_prefix L k ?rs" using Cons.prems(1) by (simp add: holds_prefix_def)
  show ?case
  proof (cases m)
    case (CommandMsg c i)
    then have f: "Suc k < length L" "i = int (Suc k)" "c = L ! Suc k" "answer = ([], True)" "i < logLength rf"
      "follows enc L (Suc k) ms k'" using Cons.prems(2) x by simp_all
    obtain rs1 rf' where 1: "applierSnap_command enc ([], True) (L ! Suc k) (int (Suc k)) ?rs
        = Some (rs1, [CheckLogs (rs_me ?rs) (CommandMsg (L ! Suc k) (int (Suc k)))])"
      "holds_prefix L (Suc k) rs1" "rs_me rs1 = rs_me ?rs"
      using command_step [OF h f(1), of rf enc] f(2,5) by auto
    from Cons.IH [OF 1(2) f(6)] 1(1,3) f(2-4) show ?thesis by (auto simp: x CommandMsg no_errors_def)
  next
    case (SnapshotMsg b t i)
    then have f: "0 \<le> i" "i < go_len L" "b = enc (i, take (Suc (nat i)) L)" "follows enc L (nat i) ms k'"
      using Cons.prems(2) x by simp_all
    obtain rs1 where 1: "applierSnap_snapshot dec b i ?rs = (rs1, [IngestLog (rs_me ?rs) (rs_log rs1)])"
      "holds_prefix L (nat i) rs1" "rs_me rs1 = rs_me ?rs"
      using snapshot_step [OF assms f(1,2), of ?rs] f(3) by blast
    from Cons.IH [OF 1(2) f(4)] 1(1,3) show ?thesis by (auto simp: x SnapshotMsg no_errors_def)
  qed
qed (simp add: no_errors_def)

lemma follows_append:
  "follows enc L k (ms @ ms') k' \<longleftrightarrow> (\<exists>j. follows enc L k ms j \<and> follows enc L j ms' k')"
  by (induction enc L k ms k' rule: follows.induct) auto

lemma loop_append:
  "applierSnap_loop enc dec ms rs = Some (rs1, calls1) \<Longrightarrow> applierSnap_loop enc dec ms' rs1 = Some (rs2, calls2) \<Longrightarrow>
    applierSnap_loop enc dec (ms @ ms') rs = Some (rs2, calls1 @ calls2)"
  by (induction ms arbitrary: rs calls1) (fastforce simp: bind_Some_iff)+

lemma fresh_prefix:
  assumes "newRfsrv dec n srv MakePersister True False = Some (rs, calls0)"
  shows "holds_prefix (None # cmds) 0 rs \<and> rs_raft rs \<noteq> None \<and> rs_me rs = srv \<and> calls0 = []"
  using assms by (auto simp: newRfsrv_def MakePersister_def Make_def readPersist_def holds_prefix_def read_log_def)

section \<open>A codec\<close>

text \<open>A concrete encoding of snapshots of commands without content: the index in decimal, then a letter per entry.\<close>

definition text_enc :: "int \<times> unit option list \<Rightarrow> bytes" where
  "text_enc x = bytes_of_string (show_int (fst x) @ CHR '','' # map (\<lambda>c. if c = None then CHR ''n'' else CHR ''c'') (snd x))"

definition text_dec :: "bytes \<Rightarrow> (int \<times> unit option list) option" where
  "text_dec b = do {
     (i, s) \<leftarrow> read_int (map (\<lambda>w. char_of (unat w)) b);
     Some (i, map (\<lambda>c. if c = CHR ''n'' then None else Some ()) (tl s))
   }"

lemma text_dec_enc: "text_dec (text_enc x) = Some x"
proof -
  have "map (\<lambda>w. char_of (unat w)) (bytes_of_string s) = s" for s
    by (induction s) (simp_all add: bytes_of_string_def unat_of_nat)
  moreover have "map (\<lambda>c. if c = CHR ''n'' then None else Some ()) (map (\<lambda>c. if c = None then CHR ''n'' else CHR ''c'') l) = l" for l
    by (induction l) auto
  ultimately show ?thesis by (cases x) (simp add: text_dec_def text_enc_def read_int_show stops_def)
qed


text \<open>Snapshots survive a restart. When the last command read is one the server takes a snapshot after,
  and the peer had not compacted it yet, a server started from the peer's persister holds the same prefix of the
  log, tells the tester so, and its peer goes on with the next index.\<close>

lemma restart_prefix:
  assumes "\<forall>x. dec (enc x) = Some x" and "\<forall>x. enc x \<noteq> []"
    and "newRfsrv dec n srv MakePersister True False = Some (rs, calls0)"
    and "follows enc (None # cmds) 0 (ms @ [(CommandMsg c i, answer, rf)]) k"
    and "(i + 1) mod SnapShotInterval = 0" and "snapshotLastIndex rf < i"
  shows "\<exists>rs' calls rf' rs2 rf2. applierSnap enc dec (ms @ [(CommandMsg c i, answer, rf)]) rs = Some (rs', calls)
    \<and> rs_raft rs' = Some rf' \<and> newRfsrv dec n srv (persister rf') True False = Some (rs2, [IngestLog srv (rs_log rs2)])
    \<and> rs_lastApplied rs2 = i \<and> (\<forall>j \<le> nat i. read_log (rs_log rs2) (int j) = (None # cmds) ! j)
    \<and> rs_raft rs2 = Some rf2 \<and> lastApplied rf2 = i \<and> commitIndex rf2 = i"
proof -
  let ?L = "None # cmds"
  obtain j where j: "follows enc ?L 0 ms j" "Suc j < length ?L" "i = int (Suc j)" "c = ?L ! Suc j" "answer = ([], True)"
    "i < logLength rf" using assms(4) by (auto simp: follows_append)
  have f: "holds_prefix ?L 0 rs" "rs_raft rs \<noteq> None" using fresh_prefix [OF assms(3)] by blast+
  obtain rs1 calls1 where 1: "applierSnap_loop enc dec ms rs = Some (rs1, calls1)" "holds_prefix ?L j rs1"
    using loop_follows [OF assms(1) f(1) j(1)] by blast
  let ?rs1 = "rs1\<lparr>rs_raft := Some rf\<rparr>"
  have h: "holds_prefix ?L j ?rs1" using 1(2) by (simp add: holds_prefix_def)
  obtain rs' calls2 rf' where 2: "applierSnap_command enc answer c i ?rs1 = Some (rs', calls2)" "rs_raft rs' = Some rf'"
    "saved rf'" "snapshot rf' = enc (i, take (Suc (Suc j)) ?L)" "snapshotLastIndex rf' = i"
    using command_step [OF h j(2), of rf enc] j(3-6) assms(5,6) by (auto simp: add.commute)
  have run: "applierSnap enc dec (ms @ [(CommandMsg c i, answer, rf)]) rs = Some (rs', calls1 @ calls2)"
    using f(2) loop_append [OF 1(1), of "[(CommandMsg c i, answer, rf)]" rs' calls2] 2(1) by (auto simp: applierSnap_def)
  obtain rf2 where m: "Make n srv (persister rf') = Some rf2" "lastApplied rf2 = i" "commitIndex rf2 = i"
    using 2(3,5) by (auto simp: Make_def saved_def readPersist_encode Let_def)
  have p: "psnapshot (persister rf') = enc (i, take (Suc (Suc j)) ?L)" using 2(3,4) by (simp add: saved_def)
  let ?rs2 = "\<lparr>rs_me = srv, rs_lastApplied = i, rs_raft = Some rf2, rs_log = go_nth (take (Suc (Suc j)) ?L)\<rparr>"
  have "newRfsrv dec n srv (persister rf') True False = Some (?rs2, [IngestLog srv (rs_log ?rs2)])"
    using m(1) p assms(1,2) by (simp add: newRfsrv_def ingestSnap_def)
  moreover have "read_log (rs_log ?rs2) (int l) = ?L ! l" if "l \<le> nat i" for l
  proof -
    have "l < Suc (Suc j)" using that j(3) by simp
    then show ?thesis using j(2) by (simp add: read_log_def go_nth_def go_len_def del: take_Suc_Cons)
  qed
  ultimately show ?thesis using run 2(2) m by (intro exI conjI) auto
qed

section \<open>Properties\<close>

text \<open>C40. A fresh Raft server that reads what a peer sends for a committed log, commands in order and
  snapshots of prefixes, reports no error to the tester, never panics in the peer's \<^verbatim>\<open>Snapshot\<close>, and holds
  the prefix of the log up to the last index applied. When the last command is one it takes a snapshot after
  and the peer had not compacted it yet, a server started from the peer's persister holds the same prefix,
  tells the tester so, and its peer goes on with the next index.\<close>

theorem rfsrv_follows_log:
  assumes "\<forall>x. dec (enc x) = Some x" and "\<forall>x. enc x \<noteq> []"
    and "newRfsrv dec n srv MakePersister True False = Some (rs, calls0)" and "follows enc (None # cmds) 0 ms k"
  shows "\<exists>rs' calls. applierSnap enc dec ms rs = Some (rs', calls) \<and> (\<forall>i e. ApplyErr i e \<notin> set calls)
    \<and> rs_lastApplied rs' = int k \<and> (\<forall>j \<le> k. read_log (rs_log rs') (int j) = (None # cmds) ! j)
    \<and> (\<forall>ms0 c i answer rf. ms = ms0 @ [(CommandMsg c i, answer, rf)] \<and> (i + 1) mod SnapShotInterval = 0 \<and> snapshotLastIndex rf < i \<longrightarrow>
        (\<exists>rf' rs2 rf2. rs_raft rs' = Some rf' \<and> newRfsrv dec n srv (persister rf') True False = Some (rs2, [IngestLog srv (rs_log rs2)])
          \<and> rs_lastApplied rs2 = i \<and> (\<forall>j \<le> nat i. read_log (rs_log rs2) (int j) = (None # cmds) ! j)
          \<and> rs_raft rs2 = Some rf2 \<and> lastApplied rf2 = i \<and> commitIndex rf2 = i))"
proof -
  have f: "holds_prefix (None # cmds) 0 rs" "rs_raft rs \<noteq> None" using fresh_prefix [OF assms(3)] by blast+
  from loop_follows [OF assms(1) f(1) assms(4)] obtain rs' calls where 1: "applierSnap enc dec ms rs = Some (rs', calls)"
    "holds_prefix (None # cmds) k rs'" "no_errors calls" using f(2) by (auto simp: applierSnap_def)
  have "\<exists>rf' rs2 rf2. rs_raft rs' = Some rf' \<and> newRfsrv dec n srv (persister rf') True False = Some (rs2, [IngestLog srv (rs_log rs2)])
          \<and> rs_lastApplied rs2 = i \<and> (\<forall>j \<le> nat i. read_log (rs_log rs2) (int j) = (None # cmds) ! j)
          \<and> rs_raft rs2 = Some rf2 \<and> lastApplied rf2 = i \<and> commitIndex rf2 = i"
    if "ms = ms0 @ [(CommandMsg c i, answer, rf)] \<and> (i + 1) mod SnapShotInterval = 0 \<and> snapshotLastIndex rf < i"
    for ms0 c i answer rf
    using restart_prefix [OF assms(1-3), of cmds ms0 c i answer rf k] assms(4) that 1(1) by auto
  with 1 show ?thesis unfolding holds_prefix_def no_errors_def by blast
qed

section \<open>Witnesses\<close>

text \<open>Nine commands, after the last of which the server takes a snapshot; the peer holds them all.\<close>

definition full_peer :: "unit Raft" where
  "full_peer = (the (Make 3 0 MakePersister))\<lparr>rlog := replicate 10 \<lparr>Term = 0, Command = None\<rparr>\<rparr>"

definition demo_msgs :: "int list \<Rightarrow> (unit ApplyMsg \<times> (string \<times> bool) \<times> unit Raft) list" where
  "demo_msgs is = map (\<lambda>i. (CommandMsg (Some ()) i, ([], True), full_peer)) is"

lemma demo_follows: "follows text_enc (None # replicate 9 (Some ())) 0 (demo_msgs [1..8] @ [(CommandMsg (Some ()) 9, ([], True), full_peer)]) 9"
  by (simp add: demo_msgs_def upto.simps logLength_def full_peer_def Make_def readPersist_def MakePersister_def go_len_def
      numeral_eq_Suc nth_Cons' Let_def)

theorem rfsrv_follows_log_witness:
  "\<exists>rs calls0 rs' calls rf' rs2. newRfsrv text_dec 3 0 MakePersister True False = Some (rs, calls0)
    \<and> applierSnap text_enc text_dec (demo_msgs [1..8] @ [(CommandMsg (Some ()) 9, ([], True), full_peer)]) rs = Some (rs', calls)
    \<and> rs_lastApplied rs' = 9 \<and> (\<forall>i e. ApplyErr i e \<notin> set calls)
    \<and> rs_raft rs' = Some rf' \<and> newRfsrv text_dec 3 0 (persister rf') True False = Some (rs2, [IngestLog 0 (rs_log rs2)])
    \<and> rs_lastApplied rs2 = 9"
proof -
  let ?ms = "demo_msgs [1..8] @ [(CommandMsg (Some ()) 9, ([], True), full_peer)]"
  obtain rs calls0 where n: "newRfsrv text_dec 3 0 MakePersister True False = Some (rs, calls0)"
    by (auto simp: newRfsrv_def MakePersister_def Make_def readPersist_def)
  have e: "\<forall>x. text_dec (text_enc x) = Some x" "\<forall>x. text_enc x \<noteq> []"
    using text_dec_enc by (auto simp: text_enc_def bytes_of_string_def)
  have s: "(9 + 1 :: int) mod SnapShotInterval = 0" "snapshotLastIndex full_peer < 9"
    by (simp_all add: SnapShotInterval_def full_peer_def Make_def readPersist_def MakePersister_def)
  obtain rs' calls where r: "applierSnap text_enc text_dec ?ms rs = Some (rs', calls)" "\<forall>i e. ApplyErr i e \<notin> set calls"
    "rs_lastApplied rs' = int 9"
    "\<forall>ms0 c i answer rf. ?ms = ms0 @ [(CommandMsg c i, answer, rf)] \<and> (i + 1) mod SnapShotInterval = 0 \<and> snapshotLastIndex rf < i \<longrightarrow>
        (\<exists>rf' rs2 rf2. rs_raft rs' = Some rf' \<and> newRfsrv text_dec 3 0 (persister rf') True False = Some (rs2, [IngestLog 0 (rs_log rs2)])
          \<and> rs_lastApplied rs2 = i \<and> (\<forall>j \<le> nat i. read_log (rs_log rs2) (int j) = (None # replicate 9 (Some ())) ! j)
          \<and> rs_raft rs2 = Some rf2 \<and> lastApplied rf2 = i \<and> commitIndex rf2 = i)"
    using rfsrv_follows_log [OF e n demo_follows] by (elim exE conjE) (rule that)
  have "rs_lastApplied rs' = 9" using r(3) by simp
  moreover obtain rf' rs2 where "rs_raft rs' = Some rf'"
    "newRfsrv text_dec 3 0 (persister rf') True False = Some (rs2, [IngestLog 0 (rs_log rs2)])" "rs_lastApplied rs2 = 9"
    using r(4) [rule_format, OF conjI [OF refl conjI [OF s]]] by (elim exE conjE) (rule that)
  ultimately show ?thesis using n r(1,2) by (intro exI conjI)
qed

end
