(* ===== verification/Raft_Test.thy ===== *)
theory Raft_Test
  imports Raft_Plain Raft_Server "HOL-Library.Sublist"
begin

text \<open>
  The checks of the Raft tests (\<^verbatim>\<open>raft1/test.go\<close>): the copies of the servers' committed entries that the servers report
  over \<^verbatim>\<open>CheckLogs\<close>, and the checks of leaders, terms and agreement. What the tests read from the servers
  (\<^verbatim>\<open>GetState\<close>, \<^verbatim>\<open>Start\<close>) are arguments. A check that ends the test returns \<open>Inl\<close> with the message of \<^verbatim>\<open>Fatalf\<close>, a
  panic is \<open>None\<close>. How Go prints a command is the parameter \<open>shw\<close>.

  The theorems compose the checks with the cluster: of an odd number of servers they never find two leaders of a term,
  whatever happens while they ask one server after the other, and without snapshots the servers' reports are never
  rejected.
\<close>

section \<open>State\<close>

record 'c raftServer =
  rfsrv_set :: bool
    \<comment> \<open>\<^verbatim>\<open>rfsrv != nil\<close>\<close>
  applyErr :: string
  logs :: "'c command_log"

record 'c Test =
  ts_n :: nat
  ts_finished :: bool
  ts_srvs :: "'c raftServer option list"
  ts_maxIndex :: int
  ts_snapshot :: bool

definition newRaftServer :: "'c raftServer" where
  "newRaftServer = \<lparr>rfsrv_set = True, applyErr = [], logs = Map.empty\<rparr>"

definition rs_entry :: "'c raftServer \<Rightarrow> int \<Rightarrow> 'c option option" where
  "rs_entry rs i = logs rs i"

text \<open>A server of the slice that must not be nil.\<close>

definition srv_at :: "'c Test \<Rightarrow> int \<Rightarrow> 'c raftServer option" where
  "srv_at ts i = do { s \<leftarrow> go_nth (ts_srvs ts) i; s }"

definition set_srv :: "int \<Rightarrow> 'c raftServer \<Rightarrow> 'c Test \<Rightarrow> 'c Test option" where
  "set_srv i rs ts = do { l \<leftarrow> go_upd (ts_srvs ts) i (Some rs); Some (ts\<lparr>ts_srvs := l\<rparr>) }"

definition mksrv :: "int \<Rightarrow> 'c Test \<Rightarrow> 'c Test option" where
  "mksrv srv ts = do {
     s \<leftarrow> go_nth (ts_srvs ts) srv;
     (case s of None \<Rightarrow> set_srv srv newRaftServer ts
      | Some rs \<Rightarrow> set_srv srv (rs\<lparr>rfsrv_set := True\<rparr>) ts)
   }"

fun mksrvs :: "int list \<Rightarrow> 'c Test \<Rightarrow> 'c Test option" where
  "mksrvs [] ts = Some ts"
| "mksrvs (i # is) ts = do { ts1 \<leftarrow> mksrv i ts; mksrvs is ts1 }"

definition makeTest :: "nat \<Rightarrow> bool \<Rightarrow> 'c Test option" where
  "makeTest n snap =
     mksrvs (go_range n) \<lparr>ts_n = n, ts_finished = False, ts_srvs = replicate n None, ts_maxIndex = 0, ts_snapshot = snap\<rparr>"

definition ts_cleanup :: "'c Test \<Rightarrow> 'c Test" where
  "ts_cleanup ts = ts\<lparr>ts_finished := True\<rparr>"

fun ts_kill :: "int list \<Rightarrow> 'c Test \<Rightarrow> 'c Test option" where
  "ts_kill [] ts = Some ts"
| "ts_kill (srv # srvs) ts = do {
     rs \<leftarrow> srv_at ts srv;
     ts1 \<leftarrow> set_srv srv (rs\<lparr>rfsrv_set := False\<rparr>) ts;
     ts_kill srvs ts1
   }"

definition ts_restart :: "int list \<Rightarrow> 'c Test \<Rightarrow> 'c Test option" where
  "ts_restart srvs ts = mksrvs srvs ts"

section \<open>Leaders and terms\<close>

text \<open>A reading of the servers in turn: \<open>None\<close> for one that is not connected, else what \<^verbatim>\<open>GetState\<close> returned. The map from terms to
  leaders is an association list in the order in which the terms are entered.\<close>

type_synonym reading = "(int \<times> bool) option list"

fun add_leader :: "int \<Rightarrow> int \<Rightarrow> (int \<times> int list) list \<Rightarrow> (int \<times> int list) list" where
  "add_leader term i [] = [(term, [i])]"
| "add_leader term i ((t, is) # m) = (if t = term then (t, is @ [i]) # m else (t, is) # add_leader term i m)"

fun leaders_loop :: "reading \<Rightarrow> int \<Rightarrow> (int \<times> int list) list \<Rightarrow> (int \<times> int list) list" where
  "leaders_loop [] i m = m"
| "leaders_loop (Some (term, True) # rs) i m = leaders_loop rs (i + 1) (add_leader term i m)"
| "leaders_loop (_ # rs) i m = leaders_loop rs (i + 1) m"

definition many_leaders :: "int \<Rightarrow> int list \<Rightarrow> string" where
  "many_leaders term ls = ''term '' @ show_int term @ '' has '' @ show_int (go_len ls) @ '' (>1) leaders''"

definition no_leader :: string where
  "no_leader = ''expected one leader, got none''"

fun last_term :: "(int \<times> int list) list \<Rightarrow> int \<Rightarrow> string + int" where
  "last_term [] lastTermWithLeader = Inr lastTermWithLeader"
| "last_term ((term, ls) # m) lastTermWithLeader =
     (if go_len ls > 1 then Inl (many_leaders term ls)
      else last_term m (if term > lastTermWithLeader then term else lastTermWithLeader))"

fun checkOneLeader_loop :: "reading list \<Rightarrow> (string + int) option" where
  "checkOneLeader_loop [] = Some (Inl no_leader)"
| "checkOneLeader_loop (r # rs) =
     (let leaders = leaders_loop r 0 []
      in case last_term leaders (-1) of
           Inl e \<Rightarrow> Some (Inl e)
         | Inr term \<Rightarrow>
             if leaders \<noteq> [] then do {
               ls \<leftarrow> map_of leaders term;
               i \<leftarrow> go_nth ls 0;
               Some (Inr i)
             }
             else checkOneLeader_loop rs)"

definition checkOneLeader :: "reading list \<Rightarrow> (string + int) option" where
  \<comment> \<open>the readings of at most ten iterations\<close>
  "checkOneLeader rs = checkOneLeader_loop (take 10 rs)"

fun checkTerms_loop :: "reading \<Rightarrow> int \<Rightarrow> string + int" where
  "checkTerms_loop [] term = Inr term"
| "checkTerms_loop (None # rs) term = checkTerms_loop rs term"
| "checkTerms_loop (Some (xterm, _) # rs) term =
     (if term = -1 then checkTerms_loop rs xterm
      else if term \<noteq> xterm then Inl ''servers disagree on term''
      else checkTerms_loop rs term)"

definition checkTerms :: "reading \<Rightarrow> string + int" where
  "checkTerms r = checkTerms_loop r (-1)"

fun checkNoLeader_loop :: "reading \<Rightarrow> int \<Rightarrow> string + unit" where
  "checkNoLeader_loop [] i = Inr ()"
| "checkNoLeader_loop (Some (_, True) # rs) i = Inl (''leader = '' @ show_int i)"
| "checkNoLeader_loop (_ # rs) i = checkNoLeader_loop rs (i + 1)"

definition checkNoLeader :: "reading \<Rightarrow> string + unit" where
  "checkNoLeader r = checkNoLeader_loop r 0"

section \<open>Committed entries\<close>

definition differ_msg :: "('c option \<Rightarrow> string) \<Rightarrow> int \<Rightarrow> int \<Rightarrow> 'c option \<Rightarrow> int \<Rightarrow> 'c option \<Rightarrow> string" where
  "differ_msg shw index i v j old =
     ''commit index='' @ show_int index @ '' server='' @ show_int i @ '' '' @ shw v
       @ '' != server='' @ show_int j @ '' '' @ shw old"

fun CheckLogs_loop :: "('c option \<Rightarrow> string) \<Rightarrow> int \<Rightarrow> 'c option \<Rightarrow> int \<Rightarrow> 'c raftServer option list \<Rightarrow> int \<Rightarrow> string \<Rightarrow> string option" where
  "CheckLogs_loop shw i v index [] j err_msg = Some err_msg"
| "CheckLogs_loop shw i v index (None # rss) j err_msg = None"
| "CheckLogs_loop shw i v index (Some rs # rss) j err_msg =
     CheckLogs_loop shw i v index rss (j + 1)
       (case rs_entry rs index of
          Some old \<Rightarrow> if old \<noteq> v then differ_msg shw index i v j old else err_msg
        | None \<Rightarrow> err_msg)"

definition ts_CheckLogs :: "('c option \<Rightarrow> string) \<Rightarrow> int \<Rightarrow> 'c ApplyMsg \<Rightarrow> 'c Test \<Rightarrow> ((string \<times> bool) \<times> 'c Test) option" where
  "ts_CheckLogs shw i m ts =
     (let (v, index) = (case m of CommandMsg c k \<Rightarrow> (c, k) | SnapshotMsg _ _ _ \<Rightarrow> (None, 0))
      in do {
        me \<leftarrow> srv_at ts i;
        err_msg \<leftarrow> CheckLogs_loop shw i v index (ts_srvs ts) 0 [];
        let prevok = (rs_entry me (index - 1) \<noteq> None);
        ts1 \<leftarrow> set_srv i (me\<lparr>logs := (logs me)(index \<mapsto> v)\<rparr>) ts;
        Some ((err_msg, prevok), if index > ts_maxIndex ts1 then ts1\<lparr>ts_maxIndex := index\<rparr> else ts1)
      })"

definition ts_IngestLog :: "int \<Rightarrow> 'c command_log \<Rightarrow> 'c Test \<Rightarrow> 'c Test option" where
  "ts_IngestLog i xlog ts = do {
     me \<leftarrow> srv_at ts i;
     set_srv i (me\<lparr>logs := xlog\<rparr>) ts
   }"

definition ts_ApplyErr :: "int \<Rightarrow> string \<Rightarrow> 'c Test \<Rightarrow> 'c Test option" where
  "ts_ApplyErr i err ts = do {
     me \<leftarrow> srv_at ts i;
     set_srv i (me\<lparr>applyErr := err\<rparr>) ts
   }"

definition unmatched :: "('c option \<Rightarrow> string) \<Rightarrow> int \<Rightarrow> 'c option \<Rightarrow> 'c option \<Rightarrow> string" where
  "unmatched shw index cmd cmd1 =
     ''committed values at index '' @ show_int index @ '' do not match ('' @ shw cmd @ '' != '' @ shw cmd1 @ '')''"

fun nCommitted_loop :: "('c option \<Rightarrow> string) \<Rightarrow> int \<Rightarrow> 'c raftServer option list \<Rightarrow> int \<Rightarrow> 'c option \<Rightarrow> (string + int \<times> 'c option) option" where
  "nCommitted_loop shw index [] n cmd = Some (Inr (n, cmd))"
| "nCommitted_loop shw index (None # rss) n cmd = None"
| "nCommitted_loop shw index (Some rs # rss) n cmd =
     (if applyErr rs \<noteq> [] then Some (Inl (applyErr rs))
      else case rs_entry rs index of
             None \<Rightarrow> nCommitted_loop shw index rss n cmd
           | Some cmd1 \<Rightarrow>
               if n > 0 \<and> cmd \<noteq> cmd1 then Some (Inl (unmatched shw index cmd cmd1))
               else nCommitted_loop shw index rss (n + 1) cmd1)"

definition nCommitted :: "('c option \<Rightarrow> string) \<Rightarrow> int \<Rightarrow> 'c Test \<Rightarrow> (string + int \<times> 'c option) option" where
  "nCommitted shw index ts = nCommitted_loop shw index (ts_srvs ts) 0 None"

definition checkNoAgreement :: "('c option \<Rightarrow> string) \<Rightarrow> int \<Rightarrow> 'c Test \<Rightarrow> (string + unit) option" where
  "checkNoAgreement shw index ts = do {
     r \<leftarrow> nCommitted shw index ts;
     Some (case r of Inl e \<Rightarrow> Inl e
      | Inr (n, _) \<Rightarrow> if n > 0 then Inl (show_int n @ '' committed but no majority'') else Inr ())
   }"

definition checkFinished :: "'c Test \<Rightarrow> bool" where
  "checkFinished ts = ts_finished ts"

section \<open>Reaching agreement\<close>

text \<open>The servers are asked in turn; \<open>ask\<close> gives what \<^verbatim>\<open>Start\<close> returned, or \<open>None\<close> for a server that is not connected or down.\<close>

fun try_starts :: "(int \<Rightarrow> (int \<times> int \<times> bool) option) \<Rightarrow> nat \<Rightarrow> nat \<Rightarrow> int \<Rightarrow> int \<times> int" where
  "try_starts ask n 0 starts = (-1, starts)"
| "try_starts ask n (Suc k) starts =
     (let starts1 = (starts + 1) mod int n
      in case ask starts1 of
           Some (index1, _, True) \<Rightarrow> (index1, starts1)
         | _ \<Rightarrow> try_starts ask n k starts1)"

text \<open>The polls of two seconds: the state of the test at each.\<close>

fun await_commit :: "('c option \<Rightarrow> string) \<Rightarrow> 'c \<Rightarrow> int \<Rightarrow> int \<Rightarrow> 'c Test list \<Rightarrow> (string + bool) option" where
  "await_commit shw cmd expectedServers index [] = Some (Inr False)"
| "await_commit shw cmd expectedServers index (ts # tss) = do {
     r \<leftarrow> nCommitted shw index ts;
     (case r of
        Inl e \<Rightarrow> Some (Inl e)
      | Inr (nd, cmd1) \<Rightarrow>
          if nd > 0 \<and> nd \<ge> expectedServers \<and> cmd1 = Some cmd then Some (Inr True)
          else await_commit shw cmd expectedServers index tss)
   }"

definition one_failed :: "('c option \<Rightarrow> string) \<Rightarrow> 'c \<Rightarrow> string" where
  "one_failed shw cmd = ''one('' @ shw (Some cmd) @ '') failed to reach agreement''"

text \<open>The rounds of ten seconds: whether the test was finished when the round began, the servers' answers, and the polls. The last argument is
  \<^verbatim>\<open>checkFinished\<close> after the loop.\<close>

fun one :: "('c option \<Rightarrow> string) \<Rightarrow> 'c \<Rightarrow> int \<Rightarrow> bool \<Rightarrow> nat \<Rightarrow>
    (bool \<times> (int \<Rightarrow> (int \<times> int \<times> bool) option) \<times> 'c Test list) list \<Rightarrow> int \<Rightarrow> bool \<Rightarrow> (string + int) option" where
  "one shw cmd expectedServers retry n [] starts finished =
     Some (if finished then Inr (-1) else Inl (one_failed shw cmd))"
| "one shw cmd expectedServers retry n ((fin, ask, polls) # rounds) starts finished =
     (if fin then Some (Inr (-1))
      else let (index, starts1) = try_starts ask n n starts
           in if index \<noteq> -1 then do {
                r \<leftarrow> await_commit shw cmd expectedServers index polls;
                (case r of
                   Inl e \<Rightarrow> Some (Inl e)
                 | Inr True \<Rightarrow> Some (Inr index)
                 | Inr False \<Rightarrow>
                     if \<not> retry then Some (Inl (one_failed shw cmd))
                     else one shw cmd expectedServers retry n rounds starts1 finished)
              }
              else one shw cmd expectedServers retry n rounds starts1 finished)"

text \<open>What \<^verbatim>\<open>wait\<close> returns: -1 when a server has moved on, else the command.\<close>

datatype 'c wait_result = MovedOn | Decided "'c option"

definition wait_end :: "('c option \<Rightarrow> string) \<Rightarrow> int \<Rightarrow> int \<Rightarrow> 'c Test \<Rightarrow> (string + 'c wait_result) option" where
  "wait_end shw index n ts = do {
     r \<leftarrow> nCommitted shw index ts;
     Some (case r of
        Inl e \<Rightarrow> Inl e
      | Inr (nd, cmd) \<Rightarrow>
          if nd < n
          then Inl (''only '' @ show_int nd @ '' decided for index '' @ show_int index @ ''; wanted '' @ show_int n)
          else Inr (Decided cmd))
   }"

text \<open>Each iteration has the state of the test and the terms the servers report; the last argument is the state after the loop.\<close>

fun wait_loop :: "('c option \<Rightarrow> string) \<Rightarrow> int \<Rightarrow> int \<Rightarrow> int \<Rightarrow> ('c Test \<times> int list) list \<Rightarrow> 'c Test \<Rightarrow> (string + 'c wait_result) option" where
  "wait_loop shw index n startTerm [] ts = wait_end shw index n ts"
| "wait_loop shw index n startTerm ((ts1, ts_terms) # its) ts = do {
     r \<leftarrow> nCommitted shw index ts1;
     (case r of
        Inl e \<Rightarrow> Some (Inl e)
      | Inr (nd, _) \<Rightarrow>
          if nd \<ge> n then wait_end shw index n ts
          else if startTerm > -1 \<and> list_ex (\<lambda>t. t > startTerm) ts_terms then Some (Inr MovedOn)
          else wait_loop shw index n startTerm its ts)
   }"

definition ts_wait :: "('c option \<Rightarrow> string) \<Rightarrow> int \<Rightarrow> int \<Rightarrow> int \<Rightarrow> ('c Test \<times> int list) list \<Rightarrow> 'c Test \<Rightarrow> (string + 'c wait_result) option" where
  "ts_wait shw index n startTerm its ts = wait_loop shw index n startTerm (take 30 its) ts"

section \<open>One leader per term\<close>

text \<open>A server elected in a term, over the whole run: a quorum voted for it.\<close>

definition elected :: "'c cluster \<Rightarrow> int \<Rightarrow> int \<Rightarrow> bool" where
  "elected C i t \<longleftrightarrow> (\<exists>Q. quorum (nservers C) Q \<and> (\<forall>j \<in> Q. (t, j, i) \<in> grants C))"

lemma leader_elected:
  assumes "reachable n C" and "i \<in> servers C" and "GetState (peers C i) = (t, True)"
  shows "elected C i t"
proof -
  have "inv_lead C" using reachable_inv [OF assms(1)] by (simp add: vote_inv_def)
  then show ?thesis using assms(2,3) by (auto simp: inv_lead_def elected_def GetState_def)
qed

lemma elected_once:
  assumes "reachable n C" and "odd n" and "elected C i t" and "elected C j t"
  shows "i = j"
proof -
  have n: "nservers C = n" by (rule reachable_nservers [OF assms(1)])
  obtain P Q where P: "quorum n P" "\<forall>v \<in> P. (t, v, i) \<in> grants C" and Q: "quorum n Q" "\<forall>v \<in> Q. (t, v, j) \<in> grants C"
    using assms(3,4) unfolding elected_def n by blast
  obtain v where "v \<in> P" "v \<in> Q" using quorum_meet [OF assms(2) P(1) Q(1)] by blast
  moreover have "inv_once C" using reachable_inv [OF assms(1)] by (simp add: vote_inv_def)
  ultimately show ?thesis using P(2) Q(2) unfolding inv_once_def by blast
qed

lemma grants_step:
  assumes "step e C = Some C'"
  shows "nservers C' = nservers C \<and> grants C \<subseteq> grants C'"
proof -
  have h: "handle now i g D = Some (D', r) \<Longrightarrow> nservers D' = nservers D \<and> grants D \<subseteq> grants D'" for now i g and D D' :: "'a cluster" and r
    by (cases g) (auto simp: handle_def bind_Some_iff split: if_splits)
  have c: "continue i g res D = Some D' \<Longrightarrow> nservers D' = nservers D \<and> grants D \<subseteq> grants D'" for i g res and D D' :: "'a cluster"
    by (auto simp: continue_def bind_Some_iff split: goroutine.splits option.splits rpc_reply.splits)
  show ?thesis using assms by (cases e) (auto simp: bind_Some_iff dest!: h c split: if_splits prod.splits)
qed

lemma elected_step: "step e C = Some C' \<Longrightarrow> elected C i t \<Longrightarrow> elected C' i t"
  using grants_step [of e C C'] unfolding elected_def by (metis subsetD)

lemma elected_run: "run es C = Some C' \<Longrightarrow> elected C i t \<Longrightarrow> elected C' i t"
  by (induction es arbitrary: C) (auto simp: bind_Some_iff dest: elected_step)

lemma reachable_terms: "reachable n C \<Longrightarrow> i \<in> servers C \<Longrightarrow> 0 \<le> currentTerm (peers C i)"
proof (induction arbitrary: i rule: reachable.induct)
  case start
  then show ?case by (simp add: initial_def Make_def readPersist_def MakePersister_def)
next
  case (step C e C')
  have i: "i \<in> servers C" using step.prems grants_step [OF step.hyps(2)] by (simp add: servers_def)
  then have "forward (peers C i) (peers C' i)" using step_forward [OF reachable_inv [OF step.hyps(1)] step.hyps(2)] by blast
  then show ?case using step.IH [OF i] by (simp add: forward_def)
qed

text \<open>One iteration of the check: before each server is asked, any events may happen; the flag says whether the server is connected.\<close>

fun poll :: "('c event list \<times> bool) list \<Rightarrow> int \<Rightarrow> 'c cluster \<Rightarrow> (reading \<times> 'c cluster) option" where
  "poll [] i C = Some ([], C)"
| "poll ((es, connected) # xs) i C = do {
     C1 \<leftarrow> run es C;
     (rs, C2) \<leftarrow> poll xs (i + 1) C1;
     Some ((if connected then Some (GetState (peers C1 i)) else None) # rs, C2)
   }"

fun poll_rounds :: "('c event list \<times> bool) list list \<Rightarrow> 'c cluster \<Rightarrow> (reading list \<times> 'c cluster) option" where
  "poll_rounds [] C = Some ([], C)"
| "poll_rounds (p # ps) C = do {
     (r, C1) \<leftarrow> poll p 0 C;
     (rs, C2) \<leftarrow> poll_rounds ps C1;
     Some (r # rs, C2)
   }"

lemma poll_elected:
  "poll xs k C = Some (rs, C') \<Longrightarrow> reachable n C \<Longrightarrow> 0 \<le> k \<Longrightarrow> k + int (length xs) \<le> int n \<Longrightarrow>
    reachable n C' \<and> length rs = length xs \<and> (\<forall>i t. elected C i t \<longrightarrow> elected C' i t)
    \<and> (\<forall>p t. p < length rs \<longrightarrow> rs ! p = Some (t, True) \<longrightarrow> elected C' (k + int p) t)
    \<and> (\<forall>p t b. p < length rs \<longrightarrow> rs ! p = Some (t, b) \<longrightarrow> 0 \<le> t)"
proof (induction xs arbitrary: k C rs)
  case Nil
  then show ?case by simp
next
  case (Cons x xs)
  obtain es conn where x: "x = (es, conn)" by fastforce
  obtain C1 rs1 where r: "run es C = Some C1" and p: "poll xs (k + 1) C1 = Some (rs1, C')"
    and rs: "rs = (if conn then Some (GetState (peers C1 k)) else None) # rs1"
    using Cons.prems(1) by (auto simp: x bind_Some_iff)
  have R1: "reachable n C1" by (rule run_reachable [OF Cons.prems(2) r])
  note IH = Cons.IH [OF p R1]
  have k: "k \<in> servers C1" using Cons.prems(3,4) reachable_nservers [OF R1] by (simp add: servers_def)
  have pos: "0 \<le> currentTerm (peers C1 k)" by (rule reachable_terms [OF R1 k])
  have I: "reachable n C'" "length rs1 = length xs" "\<And>i t. elected C1 i t \<Longrightarrow> elected C' i t"
    "\<And>p t. p < length rs1 \<Longrightarrow> rs1 ! p = Some (t, True) \<Longrightarrow> elected C' (k + 1 + int p) t"
    "\<And>p t b. p < length rs1 \<Longrightarrow> rs1 ! p = Some (t, b) \<Longrightarrow> 0 \<le> t"
    using IH Cons.prems(3,4) by simp_all
  have "elected C' (k + int p) t" if "p < length rs" "rs ! p = Some (t, True)" for p t
  proof (cases p)
    case 0
    then have "GetState (peers C1 k) = (t, True)" using that(2) by (simp add: rs split: if_splits)
    then show ?thesis using I(3) leader_elected [OF R1 k] 0 by simp
  next
    case (Suc q)
    then show ?thesis using I(4) [of q t] that by (simp add: rs algebra_simps)
  qed
  moreover have "0 \<le> t" if "p < length rs" "rs ! p = Some (t, b)" for p t b
  proof (cases p)
    case 0
    then show ?thesis using that(2) pos by (simp add: rs GetState_def split: if_splits)
  next
    case (Suc q)
    then show ?thesis using I(5) [of q t b] that by (simp add: rs)
  qed
  moreover have "elected C' i t" if "elected C i t" for i t using I(3) elected_run [OF r that] .
  moreover have "length rs = length (x # xs)" by (simp add: rs I(2))
  ultimately show ?case using I(1) by blast
qed

text \<open>The map of leaders: the servers that said they lead a term, in order.\<close>

lemma add_leader_get: "map_of (add_leader t i m) u = (if u = t then Some ((case map_of m t of None \<Rightarrow> [] | Some l \<Rightarrow> l) @ [i]) else map_of m u)"
  by (induction m) auto

lemma add_leader_keys: "fst ` set (add_leader t i m) = insert t (fst ` set m)" "distinct (map fst m) \<Longrightarrow> distinct (map fst (add_leader t i m))"
proof -
  show k: "fst ` set (add_leader t i m) = insert t (fst ` set m)" for m :: "(int \<times> int list) list"
    by (induction m) (simp, force simp: image_iff split: if_splits)
  show "distinct (map fst m) \<Longrightarrow> distinct (map fst (add_leader t i m))" using k by (induction m) auto
qed

definition saying :: "reading \<Rightarrow> int \<Rightarrow> int \<Rightarrow> int list" where
  \<comment> \<open>the servers from number \<open>i\<close> on that said they lead term \<open>t\<close>\<close>
  "saying r i t = map (\<lambda>p. i + int p) (filter (\<lambda>p. r ! p = Some (t, True)) [0..<length r])"

lemma saying_Cons: "saying (x # r) i t = (if x = Some (t, True) then [i] else []) @ saying r (i + 1) t"
proof -
  have "[0..<Suc (length r)] = 0 # map Suc [0..<length r]" by (simp add: upt_conv_Cons map_Suc_upt del: upt_Suc)
  then show ?thesis by (simp add: saying_def filter_map comp_def algebra_simps del: upt_Suc)
qed

lemma leaders_loop_get:
  "map_of (leaders_loop r i m) t =
     (if saying r i t = [] then map_of m t else Some ((case map_of m t of None \<Rightarrow> [] | Some l \<Rightarrow> l) @ saying r i t))"
  by (induction r i m rule: leaders_loop.induct) (auto simp: saying_Cons add_leader_get saying_def [of "[]"] split: option.splits)

lemma leaders_loop_keys: "distinct (map fst m) \<Longrightarrow> distinct (map fst (leaders_loop r i m))"
  by (induction r i m rule: leaders_loop.induct) (auto simp: add_leader_keys)

lemma last_term_max:
  assumes "\<forall>x \<in> set m. length (snd x) \<le> 1"
  shows "\<exists>v. last_term m b = Inr v \<and> b \<le> v \<and> (v = b \<or> v \<in> fst ` set m) \<and> (\<forall>x \<in> set m. fst x \<le> v)"
  using assms
proof (induction m arbitrary: b)
  case (Cons x m)
  obtain t ls where x: "x = (t, ls)" by fastforce
  obtain v where v: "last_term m (max t b) = Inr v" "max t b \<le> v" "v = max t b \<or> v \<in> fst ` set m" "\<forall>x \<in> set m. fst x \<le> v"
    using Cons.IH [of "max t b"] Cons.prems by (meson list.set_intros(2))
  moreover have "last_term (x # m) b = last_term m (max t b)" using Cons.prems by (simp add: x go_len_def max_def)
  ultimately show ?case by (intro exI [of _ v]) (auto simp: x max_def split: if_splits)
qed simp

text \<open>One iteration: the terms of a reading have one leader each.\<close>

lemma reading_leaders:
  assumes once: "\<forall>p q t. p < length r \<longrightarrow> q < length r \<longrightarrow> r ! p = Some (t, True) \<longrightarrow> r ! q = Some (t, True) \<longrightarrow> p = q"
    and pos: "\<forall>p t b. p < length r \<longrightarrow> r ! p = Some (t, b) \<longrightarrow> 0 \<le> t"
  shows "(\<exists>p t. p < length r \<and> r ! p = Some (t, True) \<and> (\<forall>q u. q < length r \<longrightarrow> r ! q = Some (u, True) \<longrightarrow> u \<le> t)
      \<and> checkOneLeader_loop (r # rs) = Some (Inr (int p)))
    \<or> (\<forall>p < length r. \<forall>t. r ! p \<noteq> Some (t, True)) \<and> checkOneLeader_loop (r # rs) = checkOneLeader_loop rs"
proof -
  let ?m = "leaders_loop r 0 []"
  have get: "map_of ?m t = (if saying r 0 t = [] then None else Some (saying r 0 t))" for t by (simp add: leaders_loop_get)
  have s: "x \<in> set (saying r 0 t) \<longleftrightarrow> (\<exists>p < length r. r ! p = Some (t, True) \<and> x = int p)" for x t by (auto simp: saying_def)
  have d: "distinct (saying r 0 t)" for t by (auto simp: saying_def distinct_map inj_on_def)
  have l: "length (saying r 0 t) \<le> 1" for t
  proof (rule ccontr)
    assume "\<not> length (saying r 0 t) \<le> 1"
    then have n: "0 < length (saying r 0 t)" "1 < length (saying r 0 t)" by linarith+
    then have "saying r 0 t ! 0 \<in> set (saying r 0 t)" "saying r 0 t ! 1 \<in> set (saying r 0 t)" "saying r 0 t ! 0 \<noteq> saying r 0 t ! 1"
      using nth_eq_iff_index_eq [OF d n] nth_mem [OF n(1)] nth_mem [OF n(2)] by simp_all
    then show False using once unfolding s by metis
  qed
  have k: "map_of ?m (fst x) = Some (snd x)" if "x \<in> set ?m" for x
    using map_of_is_SomeI [of ?m "fst x" "snd x"] leaders_loop_keys [of "[]" r 0] that by simp
  have "\<forall>x \<in> set ?m. length (snd x) \<le> 1" using k get l by (metis option.distinct(1) option.inject)
  from last_term_max [OF this, of "-1"] obtain v where v: "last_term ?m (-1) = Inr v" "v = -1 \<or> v \<in> fst ` set ?m" "\<forall>x \<in> set ?m. fst x \<le> v"
    by blast
  have keys: "t \<in> fst ` set ?m \<longleftrightarrow> saying r 0 t \<noteq> []" for t using get [of t] map_of_eq_None_iff [of ?m t] by (auto split: if_splits)
  show ?thesis
  proof (cases "?m = []")
    case True
    then have "saying r 0 t = []" for t using keys [of t] by simp
    then have "\<forall>p < length r. \<forall>t. r ! p \<noteq> Some (t, True)" using s by fastforce
    then show ?thesis using v(1) True by simp
  next
    case False
    have ge: "0 \<le> t" if "t \<in> fst ` set ?m" for t using that pos s [of _ t] unfolding keys by (metis last_in_set)
    obtain x where "x \<in> set ?m" using False by (cases ?m) auto
    then have "0 \<le> v" using ge [of "fst x"] v(3) by force
    then have "saying r 0 v \<noteq> []" using v(2) keys [of v] by auto
    then have w: "saying r 0 v ! 0 \<in> set (saying r 0 v)" "go_nth (saying r 0 v) 0 = Some (saying r 0 v ! 0)" by (simp_all add: go_nth_Some_iff go_len_def)
    obtain p where p: "p < length r" "r ! p = Some (v, True)" "saying r 0 v ! 0 = int p" using w(1) unfolding s by blast
    have "u \<le> v" if "q < length r" "r ! q = Some (u, True)" for q u
    proof -
      have "int q \<in> set (saying r 0 u)" unfolding s using that by blast
      then have "u \<in> fst ` set ?m" unfolding keys by auto
      then show ?thesis using v(3) by auto
    qed
    moreover have "checkOneLeader_loop (r # rs) = Some (Inr (int p))"
      using v(1) False get [of v] \<open>saying r 0 v \<noteq> []\<close> w(2) p(3) by (simp add: Let_def)
    ultimately show ?thesis using p(1,2) by blast
  qed
qed

definition nobody :: "nat \<Rightarrow> reading \<Rightarrow> bool" where
  "nobody n r \<longleftrightarrow> (\<forall>q < n. \<forall>u. r ! q \<noteq> Some (u, True))"

definition leader_of :: "nat \<Rightarrow> reading \<Rightarrow> nat \<Rightarrow> bool" where
  \<comment> \<open>server \<open>p\<close> leads the latest term anybody leads\<close>
  "leader_of n r p \<longleftrightarrow> p < n \<and> (\<exists>t. r ! p = Some (t, True) \<and> (\<forall>q < n. \<forall>u. r ! q = Some (u, True) \<longrightarrow> u \<le> t))"

lemma poll_leaders:
  assumes p: "poll xs 0 C = Some (r, C')" "length xs = n" and R: "reachable n C" "odd n"
  shows "reachable n C' \<and> ((\<exists>p. leader_of n r p \<and> checkOneLeader_loop (r # rs) = Some (Inr (int p)))
    \<or> nobody n r \<and> checkOneLeader_loop (r # rs) = checkOneLeader_loop rs)"
proof -
  have P: "reachable n C'" "length r = n" "\<And>p t. p < length r \<Longrightarrow> r ! p = Some (t, True) \<Longrightarrow> elected C' (int p) t"
    "\<And>p t b. p < length r \<Longrightarrow> r ! p = Some (t, b) \<Longrightarrow> 0 \<le> t"
    using poll_elected [OF p(1) R(1)] p(2) by auto
  have "p = q" if "p < length r" "q < length r" "r ! p = Some (t, True)" "r ! q = Some (t, True)" for p q t
    using elected_once [OF P(1) R(2) P(3) [OF that(1,3)] P(3) [OF that(2,4)]] by simp
  then have "\<forall>p q t. p < length r \<longrightarrow> q < length r \<longrightarrow> r ! p = Some (t, True) \<longrightarrow> r ! q = Some (t, True) \<longrightarrow> p = q" by blast
  from reading_leaders [OF this] show ?thesis using P(1,2,4) unfolding leader_of_def nobody_def by blast
qed

lemma rounds_leaders:
  assumes "odd n"
  shows "poll_rounds ps C = Some (rs, C') \<Longrightarrow> reachable n C \<Longrightarrow> \<forall>p \<in> set ps. length p = n \<Longrightarrow>
    (\<exists>k p. k < length rs \<and> leader_of n (rs ! k) p \<and> (\<forall>l < k. nobody n (rs ! l)) \<and> checkOneLeader_loop rs = Some (Inr (int p)))
    \<or> (\<forall>r \<in> set rs. nobody n r) \<and> checkOneLeader_loop rs = Some (Inl no_leader)"
proof (induction ps arbitrary: C rs)
  case (Cons x ps)
  obtain r C1 rs1 where r: "poll x 0 C = Some (r, C1)" and rs: "poll_rounds ps C1 = Some (rs1, C')" "rs = r # rs1"
    using Cons.prems(1) by (auto simp: bind_Some_iff)
  have P: "reachable n C1" "(\<exists>p. leader_of n r p \<and> checkOneLeader_loop rs = Some (Inr (int p)))
      \<or> nobody n r \<and> checkOneLeader_loop rs = checkOneLeader_loop rs1"
    using poll_leaders [OF r _ Cons.prems(2) assms, of rs1] Cons.prems(3) rs(2) by auto
  from P(2) show ?case
  proof (elim disjE exE conjE)
    fix p assume "leader_of n r p" "checkOneLeader_loop rs = Some (Inr (int p))"
    then show ?thesis unfolding rs(2) by (intro disjI1 exI [of _ 0] exI [of _ p]) simp
  next
    assume n: "nobody n r" and e: "checkOneLeader_loop rs = checkOneLeader_loop rs1"
    have "\<forall>p \<in> set ps. length p = n" using Cons.prems(3) by simp
    from Cons.IH [OF rs(1) P(1) this] show ?thesis
    proof (elim disjE exE conjE)
      fix k p assume "k < length rs1" "leader_of n (rs1 ! k) p" "\<forall>l < k. nobody n (rs1 ! l)" "checkOneLeader_loop rs1 = Some (Inr (int p))"
      then show ?thesis using n e unfolding rs(2)
        by (intro disjI1 exI [of _ "Suc k"] exI [of _ p]) (auto simp: less_Suc_eq_0_disj)
    qed (use n e rs(2) in auto)
  qed
qed simp

lemma poll_rounds_take: "poll_rounds ps C = Some (rs, C') \<Longrightarrow> \<exists>D. poll_rounds (take k ps) C = Some (take k rs, D)"
proof (induction k arbitrary: ps C rs)
  case (Suc k)
  show ?case
  proof (cases ps)
    case (Cons x qs)
    then obtain r C1 rs1 where "poll x 0 C = Some (r, C1)" "poll_rounds qs C1 = Some (rs1, C')" "rs = r # rs1"
      using Suc.prems by (auto simp: bind_Some_iff)
    then show ?thesis using Suc.IH [of qs C1 rs1] by (auto simp: Cons)
  qed (use Suc.prems in auto)
qed simp

text \<open>C10. The check for one leader, asked of a cluster of an odd number of servers while the cluster goes on, never
  finds two leaders of one term, although it asks the servers at different moments, and never panics. It returns a
  connected server that said it leads the latest term anybody said to lead, in the first iteration in which anybody did, or
  fails because nobody did.\<close>

theorem check_one_leader_sound:
  assumes "reachable n C" and "odd n" and "\<forall>p \<in> set ps. length p = n" and "poll_rounds ps C = Some (rs, C')"
  shows "(\<exists>k p. k < 10 \<and> k < length rs \<and> leader_of n (rs ! k) p \<and> (\<forall>l < k. nobody n (rs ! l)) \<and> checkOneLeader rs = Some (Inr (int p)))
    \<or> (\<forall>k < length rs. k < 10 \<longrightarrow> nobody n (rs ! k)) \<and> checkOneLeader rs = Some (Inl no_leader)"
proof -
  obtain D where D: "poll_rounds (take 10 ps) C = Some (take 10 rs, D)" using poll_rounds_take [OF assms(4)] by blast
  have "\<forall>p \<in> set (take 10 ps). length p = n" using assms(3) by (auto dest: in_set_takeD)
  note R = rounds_leaders [OF assms(2) D assms(1) this]
  have m: "rs ! k \<in> set (take 10 rs)" if "k < length rs" "k < 10" for k using that nth_mem [of k "take 10 rs"] by simp
  from R show ?thesis unfolding checkOneLeader_def
  proof (elim disjE exE conjE)
    fix k p assume "k < length (take 10 rs)" "leader_of n (take 10 rs ! k) p" "\<forall>l < k. nobody n (take 10 rs ! l)"
      "checkOneLeader_loop (take 10 rs) = Some (Inr (int p))"
    then show "(\<exists>k p. k < 10 \<and> k < length rs \<and> leader_of n (rs ! k) p \<and> (\<forall>l < k. nobody n (rs ! l))
        \<and> checkOneLeader_loop (take 10 rs) = Some (Inr (int p)))
      \<or> (\<forall>k < length rs. k < 10 \<longrightarrow> nobody n (rs ! k)) \<and> checkOneLeader_loop (take 10 rs) = Some (Inl no_leader)"
      by (intro disjI1 exI [of _ k] exI [of _ p]) simp
  qed (use m in blast)
qed

text \<open>Server 0 is elected between two readings of three servers; server 2 is not connected.\<close>

theorem check_one_leader_sound_witness:
  "\<exists>rs C'. poll_rounds [[([], True), ([], True), ([], False)], [(campaign 0 1, True), ([], True), ([], False)]] (initial 3) = Some (rs, C')
    \<and> checkOneLeader rs = Some (Inr 0)"
proof -
  let ?ps = "[[([], True), ([], True), ([], False)], [(campaign 0 1, True), ([], True), ([], False)]] :: (nat event list \<times> bool) list list"
  have "map_option fst (poll_rounds ?ps (initial 3)) = Some [[Some (0, False), Some (0, False), None], [Some (1, True), Some (1, False), None]]"
    by code_simp
  then obtain rs C' where p: "poll_rounds ?ps (initial 3) = Some (rs, C')"
    and rs: "rs = [[Some (0, False), Some (0, False), None], [Some (1, True), Some (1, False), None]]" by auto
  have l: "\<forall>p \<in> set ?ps. length p = 3" by simp
  have 1: "p = 0" if "k < length rs" "leader_of 3 (rs ! k) p" for k p
  proof -
    have "k = 0 \<or> k = 1" "p = 0 \<or> p = 1 \<or> p = 2" using that by (auto simp: leader_of_def rs)
    then show ?thesis using that(2) by (auto simp: leader_of_def rs)
  qed
  have 2: "\<not> (\<forall>k < length rs. k < 10 \<longrightarrow> nobody 3 (rs ! k))" unfolding nobody_def rs
    by (simp, rule exI [of _ 1], simp, rule exI [of _ 0]) simp
  from check_one_leader_sound [OF reachable.start _ l p] 2 obtain k p where "k < length rs" "leader_of 3 (rs ! k) p"
    "checkOneLeader rs = Some (Inr (int p))" by auto
  then show ?thesis using 1 p by fastforce
qed

section \<open>Reports of committed entries\<close>

lemma mksrvs_fresh:
  "k \<le> n \<Longrightarrow> ts_srvs ts = replicate k (Some newRaftServer) @ replicate (n - k) None \<Longrightarrow>
    mksrvs (map int [k..<n]) ts = Some (ts\<lparr>ts_srvs := replicate n (Some newRaftServer)\<rparr>)"
proof (induction "n - k" arbitrary: k ts)
  case (Suc d)
  then have k: "k < n" "n - k = Suc (n - Suc k)" by simp_all
  have u: "[k..<n] = k # [Suc k..<n]" by (rule upt_conv_Cons [OF k(1)])
  let ?l = "replicate (Suc k) (Some newRaftServer) @ replicate (n - Suc k) None"
  have s: "ts_srvs ts = replicate k (Some newRaftServer) @ None # replicate (n - Suc k) None" using Suc.prems(2) k(2) by simp
  have "(ts_srvs ts)[k := Some newRaftServer] = ?l" by (simp add: s list_update_append replicate_app_Cons_same)
  moreover have "go_nth (ts_srvs ts) (int k) = Some None" using k by (simp add: s go_nth_def go_len_def nth_append)
  moreover have "int k < go_len (ts_srvs ts)" using k by (simp add: s go_len_def)
  ultimately have "mksrv (int k) ts = Some (ts\<lparr>ts_srvs := ?l\<rparr>)" by (simp add: mksrv_def set_srv_def go_upd_def)
  moreover have "mksrvs (map int [Suc k..<n]) (ts\<lparr>ts_srvs := ?l\<rparr>) = Some (ts\<lparr>ts_srvs := ?l\<rparr>\<lparr>ts_srvs := replicate n (Some newRaftServer)\<rparr>)"
    using Suc.hyps k(1) by (intro Suc.hyps(1)) simp_all
  ultimately show ?case by (simp add: u)
qed simp

lemma makeTest_fresh: "\<exists>ts. makeTest n b = Some ts \<and> ts_srvs ts = replicate n (Some newRaftServer)"
  by (simp add: makeTest_def go_range_def mksrvs_fresh [of 0 n])

lemma makeTest_servers: "makeTest n b = Some ts \<Longrightarrow> ts_srvs ts = replicate n (Some newRaftServer)"
  by (auto simp: makeTest_def go_range_def mksrvs_fresh [of 0 n])

text \<open>The reports of a run in the order in which the test receives them, each with the server it is from; those of one server.\<close>

fun check_all :: "('c option \<Rightarrow> string) \<Rightarrow> (int \<times> 'c ApplyMsg) list \<Rightarrow> 'c Test \<Rightarrow> ((string \<times> bool) list \<times> 'c Test) option" where
  "check_all shw [] ts = Some ([], ts)"
| "check_all shw ((i, m) # cs) ts = do {
     (a, ts1) \<leftarrow> ts_CheckLogs shw i m ts;
     (as, ts2) \<leftarrow> check_all shw cs ts1;
     Some (a # as, ts2)
   }"

definition reported :: "(int \<times> 'c ApplyMsg) list \<Rightarrow> int \<Rightarrow> 'c ApplyMsg list" where
  "reported cs i = map snd (filter (\<lambda>x. fst x = i) cs)"

definition answers :: "int \<Rightarrow> (int \<times> 'c ApplyMsg) list \<Rightarrow> (string \<times> bool) list \<Rightarrow> ('c ApplyMsg \<times> string \<times> bool) list" where
  "answers i cs as = map (\<lambda>(c, a). (snd c, a)) (filter (\<lambda>x. fst (fst x) = i) (zip cs as))"

lemma reported_append: "reported (cs @ ds) i = reported cs i @ reported ds i"
  by (simp add: reported_def)

text \<open>The copies of the test are what was reported.\<close>

definition copied :: "nat \<Rightarrow> (int \<times> 'c ApplyMsg) list \<Rightarrow> 'c Test \<Rightarrow> bool" where
  "copied n cs ts \<longleftrightarrow> length (ts_srvs ts) = n
     \<and> (\<forall>i < n. \<exists>rs. ts_srvs ts ! i = Some rs \<and> applyErr rs = [] \<and> (\<forall>k v. logs rs k = Some v \<longrightarrow> CommandMsg v k \<in> set (reported cs (int i)))
          \<and> (\<forall>k v. CommandMsg v k \<in> set (reported cs (int i)) \<longrightarrow> logs rs k \<noteq> None))"

lemma CheckLogs_loop_agree:
  assumes "\<forall>x \<in> set rss. \<exists>rs. x = Some rs \<and> (\<forall>old. logs rs index = Some old \<longrightarrow> old = v)"
  shows "CheckLogs_loop shw i v index rss j err = Some err"
  using assms by (induction rss arbitrary: j err) (auto simp: rs_entry_def split: option.splits)

lemma CheckLogs_accepts:
  assumes c: "copied n cs ts" and i: "0 \<le> i" "i < int n"
    and a: "\<forall>j w. CommandMsg w k \<in> set (reported cs j) \<longrightarrow> w = v" and p: "1 < k \<longrightarrow> (\<exists>w. CommandMsg w (k - 1) \<in> set (reported cs i))"
  shows "\<exists>prevok ts1. ts_CheckLogs shw i (CommandMsg v k) ts = Some (([], prevok), ts1) \<and> (1 < k \<longrightarrow> prevok)
    \<and> copied n (cs @ [(i, CommandMsg v k)]) ts1"
proof -
  have l: "length (ts_srvs ts) = n" using c by (simp add: copied_def)
  have srv: "\<exists>rs. ts_srvs ts ! j = Some rs \<and> applyErr rs = [] \<and> (\<forall>k v. logs rs k = Some v \<longrightarrow> CommandMsg v k \<in> set (reported cs (int j)))
      \<and> (\<forall>k v. CommandMsg v k \<in> set (reported cs (int j)) \<longrightarrow> logs rs k \<noteq> None)" if "j < n" for j
    using c that unfolding copied_def by blast
  have "\<exists>rs. x = Some rs \<and> (\<forall>old. logs rs k = Some old \<longrightarrow> old = v)" if x: "x \<in> set (ts_srvs ts)" for x
  proof -
    obtain j where "j < n" "x = ts_srvs ts ! j" using x l by (auto simp: in_set_conv_nth)
    then show ?thesis using srv [of j] a by blast
  qed
  then have loop: "CheckLogs_loop shw i v k (ts_srvs ts) 0 [] = Some []" using CheckLogs_loop_agree by blast
  have ni: "nat i < n" "int (nat i) = i" using i by simp_all
  obtain me where me: "ts_srvs ts ! nat i = Some me" "applyErr me = []" "\<forall>k v. logs me k = Some v \<longrightarrow> CommandMsg v k \<in> set (reported cs i)"
    "\<forall>k v. CommandMsg v k \<in> set (reported cs i) \<longrightarrow> logs me k \<noteq> None" using srv [OF ni(1)] unfolding ni(2) by blast
  let ?me = "me\<lparr>logs := (logs me)(k \<mapsto> v)\<rparr>"
  let ?ts = "ts\<lparr>ts_srvs := (ts_srvs ts)[nat i := Some ?me]\<rparr>"
  let ?ts1 = "if k > ts_maxIndex ?ts then ?ts\<lparr>ts_maxIndex := k\<rparr> else ?ts"
  have "ts_CheckLogs shw i (CommandMsg v k) ts = Some (([], logs me (k - 1) \<noteq> None), ?ts1)"
    using i l me(1) loop by (simp add: ts_CheckLogs_def srv_at_def set_srv_def go_nth_def go_upd_def go_len_def rs_entry_def Let_def)
  moreover have "1 < k \<longrightarrow> logs me (k - 1) \<noteq> None" using p me(4) by blast
  moreover have "copied n (cs @ [(i, CommandMsg v k)]) ?ts1"
  proof -
    have s: "ts_srvs ?ts1 = (ts_srvs ts)[nat i := Some ?me]" by simp
    have "\<exists>rs. ts_srvs ?ts1 ! j = Some rs \<and> applyErr rs = []
        \<and> (\<forall>k' w. logs rs k' = Some w \<longrightarrow> CommandMsg w k' \<in> set (reported (cs @ [(i, CommandMsg v k)]) (int j)))
        \<and> (\<forall>k' w. CommandMsg w k' \<in> set (reported (cs @ [(i, CommandMsg v k)]) (int j)) \<longrightarrow> logs rs k' \<noteq> None)" if j: "j < n" for j
    proof (cases "j = nat i")
      case True
      then show ?thesis using me l ni unfolding s by (auto simp: reported_append reported_def [of "[_]"])
    next
      case False
      then have "int j \<noteq> i" by auto
      then show ?thesis using srv [OF j] False unfolding s by (simp add: reported_append reported_def [of "[_]"])
    qed
    then show ?thesis using l unfolding copied_def s by simp
  qed
  ultimately show ?thesis by blast
qed

lemma check_all_accepts:
  assumes agree: "\<forall>i j k v w. CommandMsg v k \<in> set (D i) \<longrightarrow> CommandMsg w k \<in> set (D j) \<longrightarrow> v = w" and gap: "\<forall>i. 0 \<le> i \<longrightarrow> i < int n \<longrightarrow> gapless (D i)"
  shows "copied n cs ts \<Longrightarrow> \<forall>i. prefix (reported (cs @ ds) i) (D i) \<Longrightarrow> \<forall>x \<in> set ds. 0 \<le> fst x \<and> fst x < int n \<Longrightarrow>
    \<exists>as ts'. check_all shw ds ts = Some (as, ts') \<and> length as = length ds \<and> copied n (cs @ ds) ts'
      \<and> (\<forall>p < length ds. \<exists>prevok k v. snd (ds ! p) = CommandMsg v k \<and> as ! p = ([], prevok) \<and> (1 < k \<longrightarrow> prevok))"
proof (induction ds arbitrary: cs ts)
  case (Cons x ds)
  obtain i m where x: "x = (i, m)" by fastforce
  have i: "0 \<le> i" "i < int n" using Cons.prems(3) by (simp_all add: x)
  have pre: "prefix (reported cs j) (D j)" for j using Cons.prems(2) by (auto simp: reported_append dest: append_prefixD)
  have "reported (cs @ x # ds) i = (reported cs i @ [m]) @ reported ds i" by (simp add: reported_def x)
  then have "prefix (reported cs i @ [m]) (D i)" using Cons.prems(2) append_prefixD by metis
  then obtain rest where D: "D i = reported cs i @ m # rest" by (auto elim: prefixE)
  let ?p = "length (reported cs i)"
  have p: "?p < length (D i)" "D i ! ?p = m" by (simp_all add: D)
  obtain v k where m: "m = CommandMsg v k" and k: "1 < k \<longrightarrow> (\<exists>q < ?p. \<exists>w. D i ! q = CommandMsg w (k - 1))"
    using gap i p unfolding gapless_def by metis
  have prev: "1 < k \<longrightarrow> (\<exists>w. CommandMsg w (k - 1) \<in> set (reported cs i))"
    using k by (auto simp: D nth_append) (metis nth_mem)
  have "m \<in> set (D i)" by (simp add: D)
  then have ag: "\<forall>j w. CommandMsg w k \<in> set (reported cs j) \<longrightarrow> w = v" using agree pre unfolding m by (meson set_mono_prefix subsetD)
  obtain prevok ts1 where 1: "ts_CheckLogs shw i m ts = Some (([], prevok), ts1)" "1 < k \<longrightarrow> prevok" "copied n (cs @ [(i, m)]) ts1"
    using CheckLogs_accepts [OF Cons.prems(1) i ag prev] unfolding m by blast
  have "\<forall>j. prefix (reported ((cs @ [(i, m)]) @ ds) j) (D j)" using Cons.prems(2) by (simp add: x)
  from Cons.IH [OF 1(3) this] Cons.prems(3) obtain as ts' where 2: "check_all shw ds ts1 = Some (as, ts')" "length as = length ds"
    "copied n ((cs @ [(i, m)]) @ ds) ts'"
    "\<forall>p < length ds. \<exists>prevok k v. snd (ds ! p) = CommandMsg v k \<and> as ! p = ([], prevok) \<and> (1 < k \<longrightarrow> prevok)" by auto
  have "\<exists>prevok k v. snd ((x # ds) ! p) = CommandMsg v k \<and> (([], prevok0) # as) ! p = ([], prevok) \<and> (1 < k \<longrightarrow> prevok)"
    if "p < length (x # ds)" "prevok0 = prevok" for p prevok0
    using that 2(4) 1(2) by (cases p) (auto simp: x m)
  then show ?case using 1(1) 2 by (intro exI [of _ "([], prevok) # as"] exI [of _ ts']) (simp add: x)
qed simp

lemma applier_quiet:
  assumes "\<forall>x \<in> set ms. \<exists>c k prevok. x = (CommandMsg c k, [], prevok) \<and> (1 < k \<longrightarrow> prevok)"
  shows "no_errors (applier ms rs)"
  using assms by (induction ms) (auto simp: no_errors_def report_def Let_def)

lemma nCommitted_loop_agree:
  assumes "\<forall>x \<in> set rss. \<exists>rs. x = Some rs \<and> applyErr rs = [] \<and> (\<forall>w. logs rs k = Some w \<longrightarrow> w = v)" and "0 < n \<longrightarrow> cmd = v" and "0 \<le> n"
  shows "nCommitted_loop shw k rss n cmd =
    (let m = length (filter (\<lambda>x. \<exists>rs. x = Some rs \<and> logs rs k \<noteq> None) rss) in Some (Inr (n + int m, if m = 0 then cmd else v)))"
  using assms
proof (induction rss arbitrary: n cmd)
  case (Cons x rss)
  obtain rs where rs: "x = Some rs" "applyErr rs = []" "\<forall>w. logs rs k = Some w \<longrightarrow> w = v" using Cons.prems(1) by auto
  show ?case
  proof (cases "logs rs k")
    case None
    then show ?thesis using Cons by (simp add: rs rs_entry_def)
  next
    case (Some w)
    then have "w = v" using rs(3) by simp
    then show ?thesis using Some Cons rs by (auto simp: rs_entry_def Let_def)
  qed
qed simp

lemma answers_accepted:
  assumes "length as = length cs" and "\<forall>p < length cs. \<exists>prevok k v. snd (cs ! p) = CommandMsg v k \<and> as ! p = ([], prevok) \<and> (1 < k \<longrightarrow> prevok)"
  shows "no_errors (applier (answers i cs as) rs)"
proof (rule applier_quiet, rule ballI)
  fix x assume "x \<in> set (answers i cs as)"
  then obtain c a where "(c, a) \<in> set (zip cs as)" "x = (snd c, a)" by (auto simp: answers_def)
  then obtain p where "p < length cs" "c = cs ! p" "a = as ! p" using assms(1) by (auto simp: in_set_zip)
  then show "\<exists>c k prevok. x = (CommandMsg c k, [], prevok) \<and> (1 < k \<longrightarrow> prevok)" using assms(2) \<open>x = (snd c, a)\<close> by fastforce
qed

lemma copied_count:
  assumes "copied n cs ts" and "\<forall>i w. CommandMsg w k \<in> set (reported cs i) \<longrightarrow> w = v"
  shows "nCommitted shw k ts = (let m = length (filter (\<lambda>i. \<exists>w. CommandMsg w k \<in> set (reported cs i)) (go_range n))
    in Some (Inr (int m, if m = 0 then None else v)))"
proof -
  have l: "length (ts_srvs ts) = n" using assms(1) by (simp add: copied_def)
  have srv: "\<exists>rs. ts_srvs ts ! i = Some rs \<and> applyErr rs = [] \<and> (\<forall>w. logs rs k = Some w \<longrightarrow> w = v)
      \<and> (logs rs k \<noteq> None \<longleftrightarrow> (\<exists>w. CommandMsg w k \<in> set (reported cs (int i))))" if "i < n" for i
    using assms that unfolding copied_def by (metis not_None_eq)
  have "\<forall>x \<in> set (ts_srvs ts). \<exists>rs. x = Some rs \<and> applyErr rs = [] \<and> (\<forall>w. logs rs k = Some w \<longrightarrow> w = v)"
    using srv l by (metis in_set_conv_nth)
  note N = nCommitted_loop_agree [OF this, of 0 None shw]
  let ?P = "\<lambda>x. \<exists>rs. x = Some rs \<and> logs rs k \<noteq> None"
  have "filter ?P (ts_srvs ts) = filter ?P (map (\<lambda>i. ts_srvs ts ! i) [0..<n])" by (simp add: l [symmetric] map_nth)
  then have "length (filter ?P (ts_srvs ts)) = length (filter (\<lambda>i. ?P (ts_srvs ts ! i)) [0..<n])" by (simp add: filter_map comp_def)
  also have "filter (\<lambda>i. ?P (ts_srvs ts ! i)) [0..<n] = filter (\<lambda>i. \<exists>w. CommandMsg w k \<in> set (reported cs (int i))) [0..<n]"
    by (rule filter_cong [OF HOL.refl]) (use srv in fastforce)
  also have "length \<dots> = length (filter (\<lambda>i. \<exists>w. CommandMsg w k \<in> set (reported cs i)) (go_range n))"
    by (simp add: go_range_def filter_map comp_def)
  finally have "length (filter ?P (ts_srvs ts)) = length (filter (\<lambda>i. \<exists>w. CommandMsg w k \<in> set (reported cs i)) (go_range n))" .
  then show ?thesis using N by (simp add: nCommitted_def)
qed

text \<open>C11. Without snapshots the servers of a cluster of an odd size never have a report rejected, in whatever order the test
  receives their reports and however the cluster elects, crashes and loses messages: \<^verbatim>\<open>CheckLogs\<close> finds no other
  command at the index, and has the entry before it, so that no server's reader reports an error. The count of servers
  that committed an index is then the number of servers that reported it, and does not fail.\<close>

theorem tester_accepts_cluster:
  assumes "plain_reachable n C" and "odd n" and "makeTest n False = Some ts0"
    and "\<forall>i. prefix (reported calls i) (delivered C i)" and "\<forall>x \<in> set calls. fst x \<in> servers C"
  shows "\<exists>as ts. check_all shw calls ts0 = Some (as, ts) \<and> (\<forall>i rs. no_errors (applier (answers i calls as) rs))
    \<and> (\<forall>k. \<exists>cmd. nCommitted shw k ts = Some (Inr (int (length (filter (\<lambda>i. \<exists>w. CommandMsg w k \<in> set (reported calls i)) (go_range n))), cmd))
         \<and> (\<forall>i w. CommandMsg w k \<in> set (reported calls i) \<longrightarrow> i \<in> servers C \<longrightarrow> cmd = w))"
proof -
  have P: "plain C" "calm_reachable n C" "reachable n C" using plain_reachable_inv [OF assms(1)] by simp_all
  have n: "servers C = {0..<int n}" by (simp add: servers_def reachable_nservers [OF P(3)])
  have agree: "\<forall>i j k v w. CommandMsg v k \<in> set (delivered C i) \<longrightarrow> CommandMsg w k \<in> set (delivered C j) \<longrightarrow> v = w"
    using delivered_agree [OF P(2) assms(2)] by blast
  have gap: "\<forall>i. 0 \<le> i \<longrightarrow> i < int n \<longrightarrow> gapless (delivered C i)" using plainD(2) [OF P(1)] by (simp add: n told_def)
  have c: "copied n [] ts0" using makeTest_servers [OF assms(3)] by (auto simp: copied_def newRaftServer_def reported_def)
  obtain as ts where 1: "check_all shw calls ts0 = Some (as, ts)" "length as = length calls" "copied n calls ts"
    "\<forall>p < length calls. \<exists>prevok k v. snd (calls ! p) = CommandMsg v k \<and> as ! p = ([], prevok) \<and> (1 < k \<longrightarrow> prevok)"
    using check_all_accepts [OF agree gap c, of calls shw] assms(4,5) by (auto simp: n)
  have rep: "CommandMsg w k \<in> set (delivered C i)" if "CommandMsg w k \<in> set (reported calls i)" for w k i
    using that assms(4) by (meson set_mono_prefix subsetD)
  have "\<exists>cmd. nCommitted shw k ts = Some (Inr (int (length (filter (\<lambda>i. \<exists>w. CommandMsg w k \<in> set (reported calls i)) (go_range n))), cmd))
      \<and> (\<forall>i w. CommandMsg w k \<in> set (reported calls i) \<longrightarrow> i \<in> servers C \<longrightarrow> cmd = w)" for k
  proof -
    obtain v where v: "\<forall>i w. CommandMsg w k \<in> set (reported calls i) \<longrightarrow> w = v"
      using rep agree by metis
    let ?m = "length (filter (\<lambda>i. \<exists>w. CommandMsg w k \<in> set (reported calls i)) (go_range n))"
    have "?m \<noteq> 0" if "CommandMsg w k \<in> set (reported calls i)" "i \<in> servers C" for i w
      using that by (auto simp: n go_range_def filter_empty_conv image_iff intro!: bexI [of _ "nat i"])
    then show ?thesis using copied_count [OF 1(3) v, of shw] v by (intro exI [of _ "if ?m = 0 then None else v"]) (auto simp: Let_def)
  qed
  then show ?thesis using 1(1) answers_accepted [OF 1(2,4)] by blast
qed

theorem tester_accepts_cluster_witness:
  "\<exists>(C :: nat cluster) (ts0 :: nat Test) as ts cmd. plain_reachable 3 C \<and> makeTest 3 False = Some ts0
    \<and> delivered C 0 = [CommandMsg (Some 10) 1] \<and> delivered C 1 = [CommandMsg (Some 10) 1]
    \<and> check_all (\<lambda>_. []) [(0, CommandMsg (Some 10) 1), (1, CommandMsg (Some 10) 1)] ts0 = Some (as, ts)
    \<and> nCommitted (\<lambda>_. []) 1 ts = Some (Inr (2, cmd)) \<and> cmd = Some 10"
proof -
  let ?c = "[(0, CommandMsg (Some 10) 1), (1, CommandMsg (Some 10) 1)] :: (int \<times> nat ApplyMsg) list"
  have "\<exists>C :: nat cluster. plain_reachable 3 C \<and> delivered C 0 = [CommandMsg (Some 10) 1] \<and> delivered C 1 = [CommandMsg (Some 10) 1] \<and> nservers C = 3"
    by (rule after_plain [where es = "replicate_run @ [Heartbeat 0 0, Deliver 0 (SendEntries 1 1 1 1 1 []) 0, Apply 1]"]) code_simp
  then obtain C :: "nat cluster" where C: "plain_reachable 3 C" "delivered C 0 = [CommandMsg (Some 10) 1]"
    "delivered C 1 = [CommandMsg (Some 10) 1]" "nservers C = 3" by blast
  obtain ts0 :: "nat Test" where t: "makeTest 3 False = Some ts0" using makeTest_fresh by blast
  have s: "\<forall>x \<in> set ?c. fst x \<in> servers C" by (simp add: servers_def C(4))
  have p: "\<forall>i. prefix (reported ?c i) (delivered C i)" using C(2,3) by (auto simp: reported_def)
  have m: "length (filter (\<lambda>i. \<exists>w. CommandMsg w 1 \<in> set (reported ?c i)) (go_range 3)) = 2"
    by (simp add: go_range_def reported_def upt_conv_Cons)
  have o: "odd (3 :: nat)" by simp
  let ?N = "\<lambda>k. int (length (filter (\<lambda>i. \<exists>w. CommandMsg w k \<in> set (reported ?c i)) (go_range 3)))"
  obtain as ts where r: "check_all (\<lambda>_. []) ?c ts0 = Some (as, ts)"
    "\<forall>k. \<exists>cmd. nCommitted (\<lambda>_. []) k ts = Some (Inr (?N k, cmd)) \<and> (\<forall>i w. CommandMsg w k \<in> set (reported ?c i) \<longrightarrow> i \<in> servers C \<longrightarrow> cmd = w)"
    using tester_accepts_cluster [OF C(1) o t p s, of "\<lambda>_. []"] by (elim exE conjE) (rule that)
  obtain cmd where c: "nCommitted (\<lambda>_. []) 1 ts = Some (Inr (?N 1, cmd))"
    "\<forall>i w. CommandMsg w 1 \<in> set (reported ?c i) \<longrightarrow> i \<in> servers C \<longrightarrow> cmd = w" using r(2) [rule_format, of 1] by (elim exE conjE) (rule that)
  have "CommandMsg (Some 10) 1 \<in> set (reported ?c 0)" "(0 :: int) \<in> servers C" by (simp_all add: reported_def servers_def C(4))
  then have "cmd = Some 10" using c(2) by blast
  moreover have "nCommitted (\<lambda>_. []) 1 ts = Some (Inr (2, cmd))" using c(1) unfolding m by simp
  ultimately show ?thesis using C t r(1) by blast
qed

section \<open>The other checks\<close>

text \<open>The check of terms succeeds exactly when all connected servers report one term, and returns it.\<close>

lemma checkTerms_agree:
  assumes "\<forall>t b. Some (t, b) \<in> set r \<longrightarrow> 0 \<le> t"
  shows "checkTerms r = Inr t \<longleftrightarrow> (\<forall>u b. Some (u, b) \<in> set r \<longrightarrow> u = t) \<and> ((\<exists>u b. Some (u, b) \<in> set r) \<or> t = -1)"
proof -
  have loop: "checkTerms_loop r c = Inr t \<longleftrightarrow> (\<forall>u b. Some (u, b) \<in> set r \<longrightarrow> u = c) \<and> t = c" if "c \<noteq> -1" for r c
    using that by (induction r c rule: checkTerms_loop.induct) auto
  show ?thesis using assms unfolding checkTerms_def
  proof (induction r)
    case (Cons x r)
    show ?case
    proof (cases x)
      case None
      then show ?thesis using Cons by simp
    next
      case (Some y)
      obtain u b where y: "y = (u, b)" by fastforce
      have "u \<noteq> -1" using Cons.prems by (force simp: Some y)
      then show ?thesis using loop [of u r] by (auto simp: Some y)
    qed
  qed auto
qed

lemma await_commit_true:
  "await_commit shw cmd e index tss = Some (Inr True) \<Longrightarrow>
    \<exists>ts \<in> set tss. \<exists>nd. nCommitted shw index ts = Some (Inr (nd, Some cmd)) \<and> 0 < nd \<and> e \<le> nd"
proof (induction tss)
  case (Cons ts tss)
  then obtain nd c where "nCommitted shw index ts = Some (Inr (nd, c))"
    by (cases "nCommitted shw index ts") (auto split: sum.splits)
  then show ?case using Cons by (auto split: if_splits)
qed simp

text \<open>An agreement is reported only when enough servers have committed the command at the index.\<close>

lemma one_agreement:
  "one shw cmd e retry n rounds starts fin = Some (Inr index) \<Longrightarrow> index = -1 \<or>
    (\<exists>(f, ask, polls) \<in> set rounds. \<exists>ts \<in> set polls. \<exists>nd. nCommitted shw index ts = Some (Inr (nd, Some cmd)) \<and> 0 < nd \<and> e \<le> nd)"
proof (induction rounds arbitrary: starts)
  case (Cons x rounds)
  obtain f ask polls where x: "x = (f, ask, polls)" by (cases x)
  obtain i s where t: "try_starts ask n n starts = (i, s)" by fastforce
  consider "index = -1" | "await_commit shw cmd e index polls = Some (Inr True)" | "one shw cmd e retry n rounds s fin = Some (Inr index)"
  proof (cases "f \<or> i = -1")
    case True
    then have "f \<or> one shw cmd e retry n rounds s fin = Some (Inr index)" "f \<longrightarrow> index = -1"
      using Cons.prems t by (cases f; auto simp: x)+
    then show ?thesis using that by blast
  next
    case False
    then obtain r where r: "await_commit shw cmd e i polls = Some r" and
      o: "(case r of Inl e \<Rightarrow> Some (Inl e) | Inr True \<Rightarrow> Some (Inr i)
        | Inr False \<Rightarrow> if \<not> retry then Some (Inl (one_failed shw cmd)) else one shw cmd e retry n rounds s fin) = Some (Inr index)"
      using Cons.prems t by (auto simp: x bind_Some_iff)
    have "r = Inr True \<and> index = i \<or> one shw cmd e retry n rounds s fin = Some (Inr index)"
      using o by (cases r) (auto split: bool.splits if_splits)
    then show ?thesis using r that by blast
  qed
  then show ?case
  proof cases
    case 2
    then show ?thesis using await_commit_true [OF 2] by (auto simp: x)
  next
    case 3
    then show ?thesis using Cons.IH [OF 3] by auto
  qed simp
qed (simp split: if_splits)

text \<open>What \<^verbatim>\<open>wait\<close> returns as decided is committed by the servers it was to wait for.\<close>

lemma wait_end_decided:
  assumes "wait_end shw index n ts = Some (Inr (Decided cmd))"
  shows "\<exists>nd. nCommitted shw index ts = Some (Inr (nd, cmd)) \<and> n \<le> nd"
proof -
  obtain nd c where "nCommitted shw index ts = Some (Inr (nd, c))"
    using assms by (cases "nCommitted shw index ts") (auto simp: wait_end_def split: sum.splits)
  then show ?thesis using assms by (auto simp: wait_end_def split: if_splits)
qed

lemma wait_loop_decided:
  "wait_loop shw index n startTerm its ts = Some (Inr (Decided cmd)) \<Longrightarrow> wait_end shw index n ts = Some (Inr (Decided cmd))"
proof (induction its)
  case (Cons x its)
  obtain t1 terms where x: "x = (t1, terms)" by fastforce
  obtain nd c where "nCommitted shw index t1 = Some (Inr (nd, c))"
    using Cons.prems by (cases "nCommitted shw index t1") (auto simp: x split: sum.splits)
  then show ?case using Cons by (auto simp: x split: if_splits)
qed simp

lemma wait_decided: "ts_wait shw index n startTerm its ts = Some (Inr (Decided cmd)) \<Longrightarrow> \<exists>nd. nCommitted shw index ts = Some (Inr (nd, cmd)) \<and> n \<le> nd"
  unfolding ts_wait_def by (rule wait_end_decided [OF wait_loop_decided])

text \<open>Killing and restarting a server keeps what it reported.\<close>

lemma kill_restart:
  assumes "srv_at ts i = Some rs"
  shows "\<exists>ts1 ts2. ts_kill [i] ts = Some ts1 \<and> ts_restart [i] ts1 = Some ts2 \<and> srv_at ts2 i = Some (rs\<lparr>rfsrv_set := True\<rparr>)
    \<and> (\<forall>j. j \<noteq> i \<longrightarrow> srv_at ts2 j = srv_at ts j)"
  using assms
  by (auto simp: srv_at_def set_srv_def ts_restart_def mksrv_def bind_Some_iff go_nth_def go_upd_def go_len_def nth_list_update split: if_splits)

end
