(* ===== verification/Lab_Rpc.thy ===== *)
theory Lab_Rpc
  imports Go_Prelude
begin

text \<open>
  The simulated network of \<^verbatim>\<open>labrpc/labrpc.go\<close>: client ends, the network that loses requests and
  replies, servers and their services. The pieces of \<^verbatim>\<open>processReq\<close> between two points where it
  waits are one definition each; the calls in progress, the handlers' goroutines and the changes the
  tests make to the network are interleaved by the step relation \<open>net_step\<close>. The random numbers
  are arguments, the encoder and decoder of \<^verbatim>\<open>labgob\<close> (a wrapper of \<^verbatim>\<open>encoding/gob\<close>) are parameters:
  \<open>enc v\<close> is what was written and whether there was no error, \<open>dec b\<close> the decoded value or an error.

  Servers are objects compared by identity, so the network holds addresses into a heap of servers.
\<close>

section \<open>Messages\<close>

record reqMsg =
  rq_endname :: string
  rq_svcMeth :: string
  rq_args :: bytes

record replyMsg =
  rp_ok :: bool
  rp_reply :: bytes

definition failed_reply :: replyMsg where
  "failed_reply = \<lparr>rp_ok = False, rp_reply = []\<rparr>"

definition Marshall :: "('v \<Rightarrow> bytes \<times> bool) \<Rightarrow> 'v \<Rightarrow> bytes option" where
  "Marshall enc v = (if snd (enc v) then Some (fst (enc v)) else None)"

definition Unmarshall :: "(bytes \<Rightarrow> 'v option) \<Rightarrow> bytes \<Rightarrow> 'v option" where
  "Unmarshall dec b = dec b"

section \<open>Client ends\<close>

record ClientEnd =
  ce_endname :: string
  callf :: "(string \<Rightarrow> string \<Rightarrow> bytes \<Rightarrow> bytes \<times> bool) option"

definition SetCall :: "(string \<Rightarrow> string \<Rightarrow> bytes \<Rightarrow> bytes \<times> bool) \<Rightarrow> ClientEnd \<Rightarrow> ClientEnd" where
  "SetCall f e = e\<lparr>callf := Some f\<rparr>"

text \<open>\<^verbatim>\<open>Call\<close> returns false (\<open>Some None\<close>) or true with the decoded reply; \<open>None\<close> is \<^verbatim>\<open>log.Fatalf\<close>.
  First the call through \<^verbatim>\<open>callf\<close>, then what is sent to the network and what is made of its answer.\<close>

definition Call_callf :: "('v \<Rightarrow> bytes \<times> bool) \<Rightarrow> (bytes \<Rightarrow> 'v option) \<Rightarrow> (string \<Rightarrow> string \<Rightarrow> bytes \<Rightarrow> bytes \<times> bool) \<Rightarrow>
    string \<Rightarrow> 'v \<Rightarrow> ClientEnd \<Rightarrow> 'v option option" where
  "Call_callf enc dec f svcMeth args e = do {
     b \<leftarrow> Marshall enc args;
     (let (rep, ok) = f (ce_endname e) svcMeth b
      in if \<not> ok then Some None else map_option Some (Unmarshall dec rep))
   }"

definition Call_request :: "('v \<Rightarrow> bytes \<times> bool) \<Rightarrow> string \<Rightarrow> 'v \<Rightarrow> ClientEnd \<Rightarrow> reqMsg option" where
  "Call_request enc svcMeth args e = do {
     b \<leftarrow> Marshall enc args;
     Some \<lparr>rq_endname = ce_endname e, rq_svcMeth = svcMeth, rq_args = b\<rparr>
   }"

definition Call_answer :: "(bytes \<Rightarrow> 'v option) \<Rightarrow> replyMsg \<Rightarrow> 'v option option" where
  "Call_answer dec rep = (if rp_ok rep then map_option Some (Unmarshall dec (rp_reply rep)) else Some None)"

definition Forward_request :: "string \<Rightarrow> bytes \<Rightarrow> ClientEnd \<Rightarrow> reqMsg" where
  "Forward_request svcMeth args e = \<lparr>rq_endname = ce_endname e, rq_svcMeth = svcMeth, rq_args = args\<rparr>"

section \<open>Services and servers\<close>

text \<open>A method as \<^verbatim>\<open>reflect\<close> shows it. The function decodes nothing itself: it gets the argument and the
  receiver and leaves the receiver and the reply, or does not return normally.\<close>

record ('s, 'v) go_method =
  mname :: string
  m_PkgPath :: string
  m_NumIn :: int
  m_In2_ptr :: bool
  m_NumOut :: int
  m_Func :: "'v \<Rightarrow> 's \<Rightarrow> ('s \<times> 'v) option"

record ('s, 'v) Service =
  sv_name :: string
  rcvr :: 's
  methods :: "string \<rightharpoonup> ('v \<Rightarrow> 's \<Rightarrow> ('s \<times> 'v) option)"

fun add_methods :: "('s, 'v) go_method list \<Rightarrow> ('s, 'v) Service \<Rightarrow> ('s, 'v) Service" where
  "add_methods [] svc = svc"
| "add_methods (m # ms) svc =
     (if m_PkgPath m \<noteq> [] \<or> m_NumIn m \<noteq> 3 \<or> \<not> m_In2_ptr m \<or> m_NumOut m \<noteq> 0 then add_methods ms svc
      else add_methods ms (svc\<lparr>methods := (methods svc)(mname m \<mapsto> m_Func m)\<rparr>))"

definition MakeService :: "string \<Rightarrow> ('s, 'v) go_method list \<Rightarrow> 's \<Rightarrow> ('s, 'v) Service" where
  "MakeService tname ms r = add_methods ms \<lparr>sv_name = tname, rcvr = r, methods = Map.empty\<rparr>"

definition Service_dispatch :: "('v \<Rightarrow> bytes \<times> bool) \<Rightarrow> (bytes \<Rightarrow> 'v option) \<Rightarrow> string \<Rightarrow> reqMsg \<Rightarrow>
    ('s, 'v) Service \<Rightarrow> (('s, 'v) Service \<times> replyMsg) option" where
  "Service_dispatch enc dec methname req svc =
     (case methods svc methname of
        None \<Rightarrow> None
      | Some f \<Rightarrow> do {
          args \<leftarrow> Unmarshall dec (rq_args req);
          (r, replyv) \<leftarrow> f args (rcvr svc);
          Some (svc\<lparr>rcvr := r\<rparr>, \<lparr>rp_ok = True, rp_reply = fst (enc replyv)\<rparr>)
        })"

record ('s, 'v) Server =
  services :: "string \<rightharpoonup> ('s, 'v) Service"
  sv_count :: int
  dispatchf :: "(string \<Rightarrow> bytes \<Rightarrow> bytes \<times> bool) option"

definition MakeServer :: "('s, 'v) Server" where
  "MakeServer = \<lparr>services = Map.empty, sv_count = 0, dispatchf = None\<rparr>"

definition SetDispatch :: "(string \<Rightarrow> bytes \<Rightarrow> bytes \<times> bool) \<Rightarrow> ('s, 'v) Server \<Rightarrow> ('s, 'v) Server" where
  "SetDispatch f rs = rs\<lparr>dispatchf := Some f\<rparr>"

definition AddService :: "('s, 'v) Service \<Rightarrow> ('s, 'v) Server \<Rightarrow> ('s, 'v) Server" where
  "AddService svc rs = rs\<lparr>services := (services rs)(sv_name svc \<mapsto> svc)\<rparr>"

text \<open>\<^verbatim>\<open>strings.LastIndex\<close> of one character.\<close>

fun last_index :: "char \<Rightarrow> string \<Rightarrow> int" where
  "last_index c [] = -1"
| "last_index c (x # xs) = (let i = last_index c xs in if i \<ge> 0 then i + 1 else if x = c then 0 else -1)"

definition Server_dispatch :: "('v \<Rightarrow> bytes \<times> bool) \<Rightarrow> (bytes \<Rightarrow> 'v option) \<Rightarrow> reqMsg \<Rightarrow>
    ('s, 'v) Server \<Rightarrow> (('s, 'v) Server \<times> replyMsg) option" where
  "Server_dispatch enc dec req rs0 = do {
     let rs = rs0\<lparr>sv_count := sv_count rs0 + 1\<rparr>;
     let dot = last_index (CHR ''.'') (rq_svcMeth req);
     serviceName \<leftarrow> go_to (rq_svcMeth req) dot;
     methodName \<leftarrow> go_from (rq_svcMeth req) (dot + 1);
     (case dispatchf rs of
        Some f \<Rightarrow> (let (rep, ok) = f (rq_svcMeth req) (rq_args req) in Some (rs, \<lparr>rp_ok = ok, rp_reply = rep\<rparr>))
      | None \<Rightarrow>
          (case services rs serviceName of
             None \<Rightarrow> None
           | Some service \<Rightarrow> do {
               (service1, reply) \<leftarrow> Service_dispatch enc dec methodName req service;
               Some (rs\<lparr>services := (services rs)(serviceName \<mapsto> service1)\<rparr>, reply)
             }))
   }"

definition Server_Dispatch :: "('v \<Rightarrow> bytes \<times> bool) \<Rightarrow> (bytes \<Rightarrow> 'v option) \<Rightarrow> string \<Rightarrow> string \<Rightarrow> bytes \<Rightarrow>
    ('s, 'v) Server \<Rightarrow> (('s, 'v) Server \<times> bytes \<times> bool) option" where
  "Server_Dispatch enc dec svcMeth clnt args rs = do {
     (rs1, rep) \<leftarrow> Server_dispatch enc dec \<lparr>rq_endname = clnt, rq_svcMeth = svcMeth, rq_args = args\<rparr> rs;
     Some (rs1, rp_reply rep, rp_ok rep)
   }"

section \<open>The network\<close>

text \<open>A nil entry of \<^verbatim>\<open>servers\<close> or \<^verbatim>\<open>connections\<close> reads like a missing one; \<open>cleaned\<close> says that \<^verbatim>\<open>done\<close> is closed.\<close>

record Network =
  reliable :: bool
  longDelays :: bool
  longReordering :: bool
  ends :: "string \<rightharpoonup> ClientEnd"
  enabled :: "string \<rightharpoonup> bool"
  servers :: "string \<rightharpoonup> nat"
  connections :: "string \<rightharpoonup> string"
  cleaned :: bool
  ncount :: "32 word"
  nbytes :: "64 word"

definition MakeNetwork :: Network where
  "MakeNetwork = \<lparr>reliable = True, longDelays = False, longReordering = False, ends = Map.empty,
     enabled = Map.empty, servers = Map.empty, connections = Map.empty, cleaned = False, ncount = 0, nbytes = 0\<rparr>"

definition Cleanup :: "Network \<Rightarrow> Network option" where
  "Cleanup rn = (if cleaned rn then None else Some (rn\<lparr>cleaned := True\<rparr>))"

definition Reliable :: "bool \<Rightarrow> Network \<Rightarrow> Network" where
  "Reliable yes rn = rn\<lparr>reliable := yes\<rparr>"

definition LongReordering :: "bool \<Rightarrow> Network \<Rightarrow> Network" where
  "LongReordering yes rn = rn\<lparr>longReordering := yes\<rparr>"

definition LongDelays :: "bool \<Rightarrow> Network \<Rightarrow> Network" where
  "LongDelays yes rn = rn\<lparr>longDelays := yes\<rparr>"

definition is_enabled :: "string \<Rightarrow> Network \<Rightarrow> bool" where
  "is_enabled endname rn = (enabled rn endname = Some True)"

definition readEndnameInfo :: "string \<Rightarrow> Network \<Rightarrow> bool \<times> string option \<times> nat option \<times> bool \<times> bool" where
  "readEndnameInfo endname rn =
     (let servername = connections rn endname
      in (is_enabled endname rn, servername, Option.bind servername (servers rn), reliable rn, longReordering rn))"

definition isServerDead :: "string \<Rightarrow> string \<Rightarrow> nat \<Rightarrow> Network \<Rightarrow> bool" where
  "isServerDead endname servername server rn \<longleftrightarrow> \<not> is_enabled endname rn \<or> servers rn servername \<noteq> Some server"

definition MakeEnd :: "string \<Rightarrow> Network \<Rightarrow> (Network \<times> ClientEnd) option" where
  "MakeEnd endname rn =
     (if ends rn endname \<noteq> None then None
      else let e = \<lparr>ce_endname = endname, callf = None\<rparr>
           in Some (rn\<lparr>ends := (ends rn)(endname \<mapsto> e), enabled := (enabled rn)(endname \<mapsto> False),
                       connections := (connections rn)(endname := None)\<rparr>, e))"

definition LookupEnd :: "string \<Rightarrow> Network \<Rightarrow> ClientEnd option" where
  "LookupEnd endname rn = ends rn endname"

definition DeleteEnd :: "string \<Rightarrow> Network \<Rightarrow> Network option" where
  "DeleteEnd endname rn =
     (if ends rn endname = None then None
      else Some (rn\<lparr>ends := (ends rn)(endname := None), enabled := (enabled rn)(endname := None),
                    connections := (connections rn)(endname := None)\<rparr>))"

definition AddServer :: "string \<Rightarrow> nat \<Rightarrow> Network \<Rightarrow> Network" where
  "AddServer servername rs rn = rn\<lparr>servers := (servers rn)(servername \<mapsto> rs)\<rparr>"

definition DeleteServer :: "string \<Rightarrow> Network \<Rightarrow> Network" where
  "DeleteServer servername rn = rn\<lparr>servers := (servers rn)(servername := None)\<rparr>"

definition Connect :: "string \<Rightarrow> string \<Rightarrow> Network \<Rightarrow> Network" where
  "Connect endname servername rn = rn\<lparr>connections := (connections rn)(endname \<mapsto> servername)\<rparr>"

definition Enable :: "string \<Rightarrow> bool \<Rightarrow> Network \<Rightarrow> Network" where
  "Enable endname yes rn = rn\<lparr>enabled := (enabled rn)(endname \<mapsto> yes)\<rparr>"

definition GetCount :: "string \<Rightarrow> (nat \<rightharpoonup> ('s, 'v) Server) \<Rightarrow> Network \<Rightarrow> int option" where
  \<comment> \<open>on a nil server the lock of its \<^verbatim>\<open>GetCount\<close> panics\<close>
  "GetCount servername h rn = do { a \<leftarrow> servers rn servername; rs \<leftarrow> h a; Some (sv_count rs) }"

definition accept_req :: "reqMsg \<Rightarrow> Network \<Rightarrow> Network" where
  \<comment> \<open>the goroutine of \<^verbatim>\<open>MakeNetwork\<close> takes a request and starts \<^verbatim>\<open>processReq\<close>\<close>
  "accept_req req rn = rn\<lparr>ncount := ncount rn + 1, nbytes := nbytes rn + of_nat (length (rq_args req))\<rparr>"

definition count_reply :: "replyMsg \<Rightarrow> Network \<Rightarrow> Network" where
  "count_reply reply rn = rn\<lparr>nbytes := nbytes rn + of_nat (length (rp_reply reply))\<rparr>"

section \<open>Processing a request\<close>

text \<open>Where \<^verbatim>\<open>processReq\<close> stands: not started; waiting for the handler of the server it found, with
  what it had read of the network; waiting for the timer that sends the reply; done.\<close>

datatype proc = Queued | Awaiting string nat bool bool | Pending replyMsg | Answered replyMsg

text \<open>The goroutine that runs the handler.\<close>

datatype handler = NotStarted | Running nat | Finished replyMsg

definition processReq_start :: "int \<Rightarrow> reqMsg \<Rightarrow> Network \<Rightarrow> proc \<times> handler" where
  "processReq_start r req rn =
     (let (on, servername, server, rel, longr) = readEndnameInfo (rq_endname req) rn
      in case (servername, server) of
           (Some sn, Some sv) \<Rightarrow>
             if on then if \<not> rel \<and> r mod 1000 < 100 then (Answered failed_reply, NotStarted)
                        else (Awaiting sn sv rel longr, Running sv)
             else (Pending failed_reply, NotStarted)
         | _ \<Rightarrow> (Pending failed_reply, NotStarted))"

text \<open>After 100 ms without an answer of the handler.\<close>

definition processReq_poll :: "reqMsg \<Rightarrow> string \<Rightarrow> nat \<Rightarrow> bool \<Rightarrow> bool \<Rightarrow> Network \<Rightarrow> proc" where
  "processReq_poll req sn sv rel longr rn =
     (if isServerDead (rq_endname req) sn sv rn then Answered failed_reply else Awaiting sn sv rel longr)"

text \<open>After the handler's answer.\<close>

definition processReq_finish :: "int \<Rightarrow> int \<Rightarrow> reqMsg \<Rightarrow> string \<Rightarrow> nat \<Rightarrow> bool \<Rightarrow> bool \<Rightarrow> replyMsg \<Rightarrow> Network \<Rightarrow> Network \<times> proc" where
  "processReq_finish r1 r2 req sn sv rel longr reply rn =
     (if isServerDead (rq_endname req) sn sv rn then (rn, Answered failed_reply)
      else if \<not> rel \<and> r1 mod 1000 < 100 then (rn, Answered failed_reply)
      else if longr \<and> r2 mod 900 < 600 then (rn, Pending reply)
      else (count_reply reply rn, Answered reply))"

section \<open>The network and its calls\<close>

record call_st =
  c_req :: reqMsg
  c_proc :: proc
  c_hnd :: handler

text \<open>\<open>executed\<close> records the handlers that ran, with what they answered.\<close>

record ('s, 'v) world =
  net :: Network
  srvs :: "nat \<rightharpoonup> ('s, 'v) Server"
  calls :: "nat \<rightharpoonup> call_st"
  executed :: "(nat \<times> replyMsg) list"

definition empty_world :: "('s, 'v) world" where
  "empty_world = \<lparr>net = MakeNetwork, srvs = Map.empty, calls = Map.empty, executed = []\<rparr>"

text \<open>What the tests do to the network. A server registered by name is one of the heap.\<close>

datatype admin = SetReliable bool | SetLongReordering bool | SetLongDelays bool | NewEnd string | DropEnd string
  | Register string nat | Unregister string | ConnectEnd string string | EnableEnd string bool | CleanNetwork

fun admin_apply :: "admin \<Rightarrow> Network \<Rightarrow> Network option" where
  "admin_apply (SetReliable b) rn = Some (Reliable b rn)"
| "admin_apply (SetLongReordering b) rn = Some (LongReordering b rn)"
| "admin_apply (SetLongDelays b) rn = Some (LongDelays b rn)"
| "admin_apply (NewEnd e) rn = map_option fst (MakeEnd e rn)"
| "admin_apply (DropEnd e) rn = DeleteEnd e rn"
| "admin_apply (Register sn a) rn = Some (AddServer sn a rn)"
| "admin_apply (Unregister sn) rn = Some (DeleteServer sn rn)"
| "admin_apply (ConnectEnd e sn) rn = Some (Connect e sn rn)"
| "admin_apply (EnableEnd e b) rn = Some (Enable e b rn)"
| "admin_apply CleanNetwork rn = Cleanup rn"

fun admin_ok :: "admin \<Rightarrow> (nat \<rightharpoonup> ('s, 'v) Server) \<Rightarrow> bool" where
  "admin_ok (Register sn a) h \<longleftrightarrow> h a \<noteq> None"
| "admin_ok _ h \<longleftrightarrow> True"

inductive net_step :: "('v \<Rightarrow> bytes \<times> bool) \<Rightarrow> (bytes \<Rightarrow> 'v option) \<Rightarrow> ('s, 'v) world \<Rightarrow> ('s, 'v) world \<Rightarrow> bool"
  for enc dec where
  admin: "admin_ok a (srvs w) \<Longrightarrow> admin_apply a (net w) = Some rn \<Longrightarrow> net_step enc dec w (w\<lparr>net := rn\<rparr>)"
| new_server: "srvs w a = None \<Longrightarrow> net_step enc dec w (w\<lparr>srvs := (srvs w)(a \<mapsto> rs)\<rparr>)"
| send: "calls w i = None \<Longrightarrow>
    net_step enc dec w (w\<lparr>net := accept_req req (net w), calls := (calls w)(i \<mapsto> \<lparr>c_req = req, c_proc = Queued, c_hnd = NotStarted\<rparr>)\<rparr>)"
| refuse: "calls w i = None \<Longrightarrow> cleaned (net w) \<Longrightarrow>
    net_step enc dec w (w\<lparr>calls := (calls w)(i \<mapsto> \<lparr>c_req = req, c_proc = Answered failed_reply, c_hnd = NotStarted\<rparr>)\<rparr>)"
| start: "calls w i = Some c \<Longrightarrow> c_proc c = Queued \<Longrightarrow> processReq_start r (c_req c) (net w) = (p, h) \<Longrightarrow>
    net_step enc dec w (w\<lparr>calls := (calls w)(i \<mapsto> c\<lparr>c_proc := p, c_hnd := h\<rparr>)\<rparr>)"
| run: "calls w i = Some c \<Longrightarrow> c_hnd c = Running a \<Longrightarrow> srvs w a = Some rs \<Longrightarrow>
    Server_dispatch enc dec (c_req c) rs = Some (rs', reply) \<Longrightarrow>
    net_step enc dec w (w\<lparr>srvs := (srvs w)(a \<mapsto> rs'), calls := (calls w)(i \<mapsto> c\<lparr>c_hnd := Finished reply\<rparr>),
      executed := executed w @ [(i, reply)]\<rparr>)"
| poll: "calls w i = Some c \<Longrightarrow> c_proc c = Awaiting sn sv rel longr \<Longrightarrow>
    net_step enc dec w (w\<lparr>calls := (calls w)(i \<mapsto> c\<lparr>c_proc := processReq_poll (c_req c) sn sv rel longr (net w)\<rparr>)\<rparr>)"
| finish: "calls w i = Some c \<Longrightarrow> c_proc c = Awaiting sn sv rel longr \<Longrightarrow> c_hnd c = Finished reply \<Longrightarrow>
    processReq_finish r1 r2 (c_req c) sn sv rel longr reply (net w) = (rn, p) \<Longrightarrow>
    net_step enc dec w (w\<lparr>net := rn, calls := (calls w)(i \<mapsto> c\<lparr>c_proc := p\<rparr>)\<rparr>)"
| deliver: "calls w i = Some c \<Longrightarrow> c_proc c = Pending reply \<Longrightarrow>
    net_step enc dec w (w\<lparr>net := count_reply reply (net w), calls := (calls w)(i \<mapsto> c\<lparr>c_proc := Answered reply\<rparr>)\<rparr>)"

inductive net_reach :: "('v \<Rightarrow> bytes \<times> bool) \<Rightarrow> (bytes \<Rightarrow> 'v option) \<Rightarrow> ('s, 'v) world \<Rightarrow> ('s, 'v) world \<Rightarrow> bool"
  for enc dec where
  here: "net_reach enc dec w w"
| more: "net_reach enc dec w w1 \<Longrightarrow> net_step enc dec w1 w2 \<Longrightarrow> net_reach enc dec w w2"

section \<open>Calls and executions\<close>

text \<open>How a call's state and the executions correspond.\<close>

definition call_inv :: "(nat \<times> replyMsg) list \<Rightarrow> nat \<Rightarrow> call_st \<Rightarrow> bool" where
  "call_inv ex i c \<longleftrightarrow>
     (case c_hnd c of Finished r \<Rightarrow> (i, r) \<in> set ex | _ \<Rightarrow> i \<notin> fst ` set ex)
     \<and> (case c_proc c of
          Queued \<Rightarrow> c_hnd c = NotStarted
        | Awaiting sn sv rel longr \<Rightarrow> c_hnd c = Running sv \<or> (\<exists>r. c_hnd c = Finished r)
        | Pending r \<Rightarrow> rp_ok r \<longrightarrow> c_hnd c = Finished r
        | Answered r \<Rightarrow> rp_ok r \<longrightarrow> c_hnd c = Finished r)"

definition net_inv :: "('s, 'v) world \<Rightarrow> bool" where
  "net_inv w \<longleftrightarrow> distinct (map fst (executed w)) \<and> (\<forall>i c. calls w i = Some c \<longrightarrow> call_inv (executed w) i c)
     \<and> (\<forall>i. calls w i = None \<longrightarrow> i \<notin> fst ` set (executed w))
     \<and> (\<forall>i c a. calls w i = Some c \<longrightarrow> c_hnd c = Running a \<longrightarrow> srvs w a \<noteq> None)
     \<and> (\<forall>sn a. servers (net w) sn = Some a \<longrightarrow> srvs w a \<noteq> None)"

lemmas net_op_defs = Reliable_def LongReordering_def LongDelays_def MakeEnd_def DeleteEnd_def AddServer_def
  DeleteServer_def Connect_def Enable_def Cleanup_def accept_req_def count_reply_def

lemma admin_servers:
  assumes "admin_apply a rn = Some rn'" and "admin_ok a h" and "\<forall>sn a. servers rn sn = Some a \<longrightarrow> h a \<noteq> None"
  shows "servers rn' sn = Some b \<Longrightarrow> h b \<noteq> None"
  using assms by (cases a) (auto simp: net_op_defs Let_def split: if_splits)

lemma start_inv:
  assumes "processReq_start r req rn = (p, h)" and "i \<notin> fst ` set ex" and "\<forall>sn a. servers rn sn = Some a \<longrightarrow> sv a \<noteq> None"
  shows "call_inv ex i (c\<lparr>c_proc := p, c_hnd := h\<rparr>) \<and> (h = Running a \<longrightarrow> sv a \<noteq> None)"
  using assms
  by (auto simp: processReq_start_def readEndnameInfo_def call_inv_def failed_reply_def Let_def split: option.splits if_splits)

lemma poll_inv:
  assumes "call_inv ex i c" and "c_proc c = Awaiting sn sv rel longr"
  shows "call_inv ex i (c\<lparr>c_proc := processReq_poll req sn sv rel longr rn\<rparr>)"
  using assms by (auto simp: processReq_poll_def call_inv_def failed_reply_def)

lemma finish_inv:
  assumes "call_inv ex i c" and "c_hnd c = Finished reply"
    and "processReq_finish r1 r2 req sn sv rel longr reply rn = (rn', p)"
  shows "call_inv ex i (c\<lparr>c_proc := p\<rparr>) \<and> servers rn' = servers rn"
  using assms by (auto simp: processReq_finish_def call_inv_def failed_reply_def count_reply_def split: if_splits)

lemma run_inv:
  assumes "call_inv ex i c" and "c_hnd c = Running a"
  shows "call_inv (ex @ [(i, reply)]) i (c\<lparr>c_hnd := Finished reply\<rparr>)"
  using assms by (auto simp: call_inv_def split: proc.splits)

lemma call_inv_other: "i \<noteq> j \<Longrightarrow> call_inv (ex @ [(j, reply)]) i c = call_inv ex i c"
  by (auto simp: call_inv_def split: handler.splits)

lemma net_inv_step:
  assumes "net_step enc dec w w'" and inv: "net_inv w"
  shows "net_inv w'"
  using assms(1)
proof cases
  case (admin a rn)
  then show ?thesis using inv admin_servers [OF admin(3,2)] by (simp add: net_inv_def)
next
  case (start i c r p h)
  have "call_inv (executed w) i c" using inv start(2) by (simp add: net_inv_def)
  then have i: "i \<notin> fst ` set (executed w)" using start(3) by (auto simp: call_inv_def split: handler.splits)
  have "\<forall>sn a. servers (net w) sn = Some a \<longrightarrow> srvs w a \<noteq> None" using inv by (simp add: net_inv_def)
  from start_inv [OF start(4) i this] inv show ?thesis unfolding start(1) by (auto simp: net_inv_def)
next
  case (run i c a rs rs' reply)
  have c: "call_inv (executed w) i c" using inv run(2) by (simp add: net_inv_def)
  then have "i \<notin> fst ` set (executed w)" using run(3) by (simp add: call_inv_def)
  with inv c run_inv [OF c run(3)] call_inv_other show ?thesis unfolding run(1) using run(2-4) by (auto simp: net_inv_def)
next
  case (poll i c sn sv rel longr)
  have "call_inv (executed w) i c" using inv poll(2) by (simp add: net_inv_def)
  from poll_inv [OF this poll(3)] inv show ?thesis unfolding poll(1) using poll(2) by (auto simp: net_inv_def)
next
  case (finish i c sn sv rel longr reply r1 r2 rn p)
  have "call_inv (executed w) i c" using inv finish(2) by (simp add: net_inv_def)
  from finish_inv [OF this finish(4,5)] inv show ?thesis unfolding finish(1) using finish(2) by (auto simp: net_inv_def)
next
  case (deliver i c reply)
  have "call_inv (executed w) i c" using inv deliver(2) by (simp add: net_inv_def)
  then have "call_inv (executed w) i (c\<lparr>c_proc := Answered reply\<rparr>)" using deliver(3) by (simp add: call_inv_def)
  with inv show ?thesis unfolding deliver(1) using deliver(2) by (auto simp: net_inv_def count_reply_def)
qed (use inv in \<open>auto simp: net_inv_def call_inv_def accept_req_def failed_reply_def\<close>)

lemma net_inv_reach: "net_reach enc dec w w' \<Longrightarrow> net_inv w \<Longrightarrow> net_inv w'"
  by (induction rule: net_reach.induct) (auto intro: net_inv_step)

lemma net_inv_empty: "net_inv empty_world"
  by (simp add: net_inv_def empty_world_def MakeNetwork_def)

lemma filter_no_key: "i \<notin> fst ` set xs \<Longrightarrow> filter (\<lambda>e. fst e = i) xs = []"
  by (induction xs) auto

lemma filter_distinct_key:
  assumes "distinct (map fst xs)"
  shows "length (filter (\<lambda>e. fst e = i) xs) \<le> 1" and "(i, r) \<in> set xs \<Longrightarrow> filter (\<lambda>e. fst e = i) xs = [(i, r)]"
  using assms by (induction xs) (auto simp: filter_empty_conv image_iff)

section \<open>Progress\<close>

text \<open>How far a call is from its answer.\<close>

definition stage :: "call_st \<Rightarrow> nat" where
  "stage c = (case c_proc c of Queued \<Rightarrow> 4 | Awaiting sn sv rel longr \<Rightarrow> (case c_hnd c of Finished r \<Rightarrow> 2 | _ \<Rightarrow> 3)
     | Pending r \<Rightarrow> 1 | Answered r \<Rightarrow> 0)"

lemma stage_start: "c_proc c = Queued \<Longrightarrow> processReq_start r req rn = (p, h) \<Longrightarrow> stage (c\<lparr>c_proc := p, c_hnd := h\<rparr>) < stage c"
  by (auto simp: stage_def processReq_start_def Let_def split: prod.splits option.splits if_splits)

lemma stage_poll:
  "c_proc c = Awaiting sn sv rel longr \<Longrightarrow> stage (c\<lparr>c_proc := processReq_poll req sn sv rel longr rn\<rparr>) \<le> stage c"
  by (auto simp: stage_def processReq_poll_def split: handler.splits)

lemma stage_finish:
  assumes "c_proc c = Awaiting sn sv rel longr" and "c_hnd c = Finished reply"
    and "processReq_finish r1 r2 req sn sv rel longr reply rn = (rn', p)"
  shows "stage (c\<lparr>c_proc := p\<rparr>) < stage c"
  using assms by (auto simp: stage_def processReq_finish_def split: if_splits)

lemma stage_run: "stage (c\<lparr>c_hnd := Finished reply\<rparr>) \<le> stage c"
  by (auto simp: stage_def split: proc.splits handler.splits)

lemma stage_antimono:
  assumes "net_step enc dec w w'" and "calls w i = Some c"
  shows "\<exists>c'. calls w' i = Some c' \<and> stage c' \<le> stage c"
  using assms(1)
proof cases
  case (start j c1 r p h)
  then show ?thesis using assms(2) less_imp_le [OF stage_start [OF start(3,4)]] by auto
next
  case (run j c1 a rs rs' reply)
  then show ?thesis using assms(2) stage_run [of reply c1] by auto
next
  case (poll j c1 sn sv rel longr)
  then show ?thesis using assms(2) stage_poll [OF poll(3), of "c_req c1" "net w"] by auto
next
  case (finish j c1 sn sv rel longr reply r1 r2 rn p)
  then show ?thesis using assms(2) less_imp_le [OF stage_finish [OF finish(3-5)]] by auto
next
  case (deliver j c1 reply)
  then show ?thesis using assms(2) by (auto simp: stage_def)
qed (use assms(2) in auto)

lemma stage_enabled:
  assumes inv: "call_inv (executed w) i c" and i: "calls w i = Some c" and "stage c \<noteq> 0"
    and run: "\<forall>a. c_hnd c = Running a \<longrightarrow> (\<exists>rs. srvs w a = Some rs \<and> Server_dispatch enc dec (c_req c) rs \<noteq> None)"
  shows "\<exists>w' c'. net_step enc dec w w' \<and> calls w' i = Some c' \<and> stage c' < stage c"
proof (cases "c_proc c")
  case Queued
  obtain p h where "processReq_start 0 (c_req c) (net w) = (p, h)" by fastforce
  from net_step.start [OF i Queued this, of enc dec] stage_start [OF Queued this] show ?thesis by fastforce
next
  case (Awaiting sn sv rel longr)
  show ?thesis
  proof (cases "c_hnd c")
    case (Finished reply)
    obtain rn p where "processReq_finish 0 0 (c_req c) sn sv rel longr reply (net w) = (rn, p)" by fastforce
    from net_step.finish [OF i Awaiting Finished this, of enc dec] stage_finish [OF Awaiting Finished this]
    show ?thesis by fastforce
  next
    case (Running a)
    then obtain rs rs' reply where a: "srvs w a = Some rs" "Server_dispatch enc dec (c_req c) rs = Some (rs', reply)"
      using run by fastforce
    have "stage (c\<lparr>c_hnd := Finished reply\<rparr>) < stage c" using Awaiting Running by (simp add: stage_def)
    with net_step.run [OF i Running a] show ?thesis by fastforce
  qed (use inv Awaiting in \<open>simp add: call_inv_def\<close>)
next
  case (Pending reply)
  then have "stage (c\<lparr>c_proc := Answered reply\<rparr>) < stage c" by (simp add: stage_def)
  with net_step.deliver [OF i Pending, of enc dec] show ?thesis by fastforce
qed (use assms(3) in \<open>simp add: stage_def\<close>)

section \<open>Dead servers\<close>

text \<open>Runs all of whose states have a property.\<close>

inductive net_while :: "(('s, 'v) world \<Rightarrow> bool) \<Rightarrow> ('v \<Rightarrow> bytes \<times> bool) \<Rightarrow> (bytes \<Rightarrow> 'v option) \<Rightarrow> ('s, 'v) world \<Rightarrow> ('s, 'v) world \<Rightarrow> bool"
  for P enc dec where
  stay: "P w \<Longrightarrow> net_while P enc dec w w"
| go: "net_while P enc dec w w1 \<Longrightarrow> net_step enc dec w1 w2 \<Longrightarrow> P w2 \<Longrightarrow> net_while P enc dec w w2"

definition abandoned :: "string \<Rightarrow> nat \<Rightarrow> call_st \<Rightarrow> bool" where
  "abandoned sn a c \<longleftrightarrow> (\<exists>rel longr. c_proc c = Awaiting sn a rel longr) \<or> c_proc c = Answered failed_reply"

lemma abandoned_step:
  assumes "net_step enc dec w w'" and "calls w i = Some c" and "abandoned sn a c" and "servers (net w) sn \<noteq> Some a"
  shows "\<exists>c'. calls w' i = Some c' \<and> abandoned sn a c'"
  using assms
  by (cases rule: net_step.cases) (auto simp: abandoned_def processReq_poll_def processReq_finish_def isServerDead_def)

lemma abandoned_while:
  assumes "net_while (\<lambda>w. servers (net w) sn \<noteq> Some a) enc dec w w'" and "calls w i = Some c" and "abandoned sn a c"
  shows "(\<exists>c'. calls w' i = Some c' \<and> abandoned sn a c') \<and> servers (net w') sn \<noteq> Some a"
  using assms by (induction rule: net_while.induct) (auto dest: abandoned_step)

section \<open>A run\<close>

text \<open>A server with one method that adds its argument to a counter, called once over a reliable network.\<close>

definition demo_enc :: "nat \<Rightarrow> bytes \<times> bool" where
  "demo_enc n = ([of_nat n], True)"

fun demo_dec :: "bytes \<Rightarrow> nat option" where
  "demo_dec [b] = Some (unat b)"
| "demo_dec _ = None"

definition demo_server :: "(nat, nat) Server" where
  "demo_server = AddService (MakeService ''Counter''
     [\<lparr>mname = ''Add'', m_PkgPath = [], m_NumIn = 3, m_In2_ptr = True, m_NumOut = 0, m_Func = (\<lambda>k n. Some (n + k, n + k))\<rparr>] 0) MakeServer"

definition demo_req :: reqMsg where
  "demo_req = \<lparr>rq_endname = ''e'', rq_svcMeth = ''Counter.Add'', rq_args = [2]\<rparr>"

fun run_admin :: "admin list \<Rightarrow> ('s, 'v) world \<Rightarrow> ('s, 'v) world option" where
  "run_admin [] w = Some w"
| "run_admin (a # as) w =
     (if admin_ok a (srvs w) then do { rn \<leftarrow> admin_apply a (net w); run_admin as (w\<lparr>net := rn\<rparr>) } else None)"

definition demo_up :: "(nat, nat) world" where
  "demo_up = the (run_admin [NewEnd ''e'', Register ''s'' 7, ConnectEnd ''e'' ''s'', EnableEnd ''e'' True]
     (empty_world\<lparr>srvs := [7 \<mapsto> demo_server]\<rparr>))"

definition demo_sent :: "(nat, nat) world" where
  "demo_sent = demo_up\<lparr>net := accept_req demo_req (net demo_up), calls := [1 \<mapsto> \<lparr>c_req = demo_req, c_proc = Queued, c_hnd = NotStarted\<rparr>]\<rparr>"

definition demo_started :: "(nat, nat) world" where
  "demo_started = demo_sent\<lparr>calls := [1 \<mapsto> \<lparr>c_req = demo_req, c_proc = Awaiting ''s'' 7 True False, c_hnd = Running 7\<rparr>]\<rparr>"

definition demo_run :: "(nat, nat) world" where
  "demo_run = demo_started\<lparr>srvs := (srvs demo_started)(7 \<mapsto> fst (the (Server_dispatch demo_enc demo_dec demo_req demo_server))),
     calls := [1 \<mapsto> \<lparr>c_req = demo_req, c_proc = Awaiting ''s'' 7 True False, c_hnd = Finished \<lparr>rp_ok = True, rp_reply = [2]\<rparr>\<rparr>],
     executed := [(1, \<lparr>rp_ok = True, rp_reply = [2]\<rparr>)]\<rparr>"

definition demo_done :: "(nat, nat) world" where
  "demo_done = demo_run\<lparr>net := count_reply \<lparr>rp_ok = True, rp_reply = [2]\<rparr> (net demo_run),
     calls := [1 \<mapsto> \<lparr>c_req = demo_req, c_proc = Answered \<lparr>rp_ok = True, rp_reply = [2]\<rparr>, c_hnd = Finished \<lparr>rp_ok = True, rp_reply = [2]\<rparr>\<rparr>]\<rparr>"

section \<open>Properties\<close>

text \<open>C38. What a call tells its caller. In every state the network can reach, a request has been executed at
  most once; not at all while it is queued; and if the call was answered with true then it was executed exactly
  once and the answer is what its handler replied.\<close>

theorem rpc_at_most_once:
  assumes "net_reach enc dec (empty_world :: ('s, 'v) world) w" and "calls w i = Some c"
  shows "length (filter (\<lambda>e. fst e = i) (executed w)) \<le> 1
    \<and> (c_proc c = Queued \<longrightarrow> filter (\<lambda>e. fst e = i) (executed w) = [])
    \<and> (\<forall>r. c_proc c = Answered r \<and> rp_ok r \<longrightarrow> filter (\<lambda>e. fst e = i) (executed w) = [(i, r)])"
proof -
  have inv: "net_inv w" using net_inv_reach [OF assms(1) net_inv_empty] .
  then have d: "distinct (map fst (executed w))" and c: "call_inv (executed w) i c" using assms(2) by (simp_all add: net_inv_def)
  have "filter (\<lambda>e. fst e = i) (executed w) = []" if "c_proc c = Queued"
    using c that by (intro filter_no_key) (auto simp: call_inv_def split: handler.splits)
  moreover have "filter (\<lambda>e. fst e = i) (executed w) = [(i, r)]" if "c_proc c = Answered r \<and> rp_ok r" for r
    using c that by (intro filter_distinct_key(2) [OF d]) (auto simp: call_inv_def split: handler.splits)
  ultimately show ?thesis using filter_distinct_key(1) [OF d] by blast
qed

text \<open>C39. A call returns unless its handler does not. No step of the network, of another call or of the tests
  puts a call further from its answer; and while it has no answer, some step brings it closer, provided that
  the handler, if it is running, can return.\<close>

theorem call_progress:
  assumes "net_reach enc dec (empty_world :: ('s, 'v) world) w" and "calls w i = Some c"
  shows "(\<forall>w'. net_step enc dec w w' \<longrightarrow> (\<exists>c'. calls w' i = Some c' \<and> stage c' \<le> stage c))
    \<and> (stage c = 0 \<longleftrightarrow> (\<exists>r. c_proc c = Answered r))
    \<and> (stage c \<noteq> 0 \<and> (\<forall>a rs. c_hnd c = Running a \<and> srvs w a = Some rs \<longrightarrow> Server_dispatch enc dec (c_req c) rs \<noteq> None) \<longrightarrow>
        (\<exists>w' c'. net_step enc dec w w' \<and> calls w' i = Some c' \<and> stage c' < stage c))"
proof -
  have inv: "net_inv w" using net_inv_reach [OF assms(1) net_inv_empty] .
  then have c: "call_inv (executed w) i c" and a: "c_hnd c = Running a \<Longrightarrow> srvs w a \<noteq> None" for a
    using assms(2) by (simp_all add: net_inv_def)
  have "stage c = 0 \<longleftrightarrow> (\<exists>r. c_proc c = Answered r)" by (auto simp: stage_def split: proc.splits handler.splits)
  moreover have "\<exists>w' c'. net_step enc dec w w' \<and> calls w' i = Some c' \<and> stage c' < stage c"
    if "stage c \<noteq> 0" "\<forall>a rs. c_hnd c = Running a \<and> srvs w a = Some rs \<longrightarrow> Server_dispatch enc dec (c_req c) rs \<noteq> None"
    using stage_enabled [OF c assms(2) that(1), of enc dec] that(2) a by blast
  ultimately show ?thesis using stage_antimono [OF _ assms(2)] by blast
qed

text \<open>A server that has been taken off the network acknowledges nothing. While its address is not
  registered under its name, a call that waits for it keeps waiting or is answered with false, even when its
  handler returns: a client sees no success of an operation that a dead server saved in its old persister.\<close>

lemma deleted_server_never_acks:
  assumes "net_while (\<lambda>w. servers (net w) sn \<noteq> Some a) enc dec (w :: ('s, 'v) world) w'"
    and "calls w i = Some c" and "c_proc c = Awaiting sn a rel longr"
  shows "\<exists>c'. calls w' i = Some c' \<and> ((\<exists>rel longr. c_proc c' = Awaiting sn a rel longr) \<or> c_proc c' = Answered failed_reply)"
  using abandoned_while [OF assms(1,2)] assms(3) unfolding abandoned_def by blast

section \<open>Witnesses\<close>

lemmas demo_defs = demo_up_def demo_sent_def demo_started_def demo_run_def demo_done_def demo_req_def
  empty_world_def net_op_defs MakeNetwork_def

lemma demo_dispatch:
  "Server_dispatch demo_enc demo_dec demo_req demo_server
    = Some (fst (the (Server_dispatch demo_enc demo_dec demo_req demo_server)), \<lparr>rp_ok = True, rp_reply = [2]\<rparr>)"
  by (simp add: Server_dispatch_def demo_req_def demo_server_def MakeService_def AddService_def MakeServer_def
      Service_dispatch_def Unmarshall_def go_to_def go_from_def go_len_def demo_enc_def Let_def)

lemma reach_admin: "net_reach enc dec w0 w \<Longrightarrow> run_admin as w = Some w' \<Longrightarrow> net_reach enc dec w0 w'"
  by (induction as arbitrary: w) (auto simp: bind_Some_iff split: if_splits intro: net_reach.more net_step.admin)

lemma demo_reach_up: "net_reach demo_enc demo_dec empty_world demo_up"
proof -
  have "net_reach demo_enc demo_dec empty_world (empty_world\<lparr>srvs := [7 \<mapsto> demo_server]\<rparr>)"
    using net_reach.more [OF net_reach.here net_step.new_server [of empty_world 7 demo_enc demo_dec demo_server]]
    by (simp add: empty_world_def)
  from reach_admin [OF this, of "[NewEnd ''e'', Register ''s'' 7, ConnectEnd ''e'' ''s'', EnableEnd ''e'' True]" demo_up]
  show ?thesis by (simp add: demo_defs Let_def)
qed

lemma demo_reach_sent: "net_reach demo_enc demo_dec empty_world demo_sent"
proof -
  have "calls demo_up = Map.empty" by (simp add: demo_defs Let_def)
  with net_reach.more [OF demo_reach_up net_step.send [of demo_up 1 demo_enc demo_dec demo_req]]
  show ?thesis by (simp add: demo_sent_def)
qed

lemma demo_reach_started: "net_reach demo_enc demo_dec empty_world demo_started"
proof -
  have c: "calls demo_sent 1 = Some \<lparr>c_req = demo_req, c_proc = Queued, c_hnd = NotStarted\<rparr>" by (simp add: demo_sent_def)
  have "processReq_start 0 demo_req (net demo_sent) = (Awaiting ''s'' 7 True False, Running 7)"
    by (simp add: demo_defs processReq_start_def readEndnameInfo_def is_enabled_def Let_def)
  with net_reach.more [OF demo_reach_sent net_step.start [OF c, of 0]] show ?thesis by (simp add: demo_started_def demo_sent_def)
qed

lemma demo_reach_run: "net_reach demo_enc demo_dec empty_world demo_run"
proof -
  have c: "calls demo_started 1 = Some \<lparr>c_req = demo_req, c_proc = Awaiting ''s'' 7 True False, c_hnd = Running 7\<rparr>"
    by (simp add: demo_started_def)
  have s: "srvs demo_started 7 = Some demo_server" "executed demo_started = []" by (simp_all add: demo_defs Let_def)
  have "net_step demo_enc demo_dec demo_started demo_run"
    using net_step.run [OF c _ s(1), of demo_enc demo_dec] demo_dispatch s(2) by (simp add: demo_run_def demo_started_def)
  then show ?thesis by (rule net_reach.more [OF demo_reach_started])
qed

lemma finish_step:
  assumes "calls w i = Some c" and "processReq_finish r1 r2 (c_req c) sn sv rel longr reply (net w) = (rn, p)"
    and "c_proc c = Awaiting sn sv rel longr" and "c_hnd c = Finished reply"
    and "w' = w\<lparr>net := rn, calls := (calls w)(i \<mapsto> c\<lparr>c_proc := p\<rparr>)\<rparr>"
  shows "net_step enc dec w w'"
  unfolding assms(5) using assms(1,3,4,2) by (rule net_step.finish)

lemma demo_reach_done: "net_reach demo_enc demo_dec empty_world demo_done"
proof -
  let ?c = "\<lparr>c_req = demo_req, c_proc = Awaiting ''s'' 7 True False, c_hnd = Finished \<lparr>rp_ok = True, rp_reply = [2]\<rparr>\<rparr>"
  have c: "calls demo_run 1 = Some ?c"
    by (simp add: demo_run_def)
  have "\<not> isServerDead ''e'' ''s'' 7 (net demo_run)" by (simp add: isServerDead_def is_enabled_def demo_defs Let_def)
  then have f: "processReq_finish 0 0 (c_req ?c) ''s'' 7 True False \<lparr>rp_ok = True, rp_reply = [2]\<rparr> (net demo_run)
      = (count_reply \<lparr>rp_ok = True, rp_reply = [2]\<rparr> (net demo_run), Answered \<lparr>rp_ok = True, rp_reply = [2]\<rparr>)"
    by (simp add: processReq_finish_def demo_req_def)
  have "net_step demo_enc demo_dec demo_run demo_done"
    by (rule finish_step [OF c f]) (simp_all add: demo_done_def demo_run_def)
  then show ?thesis by (rule net_reach.more [OF demo_reach_run])
qed

lemma demo_calls:
  "calls demo_started 1 = Some \<lparr>c_req = demo_req, c_proc = Awaiting ''s'' 7 True False, c_hnd = Running 7\<rparr>"
  "calls demo_run 1 = Some \<lparr>c_req = demo_req, c_proc = Awaiting ''s'' 7 True False, c_hnd = Finished \<lparr>rp_ok = True, rp_reply = [2]\<rparr>\<rparr>"
  "calls demo_done 1 = Some \<lparr>c_req = demo_req, c_proc = Answered \<lparr>rp_ok = True, rp_reply = [2]\<rparr>,
     c_hnd = Finished \<lparr>rp_ok = True, rp_reply = [2]\<rparr>\<rparr>"
  by (simp_all add: demo_started_def demo_run_def demo_done_def)

theorem rpc_at_most_once_witness:
  "net_reach demo_enc demo_dec empty_world demo_done \<and> filter (\<lambda>e. fst e = 1) (executed demo_done) = [(1, \<lparr>rp_ok = True, rp_reply = [2]\<rparr>)]"
  using rpc_at_most_once [OF demo_reach_done demo_calls(3)] demo_reach_done by simp

theorem call_progress_witness:
  "\<exists>w' c'. net_step demo_enc demo_dec demo_started w' \<and> calls w' 1 = Some c' \<and> stage c' < 3"
proof -
  have s: "srvs demo_started 7 = Some demo_server" by (simp add: demo_defs Let_def)
  have "stage \<lparr>c_req = demo_req, c_proc = Awaiting ''s'' 7 True False, c_hnd = Running 7\<rparr> = 3" by (simp add: stage_def)
  with call_progress [OF demo_reach_started demo_calls(1)] demo_dispatch s show ?thesis by fastforce
qed

end
