(* ===== verification/Kv_Rpc.thy ===== *)
theory Kv_Rpc
  imports Go_Prelude
begin

text \<open>
  The vocabulary of the key/value services (\<^verbatim>\<open>kvsrv1/rpc/rpc.go\<close>) and the contract they share: a map from
  keys to values with 64-bit versions and a conditional put. The locale \<open>versioned_store\<close> states the
  contract; the plain server, the replicated server and the shard group are its interpretations. Its
  lemmas are what clients rely on: versions count the successful puts, and a put takes effect at most
  once however often the network repeats it.
\<close>

text \<open>\<^verbatim>\<open>type Err string\<close>: the declared constants, that of \<^verbatim>\<open>shardgrp/client.go\<close>, and the empty string of a reply
  nobody has filled in.\<close>

datatype Err = NoErr | OK | ErrNoKey | ErrVersion | ErrMaybe | ErrWrongLeader | ErrWrongGroup | ErrorNoResponse

type_synonym Tversion = "64 word"

record PutArgs =
  p_Key :: string
  p_Value :: string
  p_Version :: Tversion

record GetArgs =
  g_Key :: string

record GetReply =
  gr_Value :: string
  gr_Version :: Tversion
  gr_Err :: Err

type_synonym kv_view = "string \<rightharpoonup> string \<times> Tversion"

text \<open>A sequence of put requests executed in order, with their replies.\<close>

fun run_puts :: "(PutArgs \<Rightarrow> 's \<Rightarrow> 's \<times> Err) \<Rightarrow> PutArgs list \<Rightarrow> 's \<Rightarrow> 's \<times> Err list" where
  "run_puts f [] s = (s, [])"
| "run_puts f (a # as) s =
     (let (s1, e) = f a s; (s2, es) = run_puts f as s1 in (s2, e # es))"

fun oks :: "string \<Rightarrow> PutArgs list \<Rightarrow> Err list \<Rightarrow> nat" where
  "oks k (a # as) (e # es) = (if p_Key a = k \<and> e = OK then 1 else 0) + oks k as es"
| "oks k _ _ = 0"

text \<open>The version of a key as a number, 0 for an absent key.\<close>

definition vnum :: "(string \<times> Tversion) option \<Rightarrow> nat" where
  "vnum x = (case x of None \<Rightarrow> 0 | Some (v, ver) \<Rightarrow> unat ver)"

lemma run_puts_Cons [simp]:
  "fst (run_puts f (a # as) s) = fst (run_puts f as (fst (f a s)))"
  "snd (run_puts f (a # as) s) = snd (f a s) # snd (run_puts f as (fst (f a s)))"
  by (simp_all add: case_prod_unfold Let_def)

lemma run_puts_length [simp]: "length (snd (run_puts f as s)) = length as"
  by (induction as arbitrary: s) (simp_all del: run_puts.simps(2))

lemma unat_bump: "unat (v :: Tversion) + 1 < 2 ^ 64 \<Longrightarrow> unat (v + 1) = unat v + 1"
  by (simp add: unat_word_ariths)

lemma run_puts_append:
  "run_puts f (as @ bs) s =
     (let (s1, es) = run_puts f as s; (s2, fs) = run_puts f bs s1 in (s2, es @ fs))"
  by (induction as arbitrary: s) (auto simp: Let_def split: prod.splits)

lemma oks_le: "oks k as es \<le> length as"
  by (induction k as es rule: oks.induct) auto

lemma oks_append: "length as = length es \<Longrightarrow> oks k (as @ bs) (es @ fs) = oks k as es + oks k bs fs"
  by (induction as es rule: list_induct2) auto

section \<open>The contract\<close>

locale versioned_store =
  fixes view :: "'s \<Rightarrow> kv_view"
    and serves :: "'s \<Rightarrow> string \<Rightarrow> bool"
    and put :: "PutArgs \<Rightarrow> 's \<Rightarrow> 's \<times> Err"
  assumes put_new: "serves s (p_Key a) \<Longrightarrow> view s (p_Key a) = None \<Longrightarrow> p_Version a = 0 \<Longrightarrow>
      snd (put a s) = OK \<and> view (fst (put a s)) = (view s)(p_Key a \<mapsto> (p_Value a, 1))"
    and put_missing: "serves s (p_Key a) \<Longrightarrow> view s (p_Key a) = None \<Longrightarrow> p_Version a \<noteq> 0 \<Longrightarrow>
      snd (put a s) = ErrNoKey \<and> view (fst (put a s)) = view s"
    and put_match: "serves s (p_Key a) \<Longrightarrow> view s (p_Key a) = Some (v, p_Version a) \<Longrightarrow>
      snd (put a s) = OK
      \<and> view (fst (put a s)) = (view s)(p_Key a \<mapsto> (p_Value a, p_Version a + 1))"
    and put_stale: "serves s (p_Key a) \<Longrightarrow> view s (p_Key a) = Some (v, ver) \<Longrightarrow> ver \<noteq> p_Version a \<Longrightarrow>
      snd (put a s) = ErrVersion \<and> view (fst (put a s)) = view s"
    and put_refused: "\<not> serves s (p_Key a) \<Longrightarrow>
      snd (put a s) \<notin> {OK, ErrVersion} \<and> view (fst (put a s)) = view s"
begin

text \<open>One put, in one statement: it succeeds exactly at the current version, and then bumps it.\<close>

lemma put_OK_iff:
  "snd (put a s) = OK \<longleftrightarrow> serves s (p_Key a) \<and> vnum (view s (p_Key a)) = unat (p_Version a)"
proof (cases "serves s (p_Key a)")
  case True
  show ?thesis
  proof (cases "view s (p_Key a)")
    case None
    then show ?thesis
      using put_new [OF True None] put_missing [OF True None] True
      by (cases "p_Version a = 0") (simp_all add: vnum_def unat_eq_0)
  next
    case (Some x)
    then show ?thesis
      using put_match [OF True] put_stale [OF True] True
      by (cases x; cases "snd x = p_Version a") (auto simp: vnum_def word_unat_eq_iff)
  qed
next
  case False
  then show ?thesis using put_refused by simp
qed

lemma put_cases:
  "view (fst (put a s)) = (if snd (put a s) = OK
     then (view s)(p_Key a \<mapsto> (p_Value a, p_Version a + 1)) else view s)"
proof (cases "serves s (p_Key a)")
  case True
  show ?thesis
  proof (cases "view s (p_Key a)")
    case None
    then show ?thesis
      using put_new [OF True None] put_missing [OF True None] by (cases "p_Version a = 0") simp_all
  next
    case (Some x)
    then show ?thesis
      using put_match [OF True] put_stale [OF True] by (cases x; cases "snd x = p_Version a") auto
  qed
next
  case False
  then show ?thesis using put_refused by simp
qed

text \<open>A key's version is the number of successful puts on it, as long as that fits in 64 bits.\<close>

lemma put_counts:
  assumes "vnum (view s k) + 1 < 2 ^ 64"
  shows "vnum (view (fst (put a s)) k) = vnum (view s k) + (if p_Key a = k \<and> snd (put a s) = OK then 1 else 0)"
proof -
  note b = unat_bump [of "p_Version a"]
  show ?thesis
    using b put_cases [of a s] put_OK_iff [of a s] assms by (auto simp: vnum_def)
qed

lemma puts_count:
  assumes "vnum (view s k) + length as < 2 ^ 64"
  shows "vnum (view (fst (run_puts put as s)) k) = vnum (view s k) + oks k as (snd (run_puts put as s))"
  using assms
proof (induction as arbitrary: s)
  case (Cons a as)
  have "vnum (view (fst (put a s)) k) = vnum (view s k) + (if p_Key a = k \<and> snd (put a s) = OK then 1 else 0)"
    using Cons.prems by (intro put_counts) simp
  moreover from this have "vnum (view (fst (put a s)) k) + length as < 2 ^ 64"
    using Cons.prems by auto
  note Cons.IH [OF this]
  ultimately show ?case by (simp del: run_puts.simps(2))
qed simp

text \<open>Repeating a request cannot make it succeed twice.\<close>

lemma puts_at_most_once:
  assumes "vnum (view s (p_Key a)) + length (as @ a # bs @ [b]) < 2 ^ 64"
    and "p_Key b = p_Key a" and "p_Version b = p_Version a"
    and "run_puts put (as @ a # bs) s = (s', es)" and "es ! length as = OK"
  shows "snd (put b s') \<noteq> OK"
proof -
  let ?k = "p_Key a"
  obtain s1 es1 where 1: "run_puts put as s = (s1, es1)" by fastforce
  obtain s2 e where 2: "put a s1 = (s2, e)" by fastforce
  obtain s3 es3 where 3: "run_puts put bs s2 = (s3, es3)" by fastforce
  have l: "length es1 = length as" using run_puts_length [of put as s] 1 by simp
  have s': "s' = s3" "es = es1 @ e # es3"
    using assms(4) 1 2 3 by (auto simp: run_puts_append Let_def)
  then have e: "e = OK" using assms(5) l by (simp add: nth_append)
  have v1: "vnum (view s1 ?k) \<le> vnum (view s ?k) + length as"
    using puts_count [of s ?k as] assms(1) 1 oks_le [of ?k as es1] by simp
  have at: "vnum (view s1 ?k) = unat (p_Version a)"
    using put_OK_iff [of a s1] 2 e by simp
  have v2: "vnum (view s2 ?k) = Suc (unat (p_Version a))"
    using put_counts [of s1 ?k a] assms(1) v1 2 e at by simp
  have "vnum (view s3 ?k) \<ge> Suc (unat (p_Version a))"
    using puts_count [of s2 ?k bs] assms(1) v1 v2 3 at by simp
  then show ?thesis
    using put_OK_iff [of b s'] assms(2,3) s' by simp
qed

end

end
