(* ===== verification/Kv_Server.thy ===== *)
theory Kv_Server
  imports Kv_Rpc "HOL-Library.List_Lexorder" "HOL-Library.Char_ord"
begin

text \<open>
  The single key/value server and its clerk (\<^verbatim>\<open>kvsrv1/server.go\<close>, \<^verbatim>\<open>kvsrv1/client.go\<close>), and the sequential
  specification the tests check histories against (\<^verbatim>\<open>models1/kv.go\<close>). The server is an interpretation
  of \<open>versioned_store\<close>; the clerk's retry loop runs against a network that may lose requests and replies
  while other clients' puts go on; the specification is compared with the server reply by reply.
\<close>

section \<open>Definitions\<close>

subsection \<open>The server\<close>

record Data =
  d_version :: Tversion
  d_value :: string

record KVServer =
  keyValue :: "string \<rightharpoonup> Data"

definition MakeKVServer :: KVServer where
  "MakeKVServer = \<lparr>keyValue = Map.empty\<rparr>"

definition Get :: "GetArgs \<Rightarrow> KVServer \<Rightarrow> GetReply" where
  "Get args kv =
     (case keyValue kv (g_Key args) of
        None \<Rightarrow> \<lparr>gr_Value = '''', gr_Version = 0, gr_Err = ErrNoKey\<rparr>
      | Some data \<Rightarrow> \<lparr>gr_Value = d_value data, gr_Version = d_version data, gr_Err = OK\<rparr>)"

definition Put :: "PutArgs \<Rightarrow> KVServer \<Rightarrow> KVServer \<times> Err" where
  "Put args kv =
     (let stored = kv\<lparr>keyValue := (keyValue kv)(p_Key args \<mapsto>
            \<lparr>d_version = p_Version args + 1, d_value = p_Value args\<rparr>)\<rparr>
      in case keyValue kv (p_Key args) of
           None \<Rightarrow> if p_Version args \<noteq> 0 then (kv, ErrNoKey) else (stored, OK)
         | Some data \<Rightarrow> if p_Version args \<noteq> d_version data then (kv, ErrVersion) else (stored, OK))"

definition kv_view :: "KVServer \<Rightarrow> kv_view" where
  "kv_view kv = (\<lambda>k. map_option (\<lambda>d. (d_value d, d_version d)) (keyValue kv k))"

subsection \<open>The clerk\<close>

text \<open>
  One \<^verbatim>\<open>Call\<close> of the clerk: the request is lost, the server executes it and the reply is lost, or the
  reply arrives. Before each call the server may have executed puts of other clients. A schedule
  that ends without an answer leaves the clerk in its loop.
\<close>

datatype attempt = RequestLost | ReplyLost | Answered

type_synonym schedule = "(PutArgs list \<times> attempt) list"

fun Clerk_Get :: "schedule \<Rightarrow> string \<Rightarrow> KVServer \<Rightarrow> (KVServer \<times> string \<times> Tversion \<times> Err) option" where
  "Clerk_Get [] key kv = None"
| "Clerk_Get ((others, x) # rest) key kv =
     (let kv1 = fst (run_puts Put others kv)
      in case x of
           Answered \<Rightarrow>
             let reply = Get \<lparr>g_Key = key\<rparr> kv1 in Some (kv1, gr_Value reply, gr_Version reply, gr_Err reply)
         | _ \<Rightarrow> Clerk_Get rest key kv1)"

fun Clerk_Put_loop :: "schedule \<Rightarrow> PutArgs \<Rightarrow> bool \<Rightarrow> KVServer \<Rightarrow> (KVServer \<times> Err) option" where
  "Clerk_Put_loop [] args isFirstTry kv = None"
| "Clerk_Put_loop ((others, x) # rest) args isFirstTry kv =
     (let kv1 = fst (run_puts Put others kv)
      in case x of
           RequestLost \<Rightarrow> Clerk_Put_loop rest args False kv1
         | ReplyLost \<Rightarrow> Clerk_Put_loop rest args False (fst (Put args kv1))
         | Answered \<Rightarrow>
             let (kv2, e) = Put args kv1
             in Some (kv2, if \<not> isFirstTry \<and> e = ErrVersion then ErrMaybe else e))"

definition Clerk_Put ::
  "schedule \<Rightarrow> string \<Rightarrow> string \<Rightarrow> Tversion \<Rightarrow> KVServer \<Rightarrow> (KVServer \<times> Err) option" where
  "Clerk_Put sched key val version kv =
     Clerk_Put_loop sched \<lparr>p_Key = key, p_Value = val, p_Version = version\<rparr> True kv"

text \<open>The server's replies to the clerk's own requests, delivered or not, up to the answer.\<close>

fun own_replies :: "schedule \<Rightarrow> PutArgs \<Rightarrow> KVServer \<Rightarrow> Err list" where
  "own_replies [] args kv = []"
| "own_replies ((others, x) # rest) args kv =
     (let kv1 = fst (run_puts Put others kv); r = Put args kv1
      in case x of
           RequestLost \<Rightarrow> own_replies rest args kv1
         | ReplyLost \<Rightarrow> snd r # own_replies rest args (fst r)
         | Answered \<Rightarrow> [snd r])"

fun sched_size :: "schedule \<Rightarrow> nat" where
  "sched_size [] = 0"
| "sched_size ((others, x) # rest) = length others + 1 + sched_size rest"

subsection \<open>The sequential specification\<close>

record KvInput =
  ki_Op :: nat
  ki_Key :: string
  ki_Value :: string
  ki_Version :: Tversion

record KvOutput =
  ko_Value :: string
  ko_Version :: Tversion
  ko_Err :: Err

record KvState =
  ks_Value :: string
  ks_Version :: Tversion

type_synonym operation = "KvInput \<times> KvOutput"

definition KvModel_Init :: KvState where
  "KvModel_Init = \<lparr>ks_Value = '''', ks_Version = 0\<rparr>"

text \<open>\<^verbatim>\<open>"<invalid>"\<close>, the state after an unknown operation, is \<open>None\<close>.\<close>

definition KvModel_Step :: "KvState \<Rightarrow> KvInput \<Rightarrow> KvOutput \<Rightarrow> bool \<times> KvState option" where
  "KvModel_Step st inp out =
     (if ki_Op inp = 0 then (ko_Value out = ks_Value st, Some st)
      else if ki_Op inp = 1 then
        if ks_Version st = ki_Version inp
        then (ko_Err out = OK \<or> ko_Err out = ErrMaybe,
              Some \<lparr>ks_Value = ki_Value inp, ks_Version = ks_Version st + 1\<rparr>)
        else (ko_Err out = ErrVersion \<or> ko_Err out = ErrMaybe, Some st)
      else (False, None))"

text \<open>\<^verbatim>\<open>Partition\<close> collects the operations per key and returns the groups in the order of the sorted keys.\<close>

fun Partition_loop ::
  "operation list \<Rightarrow> (string \<rightharpoonup> operation list) \<Rightarrow> string list \<Rightarrow> (string \<rightharpoonup> operation list) \<times> string list" where
  "Partition_loop [] m ks = (m, ks)"
| "Partition_loop (v # vs) m ks =
     (let key = ki_Key (fst v)
      in case m key of
           None \<Rightarrow> Partition_loop vs (m(key \<mapsto> [v])) (ks @ [key])
         | Some g \<Rightarrow> Partition_loop vs (m(key \<mapsto> g @ [v])) ks)"

definition Partition :: "operation list \<Rightarrow> operation list list" where
  "Partition history =
     (let (m, ks) = Partition_loop history Map.empty []
      in map (\<lambda>k. the (m k)) (sort ks))"

text \<open>The state of the specification for one key of the server, and what the server answers.\<close>

definition kv_state :: "string \<Rightarrow> KVServer \<Rightarrow> KvState" where
  "kv_state key kv =
     (case keyValue kv key of
        None \<Rightarrow> KvModel_Init
      | Some d \<Rightarrow> \<lparr>ks_Value = d_value d, ks_Version = d_version d\<rparr>)"

definition serve :: "KvInput \<Rightarrow> KVServer \<Rightarrow> KVServer \<times> KvOutput" where
  "serve inp kv =
     (if ki_Op inp = 0
      then let r = Get \<lparr>g_Key = ki_Key inp\<rparr> kv
           in (kv, \<lparr>ko_Value = gr_Value r, ko_Version = gr_Version r, ko_Err = gr_Err r\<rparr>)
      else let (kv', e) = Put \<lparr>p_Key = ki_Key inp, p_Value = ki_Value inp, p_Version = ki_Version inp\<rparr> kv
           in (kv', \<lparr>ko_Value = '''', ko_Version = 0, ko_Err = e\<rparr>))"

section \<open>The server implements the contract\<close>

interpretation kvsrv: versioned_store kv_view "\<lambda>_ _. True" Put
  by unfold_locales (auto simp: kv_view_def Put_def Let_def fun_eq_iff split: option.splits)

lemma Get_view:
  "Get args kv = (case kv_view kv (g_Key args) of
      None \<Rightarrow> \<lparr>gr_Value = '''', gr_Version = 0, gr_Err = ErrNoKey\<rparr>
    | Some (v, ver) \<Rightarrow> \<lparr>gr_Value = v, gr_Version = ver, gr_Err = OK\<rparr>)"
  by (simp add: Get_def kv_view_def split: option.splits)

lemma Put_replies: "snd (Put a kv) \<in> {OK, ErrNoKey, ErrVersion}"
  by (auto simp: Put_def Let_def split: option.splits)

lemma Put_ErrNoKey: "snd (Put a kv) = ErrNoKey \<Longrightarrow> vnum (kv_view kv (p_Key a)) = 0"
  by (auto simp: Put_def Let_def kv_view_def vnum_def split: option.splits if_splits)

section \<open>Putting through an unreliable network\<close>

text \<open>Once the version has passed the one the clerk asks for, no further copy of the request succeeds.\<close>

lemma late_copies:
  assumes "vnum (kv_view kv (p_Key a)) > unat (p_Version a)"
    and "vnum (kv_view kv (p_Key a)) + sched_size sched < 2 ^ 64"
  shows "OK \<notin> set (own_replies sched a kv) \<and> ErrNoKey \<notin> set (own_replies sched a kv)"
  using assms
proof (induction sched arbitrary: kv)
  case (Cons x rest)
  obtain others y where x: "x = (others, y)" by fastforce
  let ?kv1 = "fst (run_puts Put others kv)"
  have n1: "vnum (kv_view ?kv1 (p_Key a)) = vnum (kv_view kv (p_Key a))
      + oks (p_Key a) others (snd (run_puts Put others kv))"
    using Cons.prems(2) x by (intro kvsrv.puts_count) simp
  have l: "oks (p_Key a) others (snd (run_puts Put others kv)) \<le> length others" by (rule oks_le)
  have not: "snd (Put a ?kv1) \<noteq> OK" "snd (Put a ?kv1) \<noteq> ErrNoKey"
    using kvsrv.put_OK_iff [of a ?kv1] Put_ErrNoKey [of a ?kv1] n1 Cons.prems(1) by auto
  then have same: "kv_view (fst (Put a ?kv1)) = kv_view ?kv1"
    using kvsrv.put_cases [of a ?kv1] by simp
  show ?case
    using Cons.IH [of ?kv1] Cons.IH [of "fst (Put a ?kv1)"] Cons.prems n1 l not same x
    by (cases y) (auto simp: Let_def)
qed simp

lemma own_replies_kinds: "set (own_replies sched a kv) \<subseteq> {OK, ErrNoKey, ErrVersion}"
proof (induction sched arbitrary: kv)
  case (Cons x rest)
  obtain others y where "x = (others, y)" by fastforce
  then show ?case
    using Cons.IH Put_replies [of a "fst (run_puts Put others kv)"] by (cases y) (auto simp: Let_def)
qed simp

lemma retry_answer:
  assumes "Clerk_Put_loop sched a False kv = Some (kv', err)"
  shows "own_replies sched a kv \<noteq> []
    \<and> err = (let e = last (own_replies sched a kv) in if e = ErrVersion then ErrMaybe else e)"
  using assms
proof (induction sched arbitrary: kv)
  case (Cons x rest)
  obtain others y where "x = (others, y)" by fastforce
  then show ?case
    using Cons by (cases y) (auto simp: Let_def split: prod.splits)
qed simp

lemma clerk_outcome:
  assumes "Clerk_Put_loop sched a first kv = Some (kv', err)"
    and "vnum (kv_view kv (p_Key a)) + sched_size sched < 2 ^ 64"
  shows "length (filter (\<lambda>e. e = OK) (own_replies sched a kv)) \<le> 1
    \<and> err \<in> {OK, ErrNoKey, ErrVersion, ErrMaybe}
    \<and> (err = OK \<longrightarrow> OK \<in> set (own_replies sched a kv))
    \<and> (err \<in> {ErrNoKey, ErrVersion} \<longrightarrow> OK \<notin> set (own_replies sched a kv))"
  using assms
proof (induction sched arbitrary: kv first)
  case (Cons x rest)
  obtain others y where x: "x = (others, y)" by fastforce
  let ?kv1 = "fst (run_puts Put others kv)"
  have n1: "vnum (kv_view ?kv1 (p_Key a)) \<le> vnum (kv_view kv (p_Key a)) + length others"
    using kvsrv.puts_count [of kv "p_Key a" others] Cons.prems(2) x oks_le by simp
  show ?case
  proof (cases y)
    case Answered
    have "e \<in> {OK, ErrNoKey, ErrVersion}" if "Put a ?kv1 = (s, e)" for s e
      using Put_replies [of a ?kv1] that by simp
    then show ?thesis
      using Cons.prems(1) x Answered by (auto simp: Let_def split: prod.splits if_splits)
  next
    case RequestLost
    then show ?thesis using Cons.IH [of False ?kv1] Cons.prems n1 x by (simp add: Let_def)
  next
    case ReplyLost
    let ?kv2 = "fst (Put a ?kv1)"
    have bound: "vnum (kv_view ?kv1 (p_Key a)) + 1 < 2 ^ 64"
      using n1 Cons.prems(2) x by simp
    note c = kvsrv.put_counts [OF bound, of a]
    have rest: "Clerk_Put_loop rest a False ?kv2 = Some (kv', err)"
      using Cons.prems(1) x ReplyLost by (simp add: Let_def)
    show ?thesis
    proof (cases "snd (Put a ?kv1) = OK")
      case True
      then have gt: "vnum (kv_view ?kv2 (p_Key a)) > unat (p_Version a)"
        using c kvsrv.put_OK_iff [of a ?kv1] by simp
      have sz: "vnum (kv_view ?kv2 (p_Key a)) + sched_size rest < 2 ^ 64"
        using c True n1 Cons.prems(2) x by simp
      have late: "OK \<notin> set (own_replies rest a ?kv2)" "ErrNoKey \<notin> set (own_replies rest a ?kv2)"
        using late_copies [OF gt sz] by simp_all
      have "last (own_replies rest a ?kv2) = ErrVersion"
      proof -
        have "last (own_replies rest a ?kv2) \<in> set (own_replies rest a ?kv2)"
          using retry_answer [OF rest] by (intro last_in_set) simp
        then have "last (own_replies rest a ?kv2) \<in> {OK, ErrNoKey, ErrVersion} - {OK, ErrNoKey}"
          using late own_replies_kinds [of rest a ?kv2] by auto
        then show ?thesis by auto
      qed
      then have "err = ErrMaybe" using retry_answer [OF rest] by (simp add: Let_def)
      then show ?thesis using late x ReplyLost True by (auto simp: Let_def filter_empty_conv)
    next
      case False
      then have "vnum (kv_view ?kv2 (p_Key a)) + sched_size rest < 2 ^ 64"
        using c n1 Cons.prems(2) x by simp
      then show ?thesis
        using Cons.IH [OF rest] False x ReplyLost by (simp add: Let_def)
    qed
  qed
qed simp

lemma clerk_answers:
  "(\<exists>others. (others, Answered) \<in> set sched) \<Longrightarrow> \<exists>r. Clerk_Put_loop sched a first kv = Some r"
proof (induction sched arbitrary: kv first)
  case (Cons x rest)
  obtain others y where "x = (others, y)" by fastforce
  then show ?case using Cons by (cases y) (auto simp: Let_def split: prod.splits)
qed simp

section \<open>Partitioning a history\<close>

lemma Partition_loop_inv:
  assumes "Partition_loop vs m ks = (m', ks')" and "dom m = set ks" and "distinct ks"
  shows "dom m' = set ks' \<and> distinct ks' \<and> set ks' = set ks \<union> (\<lambda>v. ki_Key (fst v)) ` set vs
    \<and> (\<forall>k \<in> set ks'. the (m' k) = (case m k of None \<Rightarrow> [] | Some g \<Rightarrow> g) @ filter (\<lambda>v. ki_Key (fst v) = k) vs)"
  using assms
proof (induction vs arbitrary: m ks)
  case Nil
  then have "m' k \<noteq> None" if "k \<in> set ks'" for k using that by auto
  then show ?case using Nil by (auto split: option.splits)
next
  case (Cons v vs)
  let ?k = "ki_Key (fst v)"
  show ?case
  proof (cases "m ?k")
    case None
    then have l: "Partition_loop vs (m(?k \<mapsto> [v])) (ks @ [?k]) = (m', ks')"
      using Cons.prems(1) by (simp add: Let_def)
    have n: "?k \<notin> set ks" using None Cons.prems(2) by auto
    then have "dom (m(?k \<mapsto> [v])) = set (ks @ [?k])" "distinct (ks @ [?k])"
      using Cons.prems(2,3) by auto
    from Cons.IH [OF l this] show ?thesis using None by auto
  next
    case (Some g)
    then have l: "Partition_loop vs (m(?k \<mapsto> g @ [v])) ks = (m', ks')"
      using Cons.prems(1) by (simp add: Let_def)
    have i: "?k \<in> set ks" using Some Cons.prems(2) by auto
    then have "dom (m(?k \<mapsto> g @ [v])) = set ks" using Cons.prems(2) by auto
    from Cons.IH [OF l this Cons.prems(3)] show ?thesis using Some i by auto
  qed
qed

section \<open>Properties\<close>

text \<open>C20. After any sequence of fewer than \<open>2^64\<close> puts on a new server, a key's version is exactly the number
  of puts on it that returned OK, and \<^verbatim>\<open>Get\<close> reports it; a key without a successful put is absent.\<close>

theorem kv_version_counts_puts:
  assumes "length as < 2 ^ 64"
  defines "r \<equiv> run_puts Put as MakeKVServer"
  shows "unat (gr_Version (Get \<lparr>g_Key = key\<rparr> (fst r))) = oks key as (snd r)"
proof -
  have "vnum (kv_view (fst r) key) = oks key as (snd r)"
    using kvsrv.puts_count [of MakeKVServer key as] assms by (simp add: MakeKVServer_def kv_view_def vnum_def)
  then show ?thesis by (simp add: Get_view vnum_def split: option.splits prod.splits)
qed

definition demo_put :: "string \<Rightarrow> Tversion \<Rightarrow> PutArgs" where
  "demo_put v n = \<lparr>p_Key = ''x'', p_Value = v, p_Version = n\<rparr>"

theorem kv_version_counts_puts_witness:
  "length [demo_put ''a'' 0, demo_put ''b'' 0, demo_put ''c'' 1] < (2 :: nat) ^ 64
    \<and> unat (gr_Version (Get \<lparr>g_Key = ''x''\<rparr>
         (fst (run_puts Put [demo_put ''a'' 0, demo_put ''b'' 0, demo_put ''c'' 1] MakeKVServer)))) = 2"
proof -
  let ?as = "[demo_put ''a'' 0, demo_put ''b'' 0, demo_put ''c'' 1]"
  have "length ?as < (2 :: nat) ^ 64" by simp
  moreover have "oks ''x'' ?as (snd (run_puts Put ?as MakeKVServer)) = 2" by code_simp
  ultimately show ?thesis using kv_version_counts_puts [of ?as "''x''"] by simp
qed

text \<open>C9. \<^verbatim>\<open>Clerk.Put\<close> over a network that loses requests and replies, among puts of other clients: the put
  takes effect at most once; \<^verbatim>\<open>OK\<close> means exactly once; \<^verbatim>\<open>ErrVersion\<close> and \<^verbatim>\<open>ErrNoKey\<close> mean it never did; the only
  other result is \<^verbatim>\<open>ErrMaybe\<close>; and the clerk does return once one reply gets through.\<close>

theorem clerk_put_at_most_once:
  fixes kv :: KVServer and key val :: string and version :: Tversion
  assumes "vnum (kv_view kv key) + sched_size sched < 2 ^ 64" and "(others, Answered) \<in> set sched"
  defines "own \<equiv> own_replies sched \<lparr>p_Key = key, p_Value = val, p_Version = version\<rparr> kv"
  shows "\<exists>kv' err. Clerk_Put sched key val version kv = Some (kv', err)
    \<and> err \<in> {OK, ErrNoKey, ErrVersion, ErrMaybe}
    \<and> length (filter (\<lambda>e. e = OK) own) \<le> 1
    \<and> (err = OK \<longrightarrow> length (filter (\<lambda>e. e = OK) own) = 1)
    \<and> (err = ErrNoKey \<or> err = ErrVersion \<longrightarrow> length (filter (\<lambda>e. e = OK) own) = 0)"
proof -
  let ?a = "\<lparr>p_Key = key, p_Value = val, p_Version = version\<rparr>"
  obtain kv' err where r: "Clerk_Put_loop sched ?a True kv = Some (kv', err)"
    using clerk_answers [of sched ?a True kv] assms(2) by (metis surj_pair)
  let ?n = "length (filter (\<lambda>e. e = OK) own)"
  have O: "?n \<le> 1" "err \<in> {OK, ErrNoKey, ErrVersion, ErrMaybe}" "err = OK \<longrightarrow> OK \<in> set own"
    "err \<in> {ErrNoKey, ErrVersion} \<longrightarrow> OK \<notin> set own"
    using clerk_outcome [OF r] assms(1) by (simp_all add: own_def)
  have "?n = 0 \<longleftrightarrow> OK \<notin> set own" by (auto simp: filter_empty_conv)
  then have "OK \<in> set own \<longrightarrow> ?n = 1" "OK \<notin> set own \<longrightarrow> ?n = 0" using O(1) by linarith+
  then have "err = OK \<longrightarrow> ?n = 1" "err = ErrNoKey \<or> err = ErrVersion \<longrightarrow> ?n = 0" using O(3,4) by blast+
  then show ?thesis
    using O(1,2) r by (intro exI [of _ kv'] exI [of _ err]) (simp add: Clerk_Put_def)
qed

theorem clerk_put_at_most_once_witness:
  "\<exists>kv'. Clerk_Put [([], ReplyLost), ([], Answered)] ''x'' ''a'' 0 MakeKVServer = Some (kv', ErrMaybe)
    \<and> length (filter (\<lambda>e. e = OK) (own_replies [([], ReplyLost), ([], Answered)]
          \<lparr>p_Key = ''x'', p_Value = ''a'', p_Version = 0\<rparr> MakeKVServer)) \<le> 1"
proof -
  let ?s = "[([], ReplyLost), ([], Answered)] :: schedule"
  have h: "vnum (kv_view MakeKVServer ''x'') + sched_size ?s < 2 ^ 64" "([], Answered) \<in> set ?s"
    by (simp_all add: MakeKVServer_def kv_view_def vnum_def)
  have "map_option snd (Clerk_Put ?s ''x'' ''a'' 0 MakeKVServer) = Some ErrMaybe" by code_simp
  then show ?thesis using clerk_put_at_most_once [OF h, of "''a''" 0] by auto
qed

text \<open>C21. The server implements the sequential specification the histories are checked against: on every
  get and put the specification's state follows the server's, and the specification accepts the
  server's reply except for \<^verbatim>\<open>ErrNoKey\<close>, which the server returns and the specification has no case for.\<close>

theorem server_implements_model:
  fixes kv :: KVServer
  assumes "ki_Op inp \<in> {0, 1}"
  defines "r \<equiv> serve inp kv"
  shows "KvModel_Step (kv_state (ki_Key inp) kv) inp (snd r)
    = (ki_Op inp = 0 \<or> ko_Err (snd r) \<noteq> ErrNoKey, Some (kv_state (ki_Key inp) (fst r)))
    \<and> (\<forall>k. k \<noteq> ki_Key inp \<longrightarrow> kv_state k (fst r) = kv_state k kv)"
  using assms
  by (auto simp: serve_def KvModel_Step_def kv_state_def KvModel_Init_def Get_def Put_def Let_def
      split: option.splits)

theorem server_implements_model_witness:
  "KvModel_Step (kv_state ''x'' MakeKVServer) \<lparr>ki_Op = 1, ki_Key = ''x'', ki_Value = ''a'', ki_Version = 3\<rparr>
     (snd (serve \<lparr>ki_Op = 1, ki_Key = ''x'', ki_Value = ''a'', ki_Version = 3\<rparr> MakeKVServer))
   = (False, Some KvModel_Init)"
proof -
  let ?i = "\<lparr>ki_Op = 1, ki_Key = ''x'', ki_Value = ''a'', ki_Version = 3\<rparr>"
  have "ki_Op ?i \<in> {0, 1}" by simp
  moreover have "ko_Err (snd (serve ?i MakeKVServer)) = ErrNoKey"
    "kv_state ''x'' (fst (serve ?i MakeKVServer)) = KvModel_Init" by code_simp+
  ultimately show ?thesis using server_implements_model [of ?i MakeKVServer] by simp
qed

text \<open>\<^verbatim>\<open>Partition\<close> splits a history into one group per key, in the order of the sorted keys, each group
  holding exactly the operations on its key in the order of the history.\<close>

lemma partition_by_key:
  "\<exists>ks. sorted ks \<and> distinct ks \<and> set ks = (\<lambda>v. ki_Key (fst v)) ` set history
     \<and> Partition history = map (\<lambda>k. filter (\<lambda>v. ki_Key (fst v) = k) history) ks"
proof -
  obtain m ks where l: "Partition_loop history Map.empty [] = (m, ks)" by fastforce
  have I: "distinct ks" "set ks = (\<lambda>v. ki_Key (fst v)) ` set history"
    "\<forall>k \<in> set ks. the (m k) = filter (\<lambda>v. ki_Key (fst v) = k) history"
    using Partition_loop_inv [OF l] by auto
  then have "Partition history = map (\<lambda>k. filter (\<lambda>v. ki_Key (fst v) = k) history) (sort ks)"
    by (simp add: Partition_def l)
  then show ?thesis using I(1,2) by (intro exI [of _ "sort ks"]) simp
qed

end
