(* ===== verification/Kv_Lock.thy ===== *)
theory Kv_Lock
  imports Kv_Server
begin

text \<open>
  The distributed lock built on the versioned key/value server (\<^verbatim>\<open>kvsrv1/lock/lock.go\<close>). The operations
  are modelled call by call: a client is a program counter and its \<^verbatim>\<open>Lock\<close>, and the clients, the server
  and a network that loses requests and replies make a transition system. Mutual exclusion is proved for
  it, and that a lock obtained through \<^verbatim>\<open>resync\<close> is never released.
\<close>

section \<open>Definitions\<close>

definition availableState :: string where
  "availableState = ''Available''"

record Lock =
  l_lockname :: string
  l_id :: string
  l_version :: Tversion

definition MakeLock :: "string \<Rightarrow> string \<Rightarrow> Lock" where
  \<comment> \<open>\<open>rand\<close> is the result of \<^verbatim>\<open>kvtest.RandValue(8)\<close>\<close>
  "MakeLock lockname rand = \<lparr>l_lockname = lockname, l_id = rand, l_version = 0\<rparr>"

definition resync :: "KVServer \<Rightarrow> Lock \<Rightarrow> Lock \<times> bool" where
  "resync kv lk =
     (let reply = Get \<lparr>g_Key = l_lockname lk\<rparr> kv; state = gr_Value reply; version = gr_Version reply
      in if state = l_id lk then (lk\<lparr>l_version := version + 1\<rparr>, True)
         else if state = availableState then (lk\<lparr>l_version := version\<rparr>, False)
         else (lk\<lparr>l_version := version + 1\<rparr>, False))"

text \<open>The request of an acquiring round and what the round does with the result of the put.\<close>

definition acquire_args :: "Lock \<Rightarrow> PutArgs" where
  "acquire_args lk = \<lparr>p_Key = l_lockname lk, p_Value = l_id lk, p_Version = l_version lk\<rparr>"

datatype acquired = Taken Lock | Unsure | Again

definition acquire_result :: "Err \<Rightarrow> Lock \<Rightarrow> acquired" where
  "acquire_result e lk =
     (if e = OK then Taken (lk\<lparr>l_version := l_version lk + 1\<rparr>)
      else if e = ErrVersion \<or> e = ErrMaybe then Unsure
      else Again)"

text \<open>One round of \<^verbatim>\<open>Acquire\<close> without losses: whether it returned, the lock and the server.\<close>

definition Acquire_round :: "Lock \<times> KVServer \<Rightarrow> bool \<times> Lock \<times> KVServer" where
  "Acquire_round s = (case s of (lk, kv) \<Rightarrow>
     let (kv1, e) = Put (acquire_args lk) kv
     in case acquire_result e lk of
          Taken lk1 \<Rightarrow> (True, lk1, kv1)
        | Unsure \<Rightarrow> let (lk1, got) = resync kv1 lk in (got, lk1, kv1)
        | Again \<Rightarrow> (False, lk, kv1))"

fun Acquire_rounds :: "nat \<Rightarrow> Lock \<times> KVServer \<Rightarrow> bool \<times> Lock \<times> KVServer" where
  "Acquire_rounds 0 s = (False, s)"
| "Acquire_rounds (Suc n) s = (let (got, s') = Acquire_round s in if got then (True, s') else Acquire_rounds n s')"

definition release_args :: "Lock \<Rightarrow> PutArgs" where
  "release_args lk = \<lparr>p_Key = l_lockname lk, p_Value = availableState, p_Version = l_version lk\<rparr>"

definition Release :: "Lock \<times> KVServer \<Rightarrow> Lock \<times> KVServer" where
  "Release s = (case s of (lk, kv) \<Rightarrow>
     (lk\<lparr>l_version := l_version lk + 1\<rparr>, fst (Put (release_args lk) kv)))"

subsection \<open>Clients, server and network\<close>

datatype lock_pc = Idle | Acquiring bool | Resyncing | Holding | Releasing

record locks =
  lserver :: KVServer
  client :: "nat \<Rightarrow> Lock"
  pc :: "nat \<Rightarrow> lock_pc"

text \<open>
  \<open>Lost\<close> and \<open>Executed\<close> are calls that return false, without and with the server having executed the
  request; \<open>Replied\<close> is a call that returns true; the flag of \<open>Acquiring\<close> is \<^verbatim>\<open>isFirstTry\<close> of the put
  in progress.
\<close>

datatype lock_event = Begin nat | Lost nat | Executed nat | Replied nat | Resync nat | Unlock nat

fun lock_step :: "lock_event \<Rightarrow> locks \<Rightarrow> locks option" where
  "lock_step (Begin i) S = (if pc S i = Idle then Some (S\<lparr>pc := (pc S)(i := Acquiring True)\<rparr>) else None)"
| "lock_step (Lost i) S =
     (case pc S i of
        Acquiring b \<Rightarrow> Some (S\<lparr>pc := (pc S)(i := Acquiring False)\<rparr>)
      | Releasing \<Rightarrow> Some S
      | _ \<Rightarrow> None)"
| "lock_step (Executed i) S =
     (case pc S i of
        Acquiring b \<Rightarrow> Some (S\<lparr>lserver := fst (Put (acquire_args (client S i)) (lserver S)),
                               pc := (pc S)(i := Acquiring False)\<rparr>)
      | Releasing \<Rightarrow> Some (S\<lparr>lserver := fst (Put (release_args (client S i)) (lserver S))\<rparr>)
      | _ \<Rightarrow> None)"
| "lock_step (Replied i) S =
     (case pc S i of
        Acquiring b \<Rightarrow>
          let (kv, e) = Put (acquire_args (client S i)) (lserver S);
              e' = (if \<not> b \<and> e = ErrVersion then ErrMaybe else e)
          in (case acquire_result e' (client S i) of
                Taken lk \<Rightarrow> Some (S\<lparr>lserver := kv, client := (client S)(i := lk), pc := (pc S)(i := Holding)\<rparr>)
              | Unsure \<Rightarrow> Some (S\<lparr>lserver := kv, pc := (pc S)(i := Resyncing)\<rparr>)
              | Again \<Rightarrow> Some (S\<lparr>lserver := kv, pc := (pc S)(i := Acquiring True)\<rparr>))
      | Releasing \<Rightarrow>
          let (lk, kv) = Release (client S i, lserver S)
          in Some (S\<lparr>lserver := kv, client := (client S)(i := lk), pc := (pc S)(i := Idle)\<rparr>)
      | _ \<Rightarrow> None)"
| "lock_step (Resync i) S =
     (if pc S i = Resyncing
      then let (lk, got) = resync (lserver S) (client S i)
           in Some (S\<lparr>client := (client S)(i := lk),
                      pc := (pc S)(i := if got then Holding else Acquiring True)\<rparr>)
      else None)"
| "lock_step (Unlock i) S = (if pc S i = Holding then Some (S\<lparr>pc := (pc S)(i := Releasing)\<rparr>) else None)"

fun lock_run :: "lock_event list \<Rightarrow> locks \<Rightarrow> locks option" where
  "lock_run [] S = Some S"
| "lock_run (e # es) S = do { S' \<leftarrow> lock_step e S; lock_run es S' }"

definition lock_start :: "string \<Rightarrow> (nat \<Rightarrow> string) \<Rightarrow> locks" where
  "lock_start name ids =
     \<lparr>lserver = MakeKVServer, client = (\<lambda>i. MakeLock name (ids i)), pc = (\<lambda>_. Idle)\<rparr>"

definition good_ids :: "(nat \<Rightarrow> string) \<Rightarrow> bool" where
  "good_ids ids \<longleftrightarrow> inj ids \<and> (\<forall>i. ids i \<noteq> availableState \<and> ids i \<noteq> '''')"

section \<open>The invariant\<close>

text \<open>
  With \<open>n\<close> the version of the lock's key: even versions are free, odd ones name a client. A client that
  does not hold the lock aims at an even version; one that holds it has its id at the server.
\<close>

definition owns :: "string \<Rightarrow> (nat \<Rightarrow> string) \<Rightarrow> locks \<Rightarrow> nat \<Rightarrow> bool" where
  "owns name ids S i \<longleftrightarrow> (\<exists>ver. kv_view (lserver S) name = Some (ids i, ver))"

definition lock_n :: "string \<Rightarrow> locks \<Rightarrow> nat" where
  "lock_n name S = vnum (kv_view (lserver S) name)"

definition shape :: "nat \<Rightarrow> bool \<Rightarrow> lock_pc \<Rightarrow> nat \<Rightarrow> bool" where
  "shape n own p m \<longleftrightarrow>
     (case p of
        Holding \<Rightarrow> own \<and> (m = n \<or> m = n + 1)
      | Releasing \<Rightarrow> own \<and> (m = n \<or> m = n + 1) \<or> odd m \<and> m < n
      | Resyncing \<Rightarrow> 0 < n \<and> (even m \<and> m \<le> n + 1 \<or> own \<and> m = n + 2)
      | _ \<Rightarrow> even m \<and> m \<le> n + 1 \<or> own \<and> m = n + 2)"

definition lock_inv :: "string \<Rightarrow> (nat \<Rightarrow> string) \<Rightarrow> nat \<Rightarrow> locks \<Rightarrow> bool" where
  "lock_inv name ids c S \<longleftrightarrow> lock_n name S \<le> c
     \<and> (\<forall>v ver. kv_view (lserver S) name = Some (v, ver) \<longrightarrow>
          0 < unat ver \<and> (if even (unat ver) then v = availableState else \<exists>i. v = ids i))
     \<and> (\<forall>i. l_lockname (client S i) = name \<and> l_id (client S i) = ids i
          \<and> shape (lock_n name S) (owns name ids S i) (pc S i) (unat (l_version (client S i))))"

lemma lock_start_inv: "lock_inv name ids 0 (lock_start name ids)"
  by (simp add: lock_inv_def lock_start_def lock_n_def MakeKVServer_def kv_view_def vnum_def shape_def
      MakeLock_def)

lemma lock_invD:
  assumes "lock_inv name ids c S"
  shows "lock_n name S \<le> c" and "l_lockname (client S i) = name" and "l_id (client S i) = ids i"
    and "shape (lock_n name S) (owns name ids S i) (pc S i) (unat (l_version (client S i)))"
    and "kv_view (lserver S) name = Some (v, ver) \<Longrightarrow>
      0 < unat ver \<and> (if even (unat ver) then v = availableState else \<exists>i. v = ids i)"
  using assms unfolding lock_inv_def by blast+

lemma owns_odd:
  assumes "lock_inv name ids c S" and "good_ids ids" and "owns name ids S i"
  shows "odd (lock_n name S)"
  using assms by (auto simp: lock_inv_def owns_def lock_n_def vnum_def good_ids_def split: if_splits)

lemma owner_unique: "good_ids ids \<Longrightarrow> owns name ids S i \<Longrightarrow> owns name ids S j \<Longrightarrow> i = j"
  by (auto simp: owns_def good_ids_def inj_def)

lemma shape_later: "shape n False p m \<Longrightarrow> n \<le> n' \<Longrightarrow> shape n' own p m"
  by (auto simp: shape_def split: lock_pc.splits)

text \<open>A step of client \<open>i\<close> that leaves the lock's key alone, and one that moves it to the next version.\<close>

lemma lock_inv_local:
  assumes inv: "lock_inv name ids c S" and v: "kv_view (lserver S') name = kv_view (lserver S) name"
    and S': "client S' = (client S)(i := lk)" "pc S' = (pc S)(i := p)"
    and lk: "l_lockname lk = name" "l_id lk = ids i"
      "shape (lock_n name S) (owns name ids S i) p (unat (l_version lk))"
  shows "lock_inv name ids (Suc c) S'"
proof -
  have "lock_n name S' = lock_n name S" "\<And>j. owns name ids S' j = owns name ids S j"
    by (simp_all add: lock_n_def owns_def v)
  then show ?thesis using inv lk by (simp add: lock_inv_def v S')
qed

lemma lock_inv_put:
  assumes inv: "lock_inv name ids c S" and b: "c + 3 < 2 ^ 64"
    and v: "kv_view (lserver S') name = Some (val, ver + 1)" "unat ver = lock_n name S"
    and S': "client S' = (client S)(i := lk)" "pc S' = (pc S)(i := p)"
    and lk: "l_lockname lk = name" "l_id lk = ids i"
      "shape (Suc (lock_n name S)) (val = ids i) p (unat (l_version lk))"
    and val: "if odd (lock_n name S) then val = availableState else val = ids i"
    and excl: "\<And>j. j \<noteq> i \<Longrightarrow> \<not> owns name ids S j"
  shows "lock_inv name ids (Suc c) S'"
proof -
  have c: "lock_n name S \<le> c" using inv by (simp add: lock_inv_def)
  have n: "unat (ver + 1) = Suc (lock_n name S)" using unat_bump [of ver] v(2) b c by simp
  then have n': "lock_n name S' = Suc (lock_n name S)" by (simp add: lock_n_def vnum_def v(1))
  have oi: "owns name ids S' i \<longleftrightarrow> val = ids i" by (simp add: owns_def v(1))
  have "shape (lock_n name S') (owns name ids S' j) (pc S' j) (unat (l_version (client S' j)))" for j
  proof (cases "j = i")
    case True
    then show ?thesis using lk(3) by (simp add: S' n' oi)
  next
    case False
    then have "shape (lock_n name S) False (pc S j) (unat (l_version (client S j)))"
      using lock_invD(4) [OF inv, of j] excl [OF False] by simp
    then show ?thesis using False by (simp add: S' n' shape_later)
  qed
  then show ?thesis
    using inv c n n' lk(1,2) val by (auto simp: lock_inv_def v(1) S')
qed

lemma put_view:
  assumes "p_Key a = name"
  shows "snd (Put a kv) = OK \<and> unat (p_Version a) = vnum (kv_view kv name)
      \<and> kv_view (fst (Put a kv)) name = Some (p_Value a, p_Version a + 1)
    \<or> snd (Put a kv) \<noteq> OK \<and> unat (p_Version a) \<noteq> vnum (kv_view kv name)
      \<and> kv_view (fst (Put a kv)) = kv_view kv
      \<and> (snd (Put a kv) = ErrVersion \<longrightarrow> kv_view kv name \<noteq> None)"
  using kvsrv.put_OK_iff [of a kv] kvsrv.put_cases [of a kv] assms
  by (auto simp: Put_def kv_view_def Let_def split: option.splits if_splits)

lemma version_bump:
  assumes "lock_inv name ids c S" and "c + 3 < 2 ^ 64"
  shows "unat (l_version (client S i) + 1) = unat (l_version (client S i)) + 1"
    and "kv_view (lserver S) name = Some (v, ver) \<Longrightarrow> unat (ver + 1) = unat ver + 1"
proof -
  have "unat (l_version (client S i)) \<le> lock_n name S + 2"
    using lock_invD(4) [OF assms(1), of i] by (auto simp: shape_def split: lock_pc.splits)
  then show "unat (l_version (client S i) + 1) = unat (l_version (client S i)) + 1"
    using lock_invD(1) [OF assms(1)] assms(2) by (intro unat_bump) simp
  show "unat (ver + 1) = unat ver + 1" if "kv_view (lserver S) name = Some (v, ver)"
    using lock_invD(1) [OF assms(1)] assms(2) that by (intro unat_bump) (simp add: lock_n_def vnum_def)
qed

text \<open>The acquiring put: it succeeds only on a free lock.\<close>

lemma acquire_put_inv:
  assumes inv: "lock_inv name ids c S" and ids: "good_ids ids" and b: "c + 3 < 2 ^ 64"
    and p: "pc S i = Acquiring f"
    and S': "lserver S' = fst (Put (acquire_args (client S i)) (lserver S))"
      "client S' = (client S)(i := lk)" "pc S' = (pc S)(i := q)"
    and r: "snd (Put (acquire_args (client S i)) (lserver S)) = e"
    and q: "e = OK \<and> (lk = client S i \<and> q = Acquiring False
          \<or> lk = (client S i)\<lparr>l_version := l_version (client S i) + 1\<rparr> \<and> q = Holding)
        \<or> e \<noteq> OK \<and> lk = client S i \<and> (q = Acquiring False \<or> q = Acquiring True \<or> e = ErrVersion \<and> q = Resyncing)"
  shows "lock_inv name ids (Suc c) S'"
proof -
  let ?lk = "client S i" and ?n = "lock_n name S" and ?m = "unat (l_version (client S i))"
  note D = lock_invD [OF inv]
  have a: "p_Key (acquire_args ?lk) = name" "p_Value (acquire_args ?lk) = ids i"
    "p_Version (acquire_args ?lk) = l_version ?lk"
    by (simp_all add: acquire_args_def D)
  have sh: "even ?m \<and> ?m \<le> ?n + 1 \<or> owns name ids S i \<and> ?m = ?n + 2"
    using D(4) [of i] p by (simp add: shape_def)
  have lk: "l_lockname lk = name" "l_id lk = ids i" using q D(2,3) by auto
  show ?thesis
  proof (cases "e = OK")
    case True
    then have w: "?m = ?n" "kv_view (lserver S') name = Some (ids i, l_version ?lk + 1)"
      using put_view [OF a(1), of "lserver S"] r by (auto simp: S'(1) a lock_n_def)
    then have ev: "even ?n" using sh by auto
    show ?thesis
    proof (rule lock_inv_put [OF inv b w(2) w(1) S'(2,3) lk])
      show "shape (Suc ?n) (ids i = ids i) q (unat (l_version lk))"
        using q True w(1) ev version_bump(1) [OF inv b, of i] by (auto simp: shape_def)
    qed (use ev owns_odd [OF inv ids] in auto)
  next
    case False
    then have w: "kv_view (lserver S') name = kv_view (lserver S) name"
      and e: "e = ErrVersion \<longrightarrow> kv_view (lserver S) name \<noteq> None"
      using put_view [OF a(1), of "lserver S"] r by (auto simp: S'(1))
    have "e = ErrVersion \<Longrightarrow> 0 < ?n" using e D(5) by (auto simp: lock_n_def vnum_def)
    then show ?thesis
      using lock_inv_local [OF inv w S'(2,3) lk] sh q False by (auto simp: shape_def)
  qed
qed

text \<open>The releasing put: it succeeds only at the version the holder took.\<close>

lemma release_put_inv:
  assumes inv: "lock_inv name ids c S" and ids: "good_ids ids" and b: "c + 3 < 2 ^ 64"
    and p: "pc S i = Releasing"
    and S': "lserver S' = fst (Put (release_args (client S i)) (lserver S))"
      "client S' = (client S)(i := lk)" "pc S' = (pc S)(i := q)"
    and q: "lk = client S i \<and> q = Releasing
        \<or> lk = (client S i)\<lparr>l_version := l_version (client S i) + 1\<rparr> \<and> q = Idle"
  shows "lock_inv name ids (Suc c) S'"
proof -
  let ?lk = "client S i" and ?n = "lock_n name S" and ?m = "unat (l_version (client S i))"
  note D = lock_invD [OF inv]
  have a: "p_Key (release_args ?lk) = name" "p_Value (release_args ?lk) = availableState"
    "p_Version (release_args ?lk) = l_version ?lk"
    by (simp_all add: release_args_def D)
  have sh: "owns name ids S i \<and> (?m = ?n \<or> ?m = ?n + 1) \<or> odd ?m \<and> ?m < ?n"
    using D(4) [of i] p by (simp add: shape_def)
  have lk: "l_lockname lk = name" "l_id lk = ids i" using q D(2,3) by auto
  note bump = version_bump(1) [OF inv b, of i]
  show ?thesis
  proof (cases "snd (Put (release_args ?lk) (lserver S)) = OK")
    case True
    then have w: "?m = ?n" "kv_view (lserver S') name = Some (availableState, l_version ?lk + 1)"
      using put_view [OF a(1), of "lserver S"] by (auto simp: S'(1) a lock_n_def)
    then have own: "owns name ids S i" using sh by auto
    then have od: "odd ?n" by (rule owns_odd [OF inv ids])
    show ?thesis
    proof (rule lock_inv_put [OF inv b w(2) w(1) S'(2,3) lk])
      show "shape (Suc ?n) (availableState = ids i) q (unat (l_version lk))"
        using q w(1) od bump by (auto simp: shape_def)
    qed (use od own owner_unique [OF ids] in auto)
  next
    case False
    then have w: "kv_view (lserver S') name = kv_view (lserver S) name" and m: "?m \<noteq> ?n"
      using put_view [OF a(1), of "lserver S"] by (auto simp: S'(1) a lock_n_def)
    show ?thesis
      using lock_inv_local [OF inv w S'(2,3) lk] sh q m bump by (auto simp: shape_def)
  qed
qed

lemma resync_inv:
  assumes inv: "lock_inv name ids c S" and ids: "good_ids ids" and b: "c + 3 < 2 ^ 64"
    and p: "pc S i = Resyncing" and r: "resync (lserver S) (client S i) = (lk, got)"
    and S': "lserver S' = lserver S" "client S' = (client S)(i := lk)"
      "pc S' = (pc S)(i := if got then Holding else Acquiring True)"
  shows "lock_inv name ids (Suc c) S'"
proof -
  let ?n = "lock_n name S"
  note D = lock_invD [OF inv]
  have "0 < ?n" using D(4) [of i] p by (simp add: shape_def)
  then obtain v ver where v: "kv_view (lserver S) name = Some (v, ver)" "unat ver = ?n"
    by (cases "kv_view (lserver S) name") (auto simp: lock_n_def vnum_def)
  have par: "if even ?n then v = availableState else \<exists>j. v = ids j" using D(5) [OF v(1)] v(2) by simp
  have R: "lk = (client S i)\<lparr>l_version := if v \<noteq> ids i \<and> v = availableState then ver else ver + 1\<rparr>"
    "got = (v = ids i)"
    using r by (auto simp: resync_def Let_def Get_view v(1) D split: if_splits)
  have "shape ?n (owns name ids S i) (if got then Holding else Acquiring True) (unat (l_version lk))"
    using par version_bump(2) [OF inv b v(1)] v ids
    by (auto simp: R shape_def owns_def good_ids_def split: if_splits)
  then show ?thesis
    using lock_inv_local [OF inv _ S'(2,3)] S'(1) D(2,3) by (simp add: R(1))
qed

lemma idle_step_inv:
  assumes inv: "lock_inv name ids c S"
    and "S' = S \<or> (\<exists>i q. S' = S\<lparr>pc := (pc S)(i := q)\<rparr> \<and> (pc S i = Idle \<and> q = Acquiring True
      \<or> (\<exists>f. pc S i = Acquiring f) \<and> q = Acquiring False \<or> pc S i = Holding \<and> q = Releasing))"
  shows "lock_inv name ids (Suc c) S'"
proof -
  have nxt: "shape n own q m" if "shape n own p m" "p = Idle \<and> q = Acquiring True
      \<or> (\<exists>f. p = Acquiring f) \<and> q = Acquiring False \<or> p = Holding \<and> q = Releasing" for n own p q m
    using that by (auto simp: shape_def)
  consider "S' = S" | i q where "S' = S\<lparr>pc := (pc S)(i := q)\<rparr>"
    "shape (lock_n name S) (owns name ids S i) q (unat (l_version (client S i)))"
    using assms(2) nxt [OF lock_invD(4) [OF inv]] by blast
  then show ?thesis
  proof cases
    case 1
    then show ?thesis using inv by (auto simp: lock_inv_def)
  next
    case 2
    then show ?thesis
      using lock_inv_local [OF inv, of S' i "client S i" q] lock_invD(2,3) [OF inv] by simp
  qed
qed

lemma lock_step_inv:
  assumes inv: "lock_inv name ids c S" and ids: "good_ids ids" and b: "c + 3 < 2 ^ 64"
    and s: "lock_step e S = Some S'"
  shows "lock_inv name ids (Suc c) S'"
proof (cases e)
  case (Executed i)
  show ?thesis
  proof (cases "pc S i")
    case (Acquiring f)
    then show ?thesis
      using acquire_put_inv [OF inv ids b Acquiring, of S' "client S i" "Acquiring False"] s Executed by auto
  next
    case Releasing
    then show ?thesis
      using release_put_inv [OF inv ids b Releasing, of S' "client S i" Releasing] s Executed
        fun_upd_idem [of "pc S" i Releasing] by auto
  qed (use s Executed in simp_all)
next
  case (Replied i)
  show ?thesis
  proof (cases "pc S i")
    case (Acquiring f)
    obtain kv r where r: "Put (acquire_args (client S i)) (lserver S) = (kv, r)" by fastforce
    have k: "r = OK \<or> r = ErrNoKey \<or> r = ErrVersion"
      using Put_replies [of "acquire_args (client S i)" "lserver S"] r by simp
    note A = acquire_put_inv [OF inv ids b Acquiring, of S', unfolded r]
    show ?thesis
      using k s Replied Acquiring r A [of "client S i" Resyncing] A [of "client S i" "Acquiring True"]
        A [of "(client S i)\<lparr>l_version := l_version (client S i) + 1\<rparr>" Holding]
      by (cases f) (auto simp: acquire_result_def Let_def)
  next
    case Releasing
    then show ?thesis
      using release_put_inv [OF inv ids b Releasing, of S'
          "(client S i)\<lparr>l_version := l_version (client S i) + 1\<rparr>" Idle] s Replied
      by (auto simp: Release_def)
  qed (use s Replied in simp_all)
next
  case (Resync i)
  then show ?thesis
    using resync_inv [OF inv ids b, of i _ _ S'] s by (auto split: if_splits prod.splits)
qed (use s idle_step_inv [OF inv, of S'] in \<open>auto split: if_splits lock_pc.splits\<close>)

lemma lock_run_inv:
  assumes "lock_inv name ids c S" and "good_ids ids" and "c + length es + 3 < 2 ^ 64"
    and "lock_run es S = Some S'"
  shows "lock_inv name ids (c + length es) S'"
  using assms
proof (induction es arbitrary: c S)
  case (Cons e es)
  then obtain S1 where 1: "lock_step e S = Some S1" "lock_run es S1 = Some S'"
    by (auto simp: bind_Some_iff)
  have "lock_inv name ids (Suc c) S1" using lock_step_inv [OF Cons.prems(1,2) _ 1(1)] Cons.prems(3) by simp
  from Cons.IH [OF this Cons.prems(2) _ 1(2)] show ?case using Cons.prems(3) by simp
qed simp

section \<open>Properties\<close>

text \<open>C7. Mutual exclusion: clients with distinct identifiers take and give back one lock through a network
  that loses requests and replies; in no run do two of them hold it at once. The bound on the length of
  the run keeps the 64-bit versions from wrapping around.\<close>

theorem lock_mutual_exclusion:
  assumes "good_ids ids" and "length es + 3 < 2 ^ 64" and "lock_run es (lock_start name ids) = Some S"
    and "pc S i = Holding" and "pc S j = Holding"
  shows "i = j"
proof -
  have inv: "lock_inv name ids (length es) S"
    using lock_run_inv [OF lock_start_inv assms(1)] assms(2,3) by fastforce
  have "owns name ids S i" "owns name ids S j"
    using lock_invD(4) [OF inv, of i] lock_invD(4) [OF inv, of j] assms(4,5) by (simp_all add: shape_def)
  then show ?thesis by (rule owner_unique [OF assms(1)])
qed

definition demo_id :: "nat \<Rightarrow> string" where
  "demo_id i = replicate (Suc i) (CHR ''x'')"

lemma demo_id_good: "good_ids demo_id"
proof -
  have "inj demo_id" by (rule injI) (metis demo_id_def length_replicate old.nat.inject)
  moreover have "demo_id i \<noteq> availableState" for i
    by (simp add: demo_id_def availableState_def)
  ultimately show ?thesis by (simp add: good_ids_def demo_id_def)
qed

theorem lock_mutual_exclusion_witness:
  "\<exists>S. lock_run [Begin 0, Begin 1, Executed 0, Replied 0, Resync 0, Replied 1, Resync 1]
      (lock_start ''l'' demo_id) = Some S \<and> pc S 0 = Holding \<and> (\<forall>j. pc S j = Holding \<longrightarrow> 0 = j)"
proof -
  let ?es = "[Begin 0, Begin 1, Executed 0, Replied 0, Resync 0, Replied 1, Resync 1]"
  let ?S = "the (lock_run ?es (lock_start ''l'' demo_id))"
  have "lock_run ?es (lock_start ''l'' demo_id) \<noteq> None \<and> pc ?S 0 = Holding" by code_simp
  then have S: "lock_run ?es (lock_start ''l'' demo_id) = Some ?S" "pc ?S 0 = Holding" by auto
  have l: "length ?es + 3 < 2 ^ 64" by simp
  show ?thesis using lock_mutual_exclusion [OF demo_id_good l S(1,2)] S by blast
qed

text \<open>C22. A client whose acquiring put was executed but reported as \<^verbatim>\<open>ErrMaybe\<close> finds its own identifier in
  \<^verbatim>\<open>resync\<close> and returns as the holder with a version one too high: its \<^verbatim>\<open>Release\<close> then changes nothing at the
  server, and a client waiting for the lock never gets it, however many rounds it tries.\<close>

theorem lock_release_lost:
  assumes "kv_view kv (l_lockname A) = Some (l_id A, ver)"
    and "l_lockname B = l_lockname A" and "l_id B \<noteq> l_id A" and "l_id A \<noteq> availableState"
    and "l_version B \<noteq> ver"
  shows "\<exists>A' A'' B'. resync kv A = (A', True) \<and> Release (A', kv) = (A'', kv)
    \<and> Acquire_rounds n (B, kv) = (False, B', kv)"
proof -
  have bump: "ver + 1 \<noteq> ver" by simp
  have R: "resync kv A = (A\<lparr>l_version := ver + 1\<rparr>, True)"
    by (simp add: resync_def Let_def Get_view assms(1))
  have refuse: "Put a kv = (kv, ErrVersion)" if "p_Key a = l_lockname A" "p_Version a \<noteq> ver" for a
    using that assms(1) by (auto simp: Put_def Let_def kv_view_def)
  have rel: "Release (A\<lparr>l_version := ver + 1\<rparr>, kv) = (A\<lparr>l_version := ver + 1 + 1\<rparr>, kv)"
    using refuse [of "release_args (A\<lparr>l_version := ver + 1\<rparr>)"] bump
    by (simp add: Release_def release_args_def)
  have round: "Acquire_round (C, kv) = (False, C\<lparr>l_version := ver + 1\<rparr>, kv)"
    if "l_lockname C = l_lockname A" "l_id C \<noteq> l_id A" "l_version C \<noteq> ver" for C
    using refuse [of "acquire_args C"] that assms(1,4)
    by (simp add: Acquire_round_def acquire_args_def acquire_result_def resync_def Let_def Get_view)
  have "\<exists>B'. Acquire_rounds n (C, kv) = (False, B', kv)"
    if "l_lockname C = l_lockname A" "l_id C \<noteq> l_id A" "l_version C \<noteq> ver" for C
    using that bump by (induction n arbitrary: C) (simp_all add: round)
  then show ?thesis using R rel assms(2,3,5) by blast
qed

theorem lock_release_lost_witness:
  "\<exists>kv B'. Clerk_Put [([], ReplyLost), ([], Answered)] ''l'' ''me'' 0 MakeKVServer = Some (kv, ErrMaybe)
    \<and> Acquire_rounds 100 (MakeLock ''l'' ''you'', kv) = (False, B', kv)"
proof -
  let ?r = "Clerk_Put [([], ReplyLost), ([], Answered)] ''l'' ''me'' 0 MakeKVServer"
  let ?kv = "fst (the ?r)" and ?A = "MakeLock ''l'' ''me''" and ?B = "MakeLock ''l'' ''you''"
  have "map_option snd ?r = Some ErrMaybe" by code_simp
  then have r: "?r = Some (?kv, ErrMaybe)" by auto
  have h: "kv_view ?kv (l_lockname ?A) = Some (l_id ?A, 1)" "l_lockname ?B = l_lockname ?A"
    "l_id ?B \<noteq> l_id ?A" "l_id ?A \<noteq> availableState" "l_version ?B \<noteq> 1"
    by code_simp+
  show ?thesis using lock_release_lost [OF h, of 100] r by blast
qed

end
