(* ===== verification/Rsm.thy ===== *)
theory Rsm
  imports Kv_Rpc
begin

text \<open>
  The replicated state machine package (\<^verbatim>\<open>kvraft1/rsm/rsm.go\<close>) and the counter service its tests run on it
  (\<^verbatim>\<open>kvraft1/rsm/server.go\<close>). The interface \<^verbatim>\<open>StateMachine\<close> is the locale \<open>state_machine\<close>; the key/value
  server, the shard group and the counter are its interpretations. The calls the package makes to Raft
  are explicit: what \<^verbatim>\<open>Start\<close>, \<^verbatim>\<open>GetState\<close> and \<^verbatim>\<open>PersistBytes\<close> returned is an argument, and a call of \<^verbatim>\<open>Snapshot\<close>
  is part of the result. A snapshot is the value that was encoded, not its bytes.
\<close>

section \<open>Definitions\<close>

record 'q Op =
  op_Req :: 'q
  op_Id :: int
  op_Me :: int

record Key =
  k_Id :: int
  k_Me :: int
  k_Index :: int

text \<open>A result channel has capacity one; it is a list of at most one result.\<close>

record ('s, 'r) RSM =
  rsm_me :: int
  maxraftstate :: int
  sm :: 's
  results :: "Key \<rightharpoonup> 'r list"
  next_id :: int

datatype ('q, 'd) rsm_msg = Committed "'q Op" int | Restored 'd int

definition MakeRSM :: "('d \<Rightarrow> 's \<Rightarrow> 's) \<Rightarrow> int \<Rightarrow> int \<Rightarrow> 'd option \<Rightarrow> 's \<Rightarrow> ('s, 'r) RSM" where
  \<comment> \<open>\<open>None\<close> is an empty snapshot\<close>
  "MakeRSM restore me maxr snapshot s =
     \<lparr>rsm_me = me, maxraftstate = maxr,
      sm = (case snapshot of None \<Rightarrow> s | Some d \<Rightarrow> restore d s),
      results = Map.empty, next_id = 0\<rparr>"

definition constructKey :: "'q Op \<Rightarrow> int \<Rightarrow> Key" where
  "constructKey op index = \<lparr>k_Id = op_Id op, k_Me = op_Me op, k_Index = index\<rparr>"

text \<open>\<^verbatim>\<open>Submit\<close> up to its waiting loop; \<open>started\<close> is what \<^verbatim>\<open>rf.Start(op)\<close> returned.\<close>

definition Submit_op :: "'q \<Rightarrow> ('s, 'r) RSM \<Rightarrow> 'q Op" where
  "Submit_op req rsm = \<lparr>op_Req = req, op_Id = next_id rsm, op_Me = rsm_me rsm\<rparr>"

definition Submit_start ::
  "'q \<Rightarrow> int \<times> int \<times> bool \<Rightarrow> ('s, 'r) RSM \<Rightarrow> ('s, 'r) RSM \<times> (Err + Key \<times> int)" where
  "Submit_start req started rsm =
     (let op = Submit_op req rsm; rsm1 = rsm\<lparr>next_id := next_id rsm + 1\<rparr>;
          (index, initialTerm, isLeader) = started
      in if \<not> isLeader then (rsm1, Inl ErrWrongLeader)
         else let channelKey = constructKey op index
              in (rsm1\<lparr>results := (results rsm1)(channelKey \<mapsto> [])\<rparr>, Inr (channelKey, initialTerm)))"

text \<open>One turn of the waiting loop: the result arrived, or the timer fired and \<^verbatim>\<open>GetState\<close> answered.\<close>

datatype wake = Received | Elapsed int bool

definition Submit_wait ::
  "Key \<Rightarrow> int \<Rightarrow> wake \<Rightarrow> ('s, 'r) RSM \<Rightarrow> (('s, 'r) RSM \<times> (Err \<times> 'r option) option) option" where
  "Submit_wait key initialTerm w rsm =
     (let done = rsm\<lparr>results := (results rsm)(key := None)\<rparr>
      in case w of
           Received \<Rightarrow>
             (case results rsm key of
                Some [r] \<Rightarrow> Some (done, Some (OK, Some r))
              | _ \<Rightarrow> None)
         | Elapsed currentTerm isLeader \<Rightarrow>
             if \<not> isLeader \<or> initialTerm \<noteq> currentTerm
             then Some (done, Some (ErrWrongLeader, None))
             else Some (rsm, None))"

text \<open>\<open>bytes\<close> is the result of \<^verbatim>\<open>rf.PersistBytes()\<close>; the result is the argument of \<^verbatim>\<open>rf.Snapshot\<close>, if called.\<close>

definition maybeSnapshot :: "('s \<Rightarrow> 'd) \<Rightarrow> int \<Rightarrow> int \<Rightarrow> ('s, 'r) RSM \<Rightarrow> (int \<times> 'd) option" where
  "maybeSnapshot snap bytes commandIndex rsm =
     (if maxraftstate rsm \<noteq> -1 \<and> bytes \<ge> maxraftstate rsm
      then Some (commandIndex, snap (sm rsm)) else None)"

text \<open>A send on a full channel blocks the reading goroutine for ever, which is \<open>None\<close>, as is a fatal \<^verbatim>\<open>DoOp\<close>.\<close>

definition applyCommand ::
  "('q \<Rightarrow> 's \<Rightarrow> ('s \<times> 'r) option) \<Rightarrow> ('s \<Rightarrow> 'd) \<Rightarrow> int \<Rightarrow> 'q Op \<Rightarrow> int \<Rightarrow> ('s, 'r) RSM
     \<Rightarrow> (('s, 'r) RSM \<times> (int \<times> 'd) option) option" where
  "applyCommand doop snap bytes op index rsm = do {
     (s, opResult) \<leftarrow> doop (op_Req op) (sm rsm);
     let rsm1 = rsm\<lparr>sm := s\<rparr>;
     rsm2 \<leftarrow> (case results rsm1 (constructKey op index) of
                None \<Rightarrow> Some rsm1
              | Some [] \<Rightarrow> Some (rsm1\<lparr>results := (results rsm1)(constructKey op index \<mapsto> [opResult])\<rparr>)
              | Some _ \<Rightarrow> None);
     Some (rsm2, maybeSnapshot snap bytes index rsm2)
   }"

fun Read ::
  "('q \<Rightarrow> 's \<Rightarrow> ('s \<times> 'r) option) \<Rightarrow> ('s \<Rightarrow> 'd) \<Rightarrow> ('d \<Rightarrow> 's \<Rightarrow> 's) \<Rightarrow> (('q, 'd) rsm_msg \<times> int) list
     \<Rightarrow> ('s, 'r) RSM \<Rightarrow> ('s, 'r) RSM option" where
  \<comment> \<open>each message comes with the size \<^verbatim>\<open>PersistBytes\<close> reports while it is handled\<close>
  "Read doop snap restore [] rsm = Some rsm"
| "Read doop snap restore ((Committed op index, bytes) # ms) rsm = do {
     (rsm1, call) \<leftarrow> applyCommand doop snap bytes op index rsm;
     Read doop snap restore ms rsm1
   }"
| "Read doop snap restore ((Restored d index, bytes) # ms) rsm =
     Read doop snap restore ms (rsm\<lparr>sm := restore d (sm rsm)\<rparr>)"

subsection \<open>The counter service\<close>

datatype counter_req = Inc | Null | Dec

datatype counter_rep = IncRep int | NullRep

record rsmSrv =
  counter :: int

definition counter_DoOp :: "counter_req \<Rightarrow> rsmSrv \<Rightarrow> (rsmSrv \<times> counter_rep) option" where
  \<comment> \<open>any other request ends the process\<close>
  "counter_DoOp req rs =
     (case req of
        Inc \<Rightarrow> let rs1 = rs\<lparr>counter := counter rs + 1\<rparr> in Some (rs1, IncRep (counter rs1))
      | Null \<Rightarrow> Some (rs, NullRep)
      | _ \<Rightarrow> None)"

definition counter_Snapshot :: "rsmSrv \<Rightarrow> int" where
  "counter_Snapshot rs = counter rs"

definition counter_Restore :: "int \<Rightarrow> rsmSrv \<Rightarrow> rsmSrv" where
  "counter_Restore d rs = rs\<lparr>counter := d\<rparr>"

section \<open>The interface of a state machine\<close>

fun exec :: "('q \<Rightarrow> 's \<Rightarrow> ('s \<times> 'r) option) \<Rightarrow> 'q list \<Rightarrow> 's \<Rightarrow> 's option" where
  "exec f [] s = Some s"
| "exec f (q # qs) s = do { (s', r) \<leftarrow> f q s; exec f qs s' }"

lemma exec_append: "exec f (xs @ ys) s = do { s' \<leftarrow> exec f xs s; exec f ys s' }"
  by (induction xs arbitrary: s) (auto simp: bind_assoc split: bind_splits)

text \<open>
  When a replica that has applied the first \<open>k\<close> commands may be handed a snapshot of the prefix up to \<open>index\<close>:
  always when it does not go back. Raft may also deliver a snapshot of an earlier prefix and the commands after
  it once more. \<^verbatim>\<open>Restore\<close> then leaves in the maps what the snapshot does not have, so such a snapshot must
  cover the state it is decoded into, and nobody may wait for the commands that come again (\<open>W\<close> are the keys
  of the submitters' channels).
\<close>

definition may_restore :: "('q \<Rightarrow> 's \<Rightarrow> ('s \<times> 'r) option) \<Rightarrow> ('s \<Rightarrow> 's \<Rightarrow> bool) \<Rightarrow> 's \<Rightarrow> Key set \<Rightarrow> 'q Op list \<Rightarrow> nat \<Rightarrow> int
    \<Rightarrow> bool" where
  "may_restore doop covers fresh W cmds k index \<longleftrightarrow> int k \<le> index
     \<or> (\<exists>s0 s. exec doop (map op_Req (take k cmds)) fresh = Some s0
          \<and> exec doop (map op_Req (take (nat index) cmds)) fresh = Some s \<and> covers s0 s)
       \<and> (\<forall>i. nat index \<le> i \<and> i < k \<longrightarrow> constructKey (cmds ! i) (int i + 1) \<notin> W)"

text \<open>
  The messages of the apply channel for the committed commands \<open>cmds\<close> once the first \<open>k\<close> are applied, and the
  number applied after them: the next command, or a snapshot of some prefix that may be restored, taken by a
  replica in a state \<open>t\<close> that stands in relation \<open>rel\<close> to the state of executing that prefix.
\<close>

fun stream :: "('q \<Rightarrow> 's \<Rightarrow> ('s \<times> 'r) option) \<Rightarrow> ('s \<Rightarrow> 'd) \<Rightarrow> ('s \<Rightarrow> 's \<Rightarrow> bool) \<Rightarrow> ('s \<Rightarrow> 's \<Rightarrow> bool) \<Rightarrow> 's \<Rightarrow> Key set
    \<Rightarrow> 'q Op list \<Rightarrow> nat \<Rightarrow> (('q, 'd) rsm_msg \<times> int) list \<Rightarrow> nat \<Rightarrow> bool" where
  "stream doop snap rel covers fresh W cmds k [] k' \<longleftrightarrow> k' = k"
| "stream doop snap rel covers fresh W cmds k ((Committed op index, b) # ms) k' \<longleftrightarrow>
     k < length cmds \<and> op = cmds ! k \<and> index = int k + 1 \<and> stream doop snap rel covers fresh W cmds (Suc k) ms k'"
| "stream doop snap rel covers fresh W cmds k ((Restored d index, b) # ms) k' \<longleftrightarrow>
     0 \<le> index \<and> index \<le> int (length cmds) \<and> may_restore doop covers fresh W cmds k index
     \<and> (\<exists>s t. exec doop (map op_Req (take (nat index) cmds)) fresh = Some s \<and> rel t s \<and> d = snap t)
     \<and> stream doop snap rel covers fresh W cmds (nat index) ms k'"

text \<open>The results the channels may hold once \<open>k\<close> commands are applied.\<close>

definition delivered_ok :: "('q \<Rightarrow> 's \<Rightarrow> ('s \<times> 'r) option) \<Rightarrow> 's \<Rightarrow> 'q Op list \<Rightarrow> nat \<Rightarrow> ('s, 'r) RSM \<Rightarrow> bool" where
  "delivered_ok doop fresh cmds k rsm \<longleftrightarrow>
     (\<forall>key r rs. results rsm key = Some (r # rs) \<longrightarrow>
        (\<exists>i < k. k_Index key = int i + 1 \<and> key = constructKey (cmds ! i) (int i + 1)
          \<and> (\<exists>s. exec doop (map op_Req (take i cmds)) fresh = Some s
               \<and> map_option snd (doop (op_Req (cmds ! i)) s) = Some r)))"

lemma delivered_okD:
  assumes "delivered_ok doop fresh cmds k rsm" and "results rsm key = Some (r # rs)"
  shows "\<exists>i < k. k_Index key = int i + 1 \<and> key = constructKey (cmds ! i) (int i + 1)
    \<and> (\<exists>s. exec doop (map op_Req (take i cmds)) fresh = Some s
         \<and> map_option snd (doop (op_Req (cmds ! i)) s) = Some r)"
  using assms unfolding delivered_ok_def by (elim allE) (erule impE)

lemma delivered_ok_empty:
  assumes "\<forall>key. results rsm key = None \<or> results rsm key = Some []"
  shows "delivered_ok doop fresh cmds k rsm"
  unfolding delivered_ok_def
proof (intro allI impI)
  fix key r rs
  assume "results rsm key = Some (r # rs)"
  then show "\<exists>i < k. k_Index key = int i + 1 \<and> key = constructKey (cmds ! i) (int i + 1)
    \<and> (\<exists>s. exec doop (map op_Req (take i cmds)) fresh = Some s
         \<and> map_option snd (doop (op_Req (cmds ! i)) s) = Some r)"
    using spec [OF assms, of key] by simp
qed

lemma delivered_ok_mono:
  assumes "delivered_ok doop fresh cmds k rsm" and "k \<le> j" and "results rsm' = results rsm"
  shows "delivered_ok doop fresh cmds j rsm'"
  unfolding delivered_ok_def assms(3)
proof (intro allI impI)
  fix key r rs
  assume "results rsm key = Some (r # rs)"
  from delivered_okD [OF assms(1) this] obtain i s where "i < k" "k_Index key = int i + 1"
    "key = constructKey (cmds ! i) (int i + 1)" "exec doop (map op_Req (take i cmds)) fresh = Some s"
    "map_option snd (doop (op_Req (cmds ! i)) s) = Some r" by blast
  then show "\<exists>i < j. k_Index key = int i + 1 \<and> key = constructKey (cmds ! i) (int i + 1)
    \<and> (\<exists>s. exec doop (map op_Req (take i cmds)) fresh = Some s
         \<and> map_option snd (doop (op_Req (cmds ! i)) s) = Some r)"
    using assms(2) by (intro exI [of _ i] exI [of _ s] conjI) simp_all
qed

text \<open>
  What a service promises: \<open>rel t s\<close> says that a replica in state \<open>t\<close> answers like one in the state \<open>s\<close> that
  executing the commands one by one gives. Commands keep the relation and give equal results.
  \<open>covers s0 s\<close> says that a snapshot of \<open>s\<close> overwrites all that matters of \<open>s0\<close>: the state after more commands
  covers the state before them, and restoring a snapshot of a covering state re-establishes the relation.
\<close>

locale state_machine =
  fixes doop :: "'q \<Rightarrow> 's \<Rightarrow> ('s \<times> 'r) option"
    and snap :: "'s \<Rightarrow> 'd"
    and restore :: "'d \<Rightarrow> 's \<Rightarrow> 's"
    and fresh :: 's
    and rel :: "'s \<Rightarrow> 's \<Rightarrow> bool"
    and covers :: "'s \<Rightarrow> 's \<Rightarrow> bool"
  assumes rel_fresh: "rel fresh fresh"
    and rel_doop: "rel t s \<Longrightarrow> doop q s = Some (s', r) \<Longrightarrow> \<exists>t'. doop q t = Some (t', r) \<and> rel t' s'"
    and covers_exec: "exec doop qs s0 = Some s \<Longrightarrow> covers s0 s"
    and rel_restore: "covers s0 s \<Longrightarrow> rel t0 s0 \<Longrightarrow> rel t s \<Longrightarrow> rel (restore (snap t) t0) s"
begin

lemma exec_prefix:
  assumes "exec doop (map op_Req cmds) fresh \<noteq> None"
  shows "\<exists>s. exec doop (map op_Req (take k cmds)) fresh = Some s"
proof -
  have "exec doop (map op_Req (take k cmds @ drop k cmds)) fresh \<noteq> None" using assms by simp
  then show ?thesis unfolding map_append exec_append by (auto split: bind_splits)
qed

text \<open>One command: the state advances by it, and a waiting submitter gets its result.\<close>

lemma applyCommand_ok:
  assumes total: "exec doop (map op_Req cmds) fresh \<noteq> None" and k: "k < length cmds"
    and s: "exec doop (map op_Req (take k cmds)) fresh = Some s" and rel: "rel (sm rsm) s"
    and d: "delivered_ok doop fresh cmds k rsm"
  shows "\<exists>rsm1 call s1. applyCommand doop snap b (cmds ! k) (int k + 1) rsm = Some (rsm1, call)
    \<and> exec doop (map op_Req (take (Suc k) cmds)) fresh = Some s1 \<and> rel (sm rsm1) s1
    \<and> delivered_ok doop fresh cmds (Suc k) rsm1 \<and> dom (results rsm1) = dom (results rsm)"
proof -
  let ?key = "constructKey (cmds ! k) (int k + 1)"
  have tk: "take (Suc k) cmds = take k cmds @ [cmds ! k]" using k by (simp add: take_Suc_conv_app_nth)
  obtain s' where "exec doop (map op_Req (take (Suc k) cmds)) fresh = Some s'"
    using exec_prefix [OF total] by blast
  then obtain r where r: "doop (op_Req (cmds ! k)) s = Some (s', r)"
    unfolding tk map_append exec_append s by (auto simp: bind_Some_iff)
  have s': "exec doop (map op_Req (take (Suc k) cmds)) fresh = Some s'"
    unfolding tk map_append exec_append s by (simp add: r)
  obtain t' where t': "doop (op_Req (cmds ! k)) (sm rsm) = Some (t', r)" "rel t' s'"
    using rel_doop [OF rel r] by blast
  have empty: "results rsm ?key = None \<or> results rsm ?key = Some []"
  proof (cases "results rsm ?key")
    case (Some rs)
    show ?thesis
    proof (cases rs)
      case (Cons y ys)
      then obtain i where "i < k" "k_Index ?key = int i + 1"
        using d Some unfolding delivered_ok_def by blast
      then show ?thesis by (simp add: constructKey_def)
    qed (use Some in simp)
  qed simp
  let ?rsm0 = "rsm\<lparr>sm := t'\<rparr>"
  let ?rsm1 = "if results rsm ?key = None then ?rsm0 else ?rsm0\<lparr>results := (results rsm)(?key \<mapsto> [r])\<rparr>"
  have "\<exists>call. applyCommand doop snap b (cmds ! k) (int k + 1) rsm = Some (?rsm1, call)"
    using empty by (auto simp: applyCommand_def t' Let_def)
  moreover have "delivered_ok doop fresh cmds (Suc k) ?rsm1"
    unfolding delivered_ok_def
  proof (intro allI impI)
    fix key x xs
    assume a: "results ?rsm1 key = Some (x # xs)"
    show "\<exists>i < Suc k. k_Index key = int i + 1 \<and> key = constructKey (cmds ! i) (int i + 1)
          \<and> (\<exists>s. exec doop (map op_Req (take i cmds)) fresh = Some s
               \<and> map_option snd (doop (op_Req (cmds ! i)) s) = Some x)"
    proof (cases "key = ?key \<and> results rsm ?key \<noteq> None")
      case True
      then have "x = r" using a by auto
      moreover have "k_Index ?key = int k + 1" by (simp add: constructKey_def)
      ultimately show ?thesis using True s r by (intro exI [of _ k]) simp
    next
      case False
      then have "results rsm key = Some (x # xs)" using a by (auto split: if_splits)
      with delivered_ok_mono [OF d, of "Suc k" rsm] show ?thesis by (intro delivered_okD) simp_all
    qed
  qed
  moreover have "dom (results ?rsm1) = dom (results rsm)" by auto
  ultimately show ?thesis using s' t'(2) by auto
qed

text \<open>A snapshot that may be restored gives the state of its prefix, and leaves the results right.\<close>

lemma restore_ok:
  assumes m: "may_restore doop covers fresh W cmds k index"
    and s0: "exec doop (map op_Req (take k cmds)) fresh = Some s0" and "rel (sm rsm) s0"
    and s: "exec doop (map op_Req (take (nat index) cmds)) fresh = Some s" and "rel t s"
    and d: "delivered_ok doop fresh cmds k rsm" and W: "dom (results rsm) \<subseteq> W"
  shows "rel (restore (snap t) (sm rsm)) s
    \<and> delivered_ok doop fresh cmds (nat index) (rsm\<lparr>sm := restore (snap t) (sm rsm)\<rparr>)"
proof (cases "int k \<le> index")
  case True
  have "take (nat index) cmds = take k cmds @ take (nat index - k) (drop k cmds)"
    using take_add [of k "nat index - k" cmds] True by simp
  then have "exec doop (map op_Req (take (nat index - k) (drop k cmds))) s0 = Some s"
    using s s0 by (simp add: exec_append)
  then show ?thesis using rel_restore [OF covers_exec assms(3,5)] delivered_ok_mono [OF d, of "nat index"] True by simp
next
  case False
  then have c: "covers s0 s" and w: "\<And>i. nat index \<le> i \<Longrightarrow> i < k \<Longrightarrow> constructKey (cmds ! i) (int i + 1) \<notin> W"
    using m s0 s by (auto simp: may_restore_def)
  have "delivered_ok doop fresh cmds (nat index) (rsm\<lparr>sm := restore (snap t) (sm rsm)\<rparr>)"
    unfolding delivered_ok_def
  proof (intro allI impI)
    fix key r rs
    assume "results (rsm\<lparr>sm := restore (snap t) (sm rsm)\<rparr>) key = Some (r # rs)"
    then have k: "results rsm key = Some (r # rs)" by simp
    from delivered_okD [OF d this] obtain i where i: "i < k" "key = constructKey (cmds ! i) (int i + 1)"
      "k_Index key = int i + 1" "\<exists>s. exec doop (map op_Req (take i cmds)) fresh = Some s
         \<and> map_option snd (doop (op_Req (cmds ! i)) s) = Some r" by blast
    have "key \<in> W" using k W by blast
    then have "i < nat index" using w i(1,2) not_less by blast
    then show "\<exists>i < nat index. k_Index key = int i + 1 \<and> key = constructKey (cmds ! i) (int i + 1)
      \<and> (\<exists>s. exec doop (map op_Req (take i cmds)) fresh = Some s
           \<and> map_option snd (doop (op_Req (cmds ! i)) s) = Some r)"
      using i(2-4) by blast
  qed
  then show ?thesis using rel_restore [OF c assms(3,5)] by blast
qed

text \<open>Whatever such messages the channel carries, the state is that of the prefix.\<close>

lemma Read_prefix:
  assumes total: "exec doop (map op_Req cmds) fresh \<noteq> None"
    and "stream doop snap rel covers fresh W cmds k ms k'"
    and "exec doop (map op_Req (take k cmds)) fresh = Some s" and "rel (sm rsm) s"
    and "delivered_ok doop fresh cmds k rsm" and "dom (results rsm) \<subseteq> W"
  shows "\<exists>rsm' s'. Read doop snap restore ms rsm = Some rsm'
    \<and> exec doop (map op_Req (take k' cmds)) fresh = Some s' \<and> rel (sm rsm') s'
    \<and> delivered_ok doop fresh cmds k' rsm'"
  using assms(2-6)
proof (induction ms arbitrary: k s rsm)
  case Nil
  then show ?case by auto
next
  case (Cons x ms)
  obtain m b where x: "x = (m, b)" by fastforce
  show ?case
  proof (cases m)
    case (Committed op index)
    then have c: "k < length cmds" "op = cmds ! k" "index = int k + 1"
      and st: "stream doop snap rel covers fresh W cmds (Suc k) ms k'" using Cons.prems(1) x by simp_all
    obtain rsm1 call s1 where 1: "applyCommand doop snap b (cmds ! k) (int k + 1) rsm = Some (rsm1, call)"
      "exec doop (map op_Req (take (Suc k) cmds)) fresh = Some s1" "rel (sm rsm1) s1"
      "delivered_ok doop fresh cmds (Suc k) rsm1" "dom (results rsm1) = dom (results rsm)"
      using applyCommand_ok [OF total c(1) Cons.prems(2-4)] by blast
    have "dom (results rsm1) \<subseteq> W" using 1(5) Cons.prems(5) by simp
    from Cons.IH [OF st 1(2-4) this] show ?thesis using x Committed c 1(1) by simp
  next
    case (Restored d index)
    let ?j = "nat index" and ?rsm1 = "rsm\<lparr>sm := restore d (sm rsm)\<rparr>"
    obtain s1 t where c: "may_restore doop covers fresh W cmds k index"
      "exec doop (map op_Req (take ?j cmds)) fresh = Some s1" "rel t s1" "d = snap t"
      and st: "stream doop snap rel covers fresh W cmds ?j ms k'" using Cons.prems(1) x Restored by auto
    have r: "rel (sm ?rsm1) s1" "delivered_ok doop fresh cmds ?j ?rsm1" "dom (results ?rsm1) \<subseteq> W"
      using restore_ok [OF c(1) Cons.prems(2,3) c(2,3) Cons.prems(4,5)] Cons.prems(5) c(4) by simp_all
    from Cons.IH [OF st c(2) r] show ?thesis using x Restored by simp
  qed
qed

text \<open>From any prefix on: a fresh service starts at the empty one, a restarted service at its snapshot's.\<close>

lemma replicates:
  assumes "exec doop (map op_Req cmds) fresh \<noteq> None"
    and "stream doop snap rel covers fresh (dom (results rsm)) cmds k0 ms k"
    and "exec doop (map op_Req (take k0 cmds)) fresh = Some s0" and "rel (sm rsm) s0"
    and "\<forall>key. results rsm key = None \<or> results rsm key = Some []"
  shows "\<exists>rsm' s'. Read doop snap restore ms rsm = Some rsm'
    \<and> exec doop (map op_Req (take k cmds)) fresh = Some s' \<and> rel (sm rsm') s'
    \<and> (\<forall>key r rs. results rsm' key = Some (r # rs) \<longrightarrow>
        (\<exists>i < k. key = constructKey (cmds ! i) (int i + 1)
          \<and> (\<exists>s. exec doop (map op_Req (take i cmds)) fresh = Some s
               \<and> map_option snd (doop (op_Req (cmds ! i)) s) = Some r)))"
proof -
  obtain rsm' s' where R: "Read doop snap restore ms rsm = Some rsm'"
    "exec doop (map op_Req (take k cmds)) fresh = Some s'" "rel (sm rsm') s'"
    "delivered_ok doop fresh cmds k rsm'"
    using Read_prefix [OF assms(1-4) delivered_ok_empty [OF assms(5)] subset_refl] by blast
  have "\<exists>i < k. key = constructKey (cmds ! i) (int i + 1)
      \<and> (\<exists>s. exec doop (map op_Req (take i cmds)) fresh = Some s
           \<and> map_option snd (doop (op_Req (cmds ! i)) s) = Some r)"
    if "results rsm' key = Some (r # rs)" for key r rs
    using delivered_okD [OF R(4) that] by blast
  then show ?thesis using R(1-3) by blast
qed

text \<open>Restarting from a snapshot gives such a state.\<close>

lemma restart_rel:
  assumes "exec doop qs fresh = Some s" and "rel t s"
  shows "rel (sm (MakeRSM restore me maxr (Some (snap t)) fresh)) s"
  using rel_restore [OF covers_exec [OF assms(1)] rel_fresh assms(2)] by (simp add: MakeRSM_def)

end

interpretation counter_sm: state_machine counter_DoOp counter_Snapshot counter_Restore "\<lparr>counter = 0\<rparr>" "(=)" "\<lambda>_ _. True"
  by unfold_locales (auto simp: counter_Snapshot_def counter_Restore_def)

section \<open>Properties\<close>

text \<open>C23. The key of a result channel does not tell incarnations of a server apart: a server restarted with
  an empty \<^verbatim>\<open>RSM\<close> numbers its operations from 0 again, so when an operation of the previous incarnation is
  committed at the index where the new one waits, the new submitter is answered with \<^verbatim>\<open>OK\<close> and the result of
  the old request.\<close>

theorem rsm_restart_mixes_requests:
  fixes old new :: 'q and doop :: "'q \<Rightarrow> 's \<Rightarrow> ('s \<times> 'r) option"
  assumes "doop old (sm (MakeRSM restore me maxr snapshot s :: ('s, 'r) RSM)) = Some (s', r)"
  shows "\<exists>rsm1 key rsm2 call rsm3.
    Submit_start new (index, term, True) (MakeRSM restore me maxr snapshot s) = (rsm1, Inr (key, term))
    \<and> applyCommand doop snap bytes (Submit_op old (MakeRSM restore' me maxr' snapshot' t :: ('t, 'r) RSM))
        index rsm1 = Some (rsm2, call)
    \<and> Submit_wait key term Received rsm2 = Some (rsm3, Some (OK, Some r))"
  using assms
  by (simp add: Submit_start_def Let_def Submit_op_def MakeRSM_def applyCommand_def constructKey_def
      Submit_wait_def)

theorem rsm_restart_mixes_requests_witness:
  "\<exists>rsm1 key rsm2 call rsm3.
    Submit_start Null (5, 3, True) (MakeRSM counter_Restore 1 100 None \<lparr>counter = 0\<rparr>) = (rsm1, Inr (key, 3))
    \<and> applyCommand counter_DoOp counter_Snapshot 0
        (Submit_op Inc (MakeRSM counter_Restore 1 100 None \<lparr>counter = 0\<rparr> :: (rsmSrv, counter_rep) RSM))
        5 rsm1 = Some (rsm2, call)
    \<and> Submit_wait key 3 Received rsm2 = Some (rsm3, Some (OK, Some (IncRep 1)))"
proof -
  have "counter_DoOp Inc (sm (MakeRSM counter_Restore 1 100 None \<lparr>counter = 0\<rparr> :: (rsmSrv, counter_rep) RSM))
      = Some (\<lparr>counter = 1\<rparr>, IncRep 1)" by code_simp
  then show ?thesis by (rule rsm_restart_mixes_requests)
qed

end
