(* ===== verification/Kv_Raft.thy ===== *)
theory Kv_Raft
  imports Rsm Kv_Server
begin

text \<open>
  The replicated key/value service: the state machine and the RPC handlers of \<^verbatim>\<open>kvraft1/server.go\<close> and the
  clerk of \<^verbatim>\<open>kvraft1/client.go\<close>. The state machine is an interpretation of \<open>state_machine\<close> and of
  \<open>versioned_store\<close>, and gives the replies of the single server.
\<close>

section \<open>Definitions\<close>

record RData =
  rd_Version :: Tversion
  rd_Value :: string

record RKVServer =
  r_keyValue :: "string \<rightharpoonup> RData"

definition NewKVServer :: RKVServer where
  "NewKVServer = \<lparr>r_keyValue = Map.empty\<rparr>"

text \<open>\<^verbatim>\<open>req any\<close>: the two registered request types, and any other type.\<close>

datatype kv_req = RPut string string Tversion | RGet string | ROther

datatype kv_resp = PutResponse Err | GetResponse string Tversion Err

definition DoOp :: "kv_req \<Rightarrow> RKVServer \<Rightarrow> (RKVServer \<times> kv_resp) option" where
  "DoOp req kv =
     (case req of
        RPut key val version \<Rightarrow>
          let stored = kv\<lparr>r_keyValue := (r_keyValue kv)(key \<mapsto> \<lparr>rd_Version = version + 1, rd_Value = val\<rparr>)\<rparr>
          in (case r_keyValue kv key of
                None \<Rightarrow> if version \<noteq> 0 then Some (kv, PutResponse ErrNoKey) else Some (stored, PutResponse OK)
              | Some data \<Rightarrow>
                  if version \<noteq> rd_Version data then Some (kv, PutResponse ErrVersion)
                  else Some (stored, PutResponse OK))
      | RGet key \<Rightarrow>
          (case r_keyValue kv key of
             None \<Rightarrow> Some (kv, GetResponse '''' 0 ErrNoKey)
           | Some data \<Rightarrow> Some (kv, GetResponse (rd_Value data) (rd_Version data) OK))
      | ROther \<Rightarrow> None)"

definition kv_Snapshot :: "RKVServer \<Rightarrow> string \<rightharpoonup> RData" where
  "kv_Snapshot kv = r_keyValue kv"

text \<open>Decoding into a map that is not nil adds the entries to it.\<close>

definition kv_Restore :: "(string \<rightharpoonup> RData) \<Rightarrow> RKVServer \<Rightarrow> RKVServer" where
  "kv_Restore data kv = kv\<lparr>r_keyValue := r_keyValue kv ++ data\<rparr>"

text \<open>The handlers; \<open>submit\<close> is \<^verbatim>\<open>kv.rsm.Submit\<close>, and a failed type assertion panics.\<close>

definition Get_handler :: "(kv_req \<Rightarrow> Err \<times> kv_resp option) \<Rightarrow> GetArgs \<Rightarrow> GetReply option" where
  "Get_handler submit args =
     (let (err, getResponse) = submit (RGet (g_Key args))
      in if err = OK then
           (case getResponse of
              Some (GetResponse v ver e) \<Rightarrow> Some \<lparr>gr_Value = v, gr_Version = ver, gr_Err = e\<rparr>
            | _ \<Rightarrow> None)
         else Some \<lparr>gr_Value = '''', gr_Version = 0, gr_Err = err\<rparr>)"

definition Put_handler :: "(kv_req \<Rightarrow> Err \<times> kv_resp option) \<Rightarrow> PutArgs \<Rightarrow> Err option" where
  "Put_handler submit args =
     (let (err, putResponse) = submit (RPut (p_Key args) (p_Value args) (p_Version args))
      in if err = OK then (case putResponse of Some (PutResponse e) \<Rightarrow> Some e | _ \<Rightarrow> None)
         else Some err)"

subsection \<open>The clerk\<close>

text \<open>A call: \<open>None\<close> when \<^verbatim>\<open>Call\<close> returns false, else the reply. Calls the list does not cover are still to come.\<close>

record RClerk =
  nsrv :: nat
  leader :: int

definition MakeRClerk :: "nat \<Rightarrow> RClerk" where
  "MakeRClerk n = \<lparr>nsrv = n, leader = 0\<rparr>"

text \<open>\<^verbatim>\<open>ck.servers[ck.leader]\<close> is the server of the call; indexing past the end panics, as does \<^verbatim>\<open>% 0\<close>.\<close>

definition next_leader :: "RClerk \<Rightarrow> RClerk" where
  "next_leader ck = ck\<lparr>leader := (leader ck + 1) mod int (nsrv ck)\<rparr>"

fun RClerk_Get :: "GetReply option list \<Rightarrow> RClerk \<Rightarrow> ((string \<times> Tversion \<times> Err) \<times> RClerk) option" where
  "RClerk_Get [] ck = None"
| "RClerk_Get (c # cs) ck =
     (case c of
        None \<Rightarrow> RClerk_Get cs (next_leader ck)
      | Some reply \<Rightarrow>
          if gr_Err reply = ErrWrongLeader then RClerk_Get cs (next_leader ck)
          else Some ((gr_Value reply, gr_Version reply, gr_Err reply), ck))"

fun RClerk_Put_loop :: "Err option list \<Rightarrow> bool \<Rightarrow> RClerk \<Rightarrow> (Err \<times> RClerk) option" where
  "RClerk_Put_loop [] isFirstTry ck = None"
| "RClerk_Put_loop (c # cs) isFirstTry ck =
     (if c = None \<or> c = Some ErrWrongLeader then RClerk_Put_loop cs False (next_leader ck)
      else Some (if \<not> isFirstTry \<and> c = Some ErrVersion then ErrMaybe else the c, ck))"

definition RClerk_Put :: "Err option list \<Rightarrow> RClerk \<Rightarrow> (Err \<times> RClerk) option" where
  "RClerk_Put calls ck = RClerk_Put_loop calls True ck"

subsection \<open>Views\<close>

definition rkv_view :: "RKVServer \<Rightarrow> kv_view" where
  "rkv_view kv = (\<lambda>k. map_option (\<lambda>d. (rd_Value d, rd_Version d)) (r_keyValue kv k))"

definition to_single :: "RKVServer \<Rightarrow> KVServer" where
  "to_single kv = \<lparr>keyValue = (\<lambda>k. map_option (\<lambda>d. \<lparr>d_version = rd_Version d, d_value = rd_Value d\<rparr>)
     (r_keyValue kv k))\<rparr>"

definition rput :: "PutArgs \<Rightarrow> RKVServer \<Rightarrow> RKVServer \<times> Err" where
  "rput a kv = (case DoOp (RPut (p_Key a) (p_Value a) (p_Version a)) kv of
     Some (kv', PutResponse e) \<Rightarrow> (kv', e) | _ \<Rightarrow> (kv, NoErr))"

section \<open>Interpretations\<close>

lemma rput_single:
  "to_single (fst (rput a kv)) = fst (Put a (to_single kv))" "snd (rput a kv) = snd (Put a (to_single kv))"
  by (auto simp: rput_def DoOp_def Put_def to_single_def Let_def fun_eq_iff split: option.splits)

interpretation raftkv: versioned_store rkv_view "\<lambda>_ _. True" rput
  by unfold_locales (auto simp: rkv_view_def rput_def DoOp_def Let_def fun_eq_iff split: option.splits)

lemma map_add_dom_subset: "dom m \<subseteq> dom m' \<Longrightarrow> m ++ m' = m'"
  by (rule ext) (auto simp: map_add_def dom_def split: option.splits)

lemma DoOp_keeps_keys: "DoOp q kv = Some (kv', r) \<Longrightarrow> dom (r_keyValue kv) \<subseteq> dom (r_keyValue kv')"
  by (auto simp: DoOp_def Let_def split: kv_req.splits option.splits if_splits)

lemma exec_keeps_keys: "exec DoOp qs kv = Some kv' \<Longrightarrow> dom (r_keyValue kv) \<subseteq> dom (r_keyValue kv')"
proof (induction qs arbitrary: kv)
  case (Cons q qs)
  then obtain kv1 r where "DoOp q kv = Some (kv1, r)" "exec DoOp qs kv1 = Some kv'"
    by (auto simp: bind_Some_iff)
  then show ?case using Cons.IH DoOp_keeps_keys by blast
qed simp

text \<open>No key of \<open>kv\<close> is missing in \<open>kv'\<close>.\<close>

definition kv_covers :: "RKVServer \<Rightarrow> RKVServer \<Rightarrow> bool" where
  "kv_covers kv kv' \<longleftrightarrow> dom (r_keyValue kv) \<subseteq> dom (r_keyValue kv')"

interpretation raftkv_sm: state_machine DoOp kv_Snapshot kv_Restore NewKVServer "(=)" kv_covers
  by unfold_locales
    (auto simp: kv_Snapshot_def kv_Restore_def kv_covers_def map_add_dom_subset dest: exec_keeps_keys)

section \<open>The clerk\<close>

lemma clerk_loop_leader:
  assumes "\<forall>c \<in> set cs. c = None \<or> c = Some ErrWrongLeader" and "0 < nsrv ck"
    and "0 \<le> leader ck" and "leader ck < int (nsrv ck)" and "d \<noteq> None" and "d \<noteq> Some ErrWrongLeader"
  shows "RClerk_Put_loop (cs @ d # ds) first ck =
    Some (if (\<not> first \<or> cs \<noteq> []) \<and> d = Some ErrVersion then ErrMaybe else the d,
          ck\<lparr>leader := (leader ck + int (length cs)) mod int (nsrv ck)\<rparr>)"
  using assms(1,3,4)
proof (induction cs arbitrary: ck first)
  case Nil
  then show ?case using assms(5,6) by (auto simp: mod_pos_pos_trivial)
next
  case (Cons c cs)
  have n: "nsrv (next_leader ck) = nsrv ck" "0 \<le> leader (next_leader ck)"
    "leader (next_leader ck) < int (nsrv ck)"
    using Cons.prems by (simp_all add: next_leader_def)
  have "(leader (next_leader ck) + int (length cs)) mod int (nsrv ck)
      = (leader ck + int (length (c # cs))) mod int (nsrv ck)"
    by (simp add: next_leader_def mod_add_left_eq add.assoc)
  moreover have "next_leader ck\<lparr>leader := x\<rparr> = ck\<lparr>leader := x\<rparr>" for x by (simp add: next_leader_def)
  ultimately show ?case using Cons.IH [of "next_leader ck" False] Cons.prems n by simp
qed

section \<open>Properties\<close>

text \<open>C8. Replication is correct whichever prefixes of the committed log reach a replica as snapshots, and from
  whichever prefix it started: after the messages of the apply channel, the replica's map is that of executing
  the committed prefix from the empty map, no result channel ever blocks, and every result handed to a submitter
  is the sequential result of the committed operation that has the submitter's index and identifiers. A snapshot
  may be of a later prefix, or of an earlier one whose commands are then delivered again; in the second case no key
  may have been created in between and no submitter of this server may wait for one of those commands.\<close>

theorem kvraft_replicates:
  fixes rsm :: "(RKVServer, kv_resp) RSM" and cmds :: "kv_req Op list"
  assumes "exec DoOp (map op_Req cmds) NewKVServer \<noteq> None"
    and "stream DoOp kv_Snapshot (=) kv_covers NewKVServer (dom (results rsm)) cmds k0 ms k"
    and "exec DoOp (map op_Req (take k0 cmds)) NewKVServer = Some (sm rsm)"
    and "\<forall>key. results rsm key = None \<or> results rsm key = Some []"
  shows "\<exists>rsm'. Read DoOp kv_Snapshot kv_Restore ms rsm = Some rsm'
    \<and> exec DoOp (map op_Req (take k cmds)) NewKVServer = Some (sm rsm')
    \<and> (\<forall>key r rs. results rsm' key = Some (r # rs) \<longrightarrow>
        (\<exists>i < k. key = constructKey (cmds ! i) (int i + 1)
          \<and> (\<exists>s. exec DoOp (map op_Req (take i cmds)) NewKVServer = Some s
               \<and> map_option snd (DoOp (op_Req (cmds ! i)) s) = Some r)))"
  using raftkv_sm.replicates [OF assms(1-3) refl assms(4)] by metis

text \<open>A replica that starts from the snapshot of the first command, applies the second, is handed the same snapshot
  once more and applies the second again.\<close>

definition demo_kv_ops :: "kv_req Op list" where
  "demo_kv_ops = [\<lparr>op_Req = RPut ''x'' ''a'' 0, op_Id = 0, op_Me = 1\<rparr>,
     \<lparr>op_Req = RPut ''x'' ''b'' 1, op_Id = 0, op_Me = 2\<rparr>, \<lparr>op_Req = RGet ''x'', op_Id = 1, op_Me = 1\<rparr>]"

definition demo_kv_state :: "nat \<Rightarrow> RKVServer" where
  "demo_kv_state k = the (exec DoOp (map op_Req (take k demo_kv_ops)) NewKVServer)"

definition demo_kv_msgs :: "((kv_req, string \<rightharpoonup> RData) rsm_msg \<times> int) list" where
  "demo_kv_msgs = [(Committed (demo_kv_ops ! 1) 2, 0), (Restored (kv_Snapshot (demo_kv_state 1)) 1, 0),
     (Committed (demo_kv_ops ! 1) 2, 0)]"

theorem kvraft_replicates_witness:
  "\<exists>rsm'. Read DoOp kv_Snapshot kv_Restore demo_kv_msgs
      (MakeRSM kv_Restore 1 100 (Some (kv_Snapshot (demo_kv_state 1))) NewKVServer) = Some rsm'
    \<and> exec DoOp (map op_Req (take 2 demo_kv_ops)) NewKVServer = Some (sm rsm')"
proof -
  let ?rsm = "MakeRSM kv_Restore 1 100 (Some (kv_Snapshot (demo_kv_state 1))) NewKVServer :: (RKVServer, kv_resp) RSM"
  have "list_all (\<lambda>k. map_option (\<lambda>_. ()) (exec DoOp (map op_Req (take k demo_kv_ops)) NewKVServer) = Some ()) [1, 2, 3]"
    by code_simp
  then have st: "exec DoOp (map op_Req (take k demo_kv_ops)) NewKVServer = Some (demo_kv_state k)" if "k \<in> {1, 2, 3}" for k
    using that unfolding demo_kv_state_def by (auto simp: list_all_iff)
  have l: "length demo_kv_ops = 3" by (simp add: demo_kv_ops_def)
  have h: "exec DoOp (map op_Req demo_kv_ops) NewKVServer \<noteq> None" using st [of 3] l by simp
  have c: "kv_covers (demo_kv_state 2) (demo_kv_state 1)"
    by (auto simp: kv_covers_def demo_kv_state_def demo_kv_ops_def NewKVServer_def DoOp_def Let_def)
  have r: "dom (results ?rsm) = {}" "\<forall>key. results ?rsm key = None \<or> results ?rsm key = Some []"
    by (simp_all add: MakeRSM_def)
  have "may_restore DoOp kv_covers NewKVServer (dom (results ?rsm)) demo_kv_ops 2 1"
    using st [of 1] st [of 2] c r(1) by (simp add: may_restore_def)
  then have s: "stream DoOp kv_Snapshot (=) kv_covers NewKVServer (dom (results ?rsm)) demo_kv_ops 1 demo_kv_msgs 2"
    using st [of 1] l by (simp add: demo_kv_msgs_def numeral_2_eq_2)
  have i: "exec DoOp (map op_Req (take 1 demo_kv_ops)) NewKVServer = Some (sm ?rsm)"
    by (subst raftkv_sm.restart_rel [OF st refl]) (simp_all add: st [of 1, simplified])
  show ?thesis using kvraft_replicates [OF h s i r(2)] by blast
qed

text \<open>C25. The replicated service answers like the single server: executing a put or a get on the replicated
  state machine gives the reply, and the state, that \<^verbatim>\<open>kvsrv1\<close> gives on the same map, and once \<^verbatim>\<open>Submit\<close> has
  handed over that result the RPC handlers neither panic nor change it.\<close>

theorem kvraft_refines_kvsrv:
  "(\<exists>kv' e. DoOp (RPut key val version) kv = Some (kv', PutResponse e)
      \<and> Put \<lparr>p_Key = key, p_Value = val, p_Version = version\<rparr> (to_single kv) = (to_single kv', e))
   \<and> (let r = Get \<lparr>g_Key = key\<rparr> (to_single kv)
      in DoOp (RGet key) kv = Some (kv, GetResponse (gr_Value r) (gr_Version r) (gr_Err r)))
   \<and> Put_handler (\<lambda>q. (OK, map_option snd (DoOp q kv))) args = Some (snd (Put args (to_single kv)))
   \<and> Get_handler (\<lambda>q. (OK, map_option snd (DoOp q kv))) arg = Some (Get arg (to_single kv))"
  by (auto simp: DoOp_def Put_def Get_def Put_handler_def Get_handler_def to_single_def Let_def fun_eq_iff
      split: option.splits)

text \<open>The clerk's loop: after any number of failed calls and \<^verbatim>\<open>ErrWrongLeader\<close> replies it has moved on one
  server per failure, cyclically, and it returns at the first other reply, turning \<^verbatim>\<open>ErrVersion\<close> into
  \<^verbatim>\<open>ErrMaybe\<close> exactly when it is not the reply to the first call. In particular a row of failures as long as
  the list of servers has tried every server.\<close>

lemma kvraft_clerk_rotates:
  assumes "\<forall>c \<in> set cs. c = None \<or> c = Some ErrWrongLeader" and "0 < nsrv ck"
    and "0 \<le> leader ck" and "leader ck < int (nsrv ck)" and "d \<noteq> None" and "d \<noteq> Some ErrWrongLeader"
  shows "RClerk_Put (cs @ d # ds) ck =
      Some (if cs \<noteq> [] \<and> d = Some ErrVersion then ErrMaybe else the d,
            ck\<lparr>leader := (leader ck + int (length cs)) mod int (nsrv ck)\<rparr>)
    \<and> (\<forall>s. 0 \<le> s \<and> s < int (nsrv ck) \<longrightarrow> (\<exists>i < nsrv ck. (leader ck + int i) mod int (nsrv ck) = s))"
proof -
  have "\<exists>i < nsrv ck. (leader ck + int i) mod int (nsrv ck) = s" if "0 \<le> s" "s < int (nsrv ck)" for s
  proof (intro exI [of _ "nat ((s - leader ck) mod int (nsrv ck))"] conjI)
    show "nat ((s - leader ck) mod int (nsrv ck)) < nsrv ck" using assms(2) by (simp add: nat_less_iff)
    have "(leader ck + (s - leader ck) mod int (nsrv ck)) mod int (nsrv ck) = s mod int (nsrv ck)"
      by (simp add: mod_add_right_eq)
    then show "(leader ck + int (nat ((s - leader ck) mod int (nsrv ck)))) mod int (nsrv ck) = s"
      using that assms(2) by (simp add: mod_pos_pos_trivial)
  qed
  then show ?thesis using clerk_loop_leader [OF assms] unfolding RClerk_Put_def by simp
qed

end
