(* ===== verification/Kv_Cluster.thy ===== *)
theory Kv_Cluster
  imports Raft_Safety Kv_Raft
begin

text \<open>
  The replicated key/value service on a Raft cluster: what the cluster delivers to a server (\<^verbatim>\<open>raft1/raft.go\<close>,
  \<^verbatim>\<open>applyTicker\<close>) is what the service's reading goroutine (\<^verbatim>\<open>kvraft1/rsm/rsm.go\<close>, \<^verbatim>\<open>Read\<close>) gets from the apply
  channel. The commands of the cluster are numbers that stand for operations.
\<close>

section \<open>Definitions\<close>



section \<open>A snapshot that goes back\<close>





section \<open>Properties\<close>



end
