(* ===== verification/Shard_Cfg.thy ===== *)
theory Shard_Cfg
  imports Go_Prelude
begin

text \<open>
  Shard configurations (\<^verbatim>\<open>shardkv1/shardcfg/shardcfg.go\<close>): the hash from keys to shards, joining and leaving
  groups, and the rebalancing loop, which is shown to end and to leave the shards spread evenly. A Go map
  is an association list with distinct keys; a list given for a map is also the order of an iteration over
  it, so a statement about all such lists is one about all iteration orders.
\<close>

section \<open>Definitions\<close>

definition NShards :: nat where
  "NShards = 12"

definition Key2Shard :: "string \<Rightarrow> int" where
  "Key2Shard key = uint (fnv32a (bytes_of_string key)) mod int NShards"

record ShardConfig =
  Num :: int
  Shards :: "int list"
  Groups :: "(int \<times> string list) list"

definition MakeShardConfig :: ShardConfig where
  "MakeShardConfig = \<lparr>Num = 0, Shards = replicate NShards 0, Groups = []\<rparr>"

definition Copy :: "ShardConfig \<Rightarrow> ShardConfig" where
  "Copy cfg = fold (\<lambda>(k, srvs) c. c\<lparr>Groups := Groups c @ [(k, srvs)]\<rparr>) (Groups cfg)
     (MakeShardConfig\<lparr>Num := Num cfg, Shards := Shards cfg\<rparr>)"

fun counts_loop :: "int list \<Rightarrow> (int \<Rightarrow> int) \<Rightarrow> int \<Rightarrow> int" where
  "counts_loop [] counts = counts"
| "counts_loop (g # gs) counts = counts_loop gs (counts(g := counts g + 1))"

fun analyze_loop :: "(int \<Rightarrow> int) \<Rightarrow> int list \<Rightarrow> int \<times> int \<times> int \<times> int \<Rightarrow> int \<times> int \<times> int \<times> int" where
  "analyze_loop counts [] acc = acc"
| "analyze_loop counts (g # gs) (mg, mn, lg, ln) =
     (let (ln', lg') = (if counts g < ln then (counts g, g) else (ln, lg));
          (mn', mg') = (if counts g > mn then (counts g, g) else (mn, mg))
      in analyze_loop counts gs (mg', mn', lg', ln'))"

definition analyze :: "ShardConfig \<Rightarrow> int \<times> int \<times> int \<times> int" where
  "analyze c =
     (let counts = counts_loop (Shards c) (\<lambda>_. 0);
          groups = sort (map fst (Groups c))
      in analyze_loop counts groups (-1, -1, -1, 257))"

definition least :: "ShardConfig \<Rightarrow> int" where
  "least c = (let (_, _, lg, _) = analyze c in lg)"

text \<open>The loop that gives each shard of an unknown group to the group with the fewest shards.\<close>

fun assign_loop :: "(nat \<times> int) list \<Rightarrow> ShardConfig \<Rightarrow> ShardConfig" where
  "assign_loop [] c = c"
| "assign_loop ((s, g) # rest) c =
     (if map_of (Groups c) g = None
      then assign_loop rest (c\<lparr>Shards := (Shards c)[s := least c]\<rparr>)
      else assign_loop rest c)"

text \<open>Moving the first shard of group \<open>mg\<close> to \<open>lg\<close>.\<close>

fun move_one :: "int \<Rightarrow> int \<Rightarrow> int list \<Rightarrow> int list" where
  "move_one mg lg [] = []"
| "move_one mg lg (g # gs) = (if g = mg then lg # gs else g # move_one mg lg gs)"

definition Join_conflict :: "string list \<Rightarrow> ShardConfig \<Rightarrow> bool" where
  "Join_conflict servers cfg \<longleftrightarrow> (\<exists>(xgid, xservers) \<in> set (Groups cfg). \<exists>s1 \<in> set xservers. s1 \<in> set servers)"

text \<open>\<open>None\<close> is \<^verbatim>\<open>log.Fatalf\<close>; the flag is the result, with the configuration as the call leaves it.\<close>

fun Join_loop :: "(int \<times> string list) list \<Rightarrow> bool \<Rightarrow> ShardConfig \<Rightarrow> (bool \<times> ShardConfig) option" where
  "Join_loop [] changed cfg = (if \<not> changed then None else Some (True, cfg\<lparr>Num := Num cfg + 1\<rparr>))"
| "Join_loop ((gid, servers) # rest) changed cfg =
     (if map_of (Groups cfg) gid \<noteq> None then Some (False, cfg)
      else if Join_conflict servers cfg then None
      else Join_loop rest True (cfg\<lparr>Groups := Groups cfg @ [(gid, servers)]\<rparr>))"

definition Join :: "(int \<times> string list) list \<Rightarrow> ShardConfig \<Rightarrow> (bool \<times> ShardConfig) option" where
  "Join servers cfg = Join_loop servers False cfg"

fun Leave_loop :: "int list \<Rightarrow> bool \<Rightarrow> ShardConfig \<Rightarrow> (bool \<times> ShardConfig) option" where
  "Leave_loop [] changed cfg = (if \<not> changed then None else Some (True, cfg\<lparr>Num := Num cfg + 1\<rparr>))"
| "Leave_loop (gid # rest) changed cfg =
     (if map_of (Groups cfg) gid = None then Some (False, cfg)
      else Leave_loop rest True (cfg\<lparr>Groups := filter (\<lambda>(g, _). g \<noteq> gid) (Groups cfg)\<rparr>))"

definition Leave :: "int list \<Rightarrow> ShardConfig \<Rightarrow> (bool \<times> ShardConfig) option" where
  "Leave gids cfg = Leave_loop gids False cfg"

definition GidServers :: "ShardConfig \<Rightarrow> int \<Rightarrow> (int \<times> string list \<times> bool) option" where
  "GidServers cfg sh = do {
     gid \<leftarrow> go_nth (Shards cfg) sh;
     Some (gid, case map_of (Groups cfg) gid of None \<Rightarrow> [] | Some srvs \<Rightarrow> srvs, map_of (Groups cfg) gid \<noteq> None)
   }"

fun IsMember_loop :: "int list \<Rightarrow> int \<Rightarrow> bool" where
  "IsMember_loop [] gid = False"
| "IsMember_loop (g # gs) gid = (if g = gid then True else IsMember_loop gs gid)"

definition IsMember :: "ShardConfig \<Rightarrow> int \<Rightarrow> bool" where
  "IsMember cfg gid = IsMember_loop (Shards cfg) gid"

fun minmax_loop :: "(int \<Rightarrow> int) \<Rightarrow> int list \<Rightarrow> int \<times> int \<Rightarrow> int \<times> int" where
  "minmax_loop counts [] acc = acc"
| "minmax_loop counts (g # gs) (mx, mn) =
     minmax_loop counts gs (if counts g > mx then counts g else mx, if counts g < mn then counts g else mn)"

text \<open>\<open>False\<close> is a fatal test failure.\<close>

definition CheckConfig :: "ShardConfig \<Rightarrow> int list \<Rightarrow> bool" where
  "CheckConfig cfg groups =
     (length (Groups cfg) = length groups
      \<and> list_all (\<lambda>g. map_of (Groups cfg) g \<noteq> None) groups
      \<and> (0 < length groups \<longrightarrow> list_all (\<lambda>g. map_of (Groups cfg) g \<noteq> None) (Shards cfg))
      \<and> (let (mx, mn) = minmax_loop (counts_loop (Shards cfg) (\<lambda>_. 0)) (map fst (Groups cfg)) (0, 257)
         in \<not> mx > mn + 1))"

section \<open>Counting and analysing\<close>

lemma counts_loop_count: "counts_loop gs c g = c g + int (count_list gs g)"
  by (induction gs arbitrary: c) auto

text \<open>The counts of groups that occur in the list, with their extremes.\<close>

lemma analyze_loop_spec:
  assumes "analyze_loop c gs (mg, mn, lg, ln) = (mg', mn', lg', ln')"
  shows "(\<forall>g \<in> set gs. ln' \<le> c g \<and> c g \<le> mn') \<and> ln' \<le> ln \<and> mn \<le> mn'
    \<and> (lg' \<in> set gs \<and> ln' = c lg' \<or> lg' = lg \<and> ln' = ln)
    \<and> (mg' \<in> set gs \<and> mn' = c mg' \<or> mg' = mg \<and> mn' = mn)"
  using assms
proof (induction gs arbitrary: mg mn lg ln)
  case (Cons g gs)
  show ?case
    using Cons.IH Cons.prems by (fastforce simp: Let_def split: if_splits)
qed simp

lemma analyze_spec:
  assumes "analyze c = (mg, mn, lg, ln)" and "Groups c \<noteq> []" and "length (Shards c) < 257"
  shows "mg \<in> fst ` set (Groups c)" and "lg \<in> fst ` set (Groups c)"
    and "mn = int (count_list (Shards c) mg)" and "ln = int (count_list (Shards c) lg)"
    and "\<And>g. g \<in> fst ` set (Groups c) \<Longrightarrow> ln \<le> int (count_list (Shards c) g) \<and> int (count_list (Shards c) g) \<le> mn"
proof -
  let ?c = "counts_loop (Shards c) (\<lambda>_. 0)" and ?gs = "sort (map fst (Groups c))"
  have S: "(\<forall>g \<in> set ?gs. ln \<le> ?c g \<and> ?c g \<le> mn) \<and> ln \<le> 257 \<and> -1 \<le> mn
    \<and> (lg \<in> set ?gs \<and> ln = ?c lg \<or> lg = -1 \<and> ln = 257) \<and> (mg \<in> set ?gs \<and> mn = ?c mg \<or> mg = -1 \<and> mn = -1)"
    using assms(1) unfolding analyze_def Let_def by (rule analyze_loop_spec)
  have c: "?c g = int (count_list (Shards c) g)" for g by (simp add: counts_loop_count)
  have "set ?gs \<noteq> {}" using assms(2) by simp
  then obtain g0 where g0: "g0 \<in> set ?gs" unfolding ex_in_conv [symmetric] by (rule exE)
  have "count_list (Shards c) g0 \<le> length (Shards c)" by (rule count_le_length)
  then have b: "ln < 257" "-1 < mn" using S g0 assms(3) by (force simp: c)+
  show "mg \<in> fst ` set (Groups c)" "lg \<in> fst ` set (Groups c)"
    "mn = int (count_list (Shards c) mg)" "ln = int (count_list (Shards c) lg)"
    using S b by (auto simp: c)
  show "ln \<le> int (count_list (Shards c) g) \<and> int (count_list (Shards c) g) \<le> mn"
    if "g \<in> fst ` set (Groups c)" for g
    using S that by (auto simp: c)
qed

lemma move_one_length [simp]: "length (move_one mg lg gs) = length gs"
  by (induction gs) auto

lemma move_one_set: "set (move_one mg lg gs) \<subseteq> insert lg (set gs)"
  by (induction gs) auto

lemma move_one_count:
  assumes "mg \<in> set gs" and "mg \<noteq> lg"
  shows "count_list (move_one mg lg gs) g =
    (if g = mg then count_list gs g - 1 else if g = lg then count_list gs g + 1 else count_list gs g)"
  using assms
proof (induction gs)
  case (Cons x gs)
  have "0 < count_list gs mg" if "mg \<in> set gs" using that count_list_0_iff [of gs mg] by simp
  then show ?case using Cons by auto
qed simp

section \<open>Rebalancing\<close>

text \<open>What shrinks with every move: the sum of the squares of the groups' loads.\<close>

definition spread :: "ShardConfig \<Rightarrow> nat" where
  "spread c = (\<Sum>g \<in> fst ` set (Groups c). (count_list (Shards c) g)\<^sup>2)"

lemma move_shrinks:
  assumes a: "analyze c = (mg, mn, lg, ln)" "\<not> mn < ln + 2"
    and c: "Groups c \<noteq> []" "length (Shards c) < 257"
  shows "spread (c\<lparr>Shards := move_one mg lg (Shards c)\<rparr>) < spread c"
proof -
  let ?G = "fst ` set (Groups c)" and ?f = "\<lambda>g. count_list (Shards c) g"
  let ?f' = "\<lambda>g. count_list (move_one mg lg (Shards c)) g"
  note A = analyze_spec [OF a(1) c]
  have ne: "mg \<noteq> lg" using A(3,4) a(2) by auto
  have "0 < ?f mg" using A(3,4) a(2) by simp
  then have "mg \<in> set (Shards c)" using count_list_0_iff [of "Shards c" mg] by auto
  note M = move_one_count [OF this ne]
  have rest: "(\<Sum>g \<in> ?G - {mg, lg}. (?f' g)\<^sup>2) = (\<Sum>g \<in> ?G - {mg, lg}. (?f g)\<^sup>2)"
    by (rule sum.cong) (auto simp: M)
  have split: "(\<Sum>g \<in> ?G. h g) = h mg + (if lg \<in> ?G then h lg else 0) + (\<Sum>g \<in> ?G - {mg, lg}. h g)"
    for h :: "int \<Rightarrow> nat"
  proof -
    have "(\<Sum>g \<in> ?G. h g) = h mg + (\<Sum>g \<in> ?G - {mg}. h g)"
      using A(1) by (intro sum.remove) auto
    moreover have "(\<Sum>g \<in> ?G - {mg}. h g) = (if lg \<in> ?G then h lg else 0) + (\<Sum>g \<in> ?G - {mg} - {lg}. h g)"
      using ne by (cases "lg \<in> ?G") (auto simp: sum.remove [of _ lg])
    moreover have "?G - {mg} - {lg} = ?G - {mg, lg}" by blast
    ultimately show ?thesis by simp
  qed
  obtain k where k: "?f mg = Suc k" using \<open>0 < ?f mg\<close> by (cases "?f mg") auto
  have "(?f' mg)\<^sup>2 + (if lg \<in> ?G then (?f' lg)\<^sup>2 else 0) < (?f mg)\<^sup>2 + (if lg \<in> ?G then (?f lg)\<^sup>2 else 0)"
  proof (cases "lg \<in> ?G")
    case True
    then have "?f lg + 2 \<le> ?f mg" using A(3,4) a(2) by simp
    then show ?thesis using True ne k by (simp add: M power2_eq_square)
  next
    case False
    then show ?thesis using ne k by (simp add: M power2_eq_square)
  qed
  then show ?thesis unfolding spread_def by (simp add: split rest)
qed

text \<open>The loop as the code has it, which may run for ever on some input: not returning is \<open>None\<close>.\<close>

partial_function (option) balance_loop :: "ShardConfig \<Rightarrow> ShardConfig option" where
  "balance_loop c =
     (let (mg, mn, lg, ln) = analyze c
      in if mn < ln + 2 then Some c
         else balance_loop (c\<lparr>Shards := move_one mg lg (Shards c)\<rparr>))"

declare balance_loop.simps [code]

definition Rebalance :: "ShardConfig \<Rightarrow> ShardConfig option" where
  "Rebalance c =
     (if length (Groups c) < 1 then Some (c\<lparr>Shards := map (\<lambda>_. 0) (Shards c)\<rparr>)
      else balance_loop (assign_loop (enumerate 0 (Shards c)) c))"

definition JoinBalance :: "(int \<times> string list) list \<Rightarrow> ShardConfig \<Rightarrow> (bool \<times> ShardConfig) option" where
  "JoinBalance servers cfg = do {
     (ok, cfg1) \<leftarrow> Join servers cfg;
     (if \<not> ok then Some (False, cfg1) else do { cfg2 \<leftarrow> Rebalance cfg1; Some (True, cfg2) })
   }"

definition LeaveBalance :: "int list \<Rightarrow> ShardConfig \<Rightarrow> (bool \<times> ShardConfig) option" where
  "LeaveBalance gids cfg = do {
     (ok, cfg1) \<leftarrow> Leave gids cfg;
     (if \<not> ok then Some (False, cfg1) else do { cfg2 \<leftarrow> Rebalance cfg1; Some (True, cfg2) })
   }"

text \<open>A configuration every shard of which has a group.\<close>

definition assigned :: "ShardConfig \<Rightarrow> bool" where
  "assigned c \<longleftrightarrow> set (Shards c) \<subseteq> fst ` set (Groups c)"

definition balanced :: "ShardConfig \<Rightarrow> bool" where
  "balanced c \<longleftrightarrow> (\<forall>g \<in> fst ` set (Groups c). \<forall>h \<in> fst ` set (Groups c).
     count_list (Shards c) g \<le> count_list (Shards c) h + 1)"

lemma balance_loop_ok:
  assumes "Groups c \<noteq> []" and "length (Shards c) < 257" and "assigned c"
  shows "\<exists>c'. balance_loop c = Some c' \<and> Groups c' = Groups c \<and> Num c' = Num c
    \<and> length (Shards c') = length (Shards c) \<and> assigned c' \<and> balanced c'"
  using assms
proof (induction c rule: measure_induct_rule [of spread])
  case (less c)
  obtain mg mn lg ln where a: "analyze c = (mg, mn, lg, ln)" by (metis prod_cases4)
  note A = analyze_spec [OF a less.prems(1,2)]
  show ?case
  proof (cases "mn < ln + 2")
    case True
    have "balanced c"
      unfolding balanced_def
    proof (intro ballI)
      fix g h assume "g \<in> fst ` set (Groups c)" "h \<in> fst ` set (Groups c)"
      with A(5) [of g] A(5) [of h] True show "count_list (Shards c) g \<le> count_list (Shards c) h + 1" by linarith
    qed
    then show ?thesis using True less.prems a by (simp add: balance_loop.simps [of c])
  next
    case False
    let ?c = "c\<lparr>Shards := move_one mg lg (Shards c)\<rparr>"
    have "assigned ?c" using less.prems(3) A(2) move_one_set [of mg lg "Shards c"] by (auto simp: assigned_def)
    moreover have "balance_loop c = balance_loop ?c" using False a by (simp add: balance_loop.simps [of c])
    ultimately show ?thesis
      using less.IH [OF move_shrinks [OF a False less.prems(1,2)]] less.prems by simp
  qed
qed

lemma assign_loop_frame [simp]:
  "Groups (assign_loop sgs c) = Groups c" "Num (assign_loop sgs c) = Num c"
  "length (Shards (assign_loop sgs c)) = length (Shards c)"
  by (induction sgs c rule: assign_loop.induct) auto

lemma map_of_group: "map_of gs g = None \<longleftrightarrow> g \<notin> fst ` set gs"
  by (simp add: map_of_eq_None_iff)

text \<open>After the loop over the shards from \<open>k\<close> on, those below \<open>k\<close> are as they were and the others have a group.\<close>

lemma assign_loop_ok:
  assumes "Groups c \<noteq> []" and "length (Shards c) < 257" and "xs = drop k (Shards c)"
    and "set (take k (Shards c)) \<subseteq> fst ` set (Groups c)"
  shows "assigned (assign_loop (enumerate k xs) c)"
  using assms
proof (induction xs arbitrary: k c)
  case Nil
  then show ?case by (simp add: assigned_def)
next
  case (Cons g xs)
  let ?G = "fst ` set (Groups c)"
  have k: "k < length (Shards c)" "Shards c ! k = g" "xs = drop (Suc k) (Shards c)"
  proof -
    show l: "k < length (Shards c)" using Cons.prems(3) by (metis drop_all leI list.distinct(1))
    have "g # xs = Shards c ! k # drop (Suc k) (Shards c)"
      unfolding Cons_nth_drop_Suc [OF l] by (rule Cons.prems(3))
    then show "Shards c ! k = g" "xs = drop (Suc k) (Shards c)" by simp_all
  qed
  show ?case
  proof (cases "g \<in> ?G")
    case True
    then have "set (take (Suc k) (Shards c)) \<subseteq> ?G"
      using Cons.prems(4) k by (simp add: take_Suc_conv_app_nth)
    from Cons.IH [OF Cons.prems(1,2) k(3) this] show ?thesis
      using True by (simp add: map_of_group)
  next
    case False
    let ?c = "c\<lparr>Shards := (Shards c)[k := least c]\<rparr>"
    obtain mg mn lg ln where a: "analyze c = (mg, mn, lg, ln)" by (metis prod_cases4)
    have "least c \<in> ?G" using analyze_spec(2) [OF a Cons.prems(1,2)] by (simp add: least_def a)
    then have "set (take (Suc k) (Shards ?c)) \<subseteq> fst ` set (Groups ?c)"
      using Cons.prems(4) k(1) by (simp add: take_Suc_conv_app_nth)
    moreover have "xs = drop (Suc k) (Shards ?c)" using k(3) by simp
    ultimately show ?thesis
      using Cons.IH [of ?c "Suc k"] Cons.prems(1,2) False by (simp add: map_of_group)
  qed
qed

lemma Rebalance_ok:
  assumes "length (Shards c) = NShards" and "Groups c \<noteq> []"
  shows "\<exists>c'. Rebalance c = Some c' \<and> Groups c' = Groups c \<and> Num c' = Num c
    \<and> length (Shards c') = NShards \<and> assigned c' \<and> balanced c'"
proof -
  have l: "length (Shards c) < 257" using assms(1) by (simp add: NShards_def)
  have "assigned (assign_loop (enumerate 0 (Shards c)) c)"
    by (rule assign_loop_ok [OF assms(2) l]) simp_all
  then show ?thesis
    using balance_loop_ok [of "assign_loop (enumerate 0 (Shards c)) c"] assms l by (simp add: Rebalance_def)
qed

lemma minmax_loop_spec:
  assumes "minmax_loop c gs (mx, mn) = (mx', mn')"
  shows "(mx' = mx \<or> mx' \<in> c ` set gs) \<and> (mn' = mn \<or> mn' \<in> c ` set gs) \<and> mn' \<le> mn
    \<and> (\<forall>g \<in> set gs. mn' \<le> c g)"
  using assms
proof (induction gs arbitrary: mx mn)
  case (Cons g gs)
  let ?mx = "if c g > mx then c g else mx" and ?mn = "if c g < mn then c g else mn"
  have "minmax_loop c gs (?mx, ?mn) = (mx', mn')" using Cons.prems by simp
  from Cons.IH [OF this] show ?case by (auto split: if_splits)
qed simp

lemma balanced_passes:
  assumes "distinct (map fst (Groups c))" and "length (Shards c) < 257" and "assigned c" and "balanced c"
  shows "CheckConfig c (map fst (Groups c))"
proof -
  let ?c = "counts_loop (Shards c) (\<lambda>_. 0)" and ?gs = "map fst (Groups c)"
  obtain mx mn where m: "minmax_loop ?c ?gs (0, 257) = (mx, mn)" by fastforce
  have c: "?c g = int (count_list (Shards c) g)" for g by (simp add: counts_loop_count)
  note M = minmax_loop_spec [OF m]
  have "\<not> mx > mn + 1"
  proof (cases "mx \<in> ?c ` set ?gs")
    case True
    then obtain g where g: "g \<in> set ?gs" "mx = ?c g" by auto
    have "mn \<noteq> 257" using M g count_le_length [of "Shards c" g] assms(2) by (auto simp: c)
    then obtain h where h: "h \<in> set ?gs" "mn = ?c h" using M by auto
    have "count_list (Shards c) g \<le> count_list (Shards c) h + 1"
      using assms(4) g(1) h(1) unfolding balanced_def set_map by blast
    then show ?thesis by (simp add: g h c)
  next
    case False
    then have "mx = 0" "0 \<le> mn" using M by (auto simp: c)
    then show ?thesis by simp
  qed
  moreover have "list_all (\<lambda>g. map_of (Groups c) g \<noteq> None) (Shards c)"
    using assms(3) by (auto simp: list_all_iff assigned_def map_of_group)
  ultimately show ?thesis by (auto simp: CheckConfig_def m list_all_iff map_of_group)
qed

lemma Key2Shard_range: "0 \<le> Key2Shard key \<and> Key2Shard key < int NShards"
  by (simp add: Key2Shard_def NShards_def)

lemma assigned_serves:
  assumes "length (Shards c) = NShards" and "assigned c"
  shows "\<exists>gid srvs. GidServers c (Key2Shard key) = Some (gid, srvs, True) \<and> map_of (Groups c) gid = Some srvs"
proof -
  let ?g = "Shards c ! nat (Key2Shard key)"
  have k: "go_nth (Shards c) (Key2Shard key) = Some ?g"
    using Key2Shard_range [of key] assms(1) by (simp add: go_nth_def go_len_def)
  have "?g \<in> set (Shards c)" using Key2Shard_range [of key] assms(1) by (auto intro!: nth_mem)
  then obtain srvs where "map_of (Groups c) ?g = Some srvs"
    using assms(2) map_of_group [of "Groups c" ?g] by (cases "map_of (Groups c) ?g") (auto simp: assigned_def)
  then show ?thesis by (simp add: GidServers_def k)
qed

lemma Join_loop_ok:
  assumes "Join_loop servers changed cfg = Some (True, cfg')"
  shows "Groups cfg' = Groups cfg @ servers \<and> Num cfg' = Num cfg + 1 \<and> Shards cfg' = Shards cfg
    \<and> (servers = [] \<longrightarrow> changed) \<and> (distinct (map fst (Groups cfg)) \<longrightarrow> distinct (map fst (Groups cfg')))"
  using assms
proof (induction servers changed cfg rule: Join_loop.induct)
  case (2 gid srvs rest changed cfg)
  then show ?case by (auto simp: map_of_group split: if_splits) force+
qed (auto split: if_splits)

lemma Leave_loop_ok:
  assumes "Leave_loop gids changed cfg = Some (True, cfg')"
  shows "Groups cfg' = filter (\<lambda>(g, _). g \<notin> set gids) (Groups cfg) \<and> Num cfg' = Num cfg + 1
    \<and> Shards cfg' = Shards cfg"
  using assms
proof (induction gids changed cfg rule: Leave_loop.induct)
  case (2 gid rest changed cfg)
  then show ?case by (auto simp: case_prod_unfold conj_commute split: if_splits)
qed (auto split: if_splits)

section \<open>Properties\<close>

text \<open>C28. \<^verbatim>\<open>Rebalance\<close> ends on every configuration with at least one group, whatever its shards were assigned
  to, changes only the assignment, and leaves one that \<^verbatim>\<open>CheckConfig\<close> accepts: every shard belongs to a
  group and the groups' loads differ by at most one.\<close>

theorem rebalance_ends_balanced:
  assumes "length (Shards c) = NShards" and "Groups c \<noteq> []" and "distinct (map fst (Groups c))"
  shows "\<exists>c'. Rebalance c = Some c' \<and> Groups c' = Groups c \<and> Num c' = Num c \<and> length (Shards c') = NShards
    \<and> set (Shards c') \<subseteq> fst ` set (Groups c)
    \<and> (\<forall>g \<in> fst ` set (Groups c). \<forall>h \<in> fst ` set (Groups c).
         count_list (Shards c') g \<le> count_list (Shards c') h + 1)
    \<and> CheckConfig c' (map fst (Groups c))"
proof -
  obtain c' where R: "Rebalance c = Some c'" "Groups c' = Groups c" "Num c' = Num c"
    "length (Shards c') = NShards" "assigned c'" "balanced c'"
    using Rebalance_ok [OF assms(1,2)] by blast
  have "length (Shards c') < 257" using R(4) by (simp add: NShards_def)
  then have "CheckConfig c' (map fst (Groups c))"
    using balanced_passes [of c'] R assms(3) by simp
  then show ?thesis using R by (simp add: assigned_def balanced_def)
qed

definition demo_config :: ShardConfig where
  "demo_config = \<lparr>Num = 3, Shards = replicate 11 1 @ [7], Groups = [(1, [''a'']), (2, [''b'']), (5, [''c''])]\<rparr>"

theorem rebalance_ends_balanced_witness:
  "\<exists>c'. Rebalance demo_config = Some c' \<and> CheckConfig c' [1, 2, 5]"
proof -
  have h: "length (Shards demo_config) = NShards" "Groups demo_config \<noteq> []"
    "distinct (map fst (Groups demo_config))" "map fst (Groups demo_config) = [1, 2, 5]"
    by code_simp+
  show ?thesis using rebalance_ends_balanced [OF h(1-3)] unfolding h(4) by blast
qed

text \<open>C29. When \<^verbatim>\<open>Join\<close> accepts the joining groups, \<^verbatim>\<open>JoinBalance\<close> returns with a configuration that has exactly these
  groups more and the next number, and that \<^verbatim>\<open>CheckConfig\<close> accepts. If every group has servers, each key is served:
  the shard of any key is in range and belongs to a group of the configuration with a list of servers that is not
  empty.\<close>

theorem join_balance_serves_every_key:
  assumes "length (Shards cfg) = NShards" and "distinct (map fst (Groups cfg))"
    and "\<forall>g \<in> set (Groups cfg @ servers). snd g \<noteq> []" and "Join servers cfg = Some (True, cfg1)"
  shows "\<exists>cfg'. JoinBalance servers cfg = Some (True, cfg') \<and> Num cfg' = Num cfg + 1
    \<and> Groups cfg' = Groups cfg @ servers \<and> length (Shards cfg') = NShards
    \<and> CheckConfig cfg' (map fst (Groups cfg @ servers))
    \<and> (\<forall>key. \<exists>gid srvs. GidServers cfg' (Key2Shard key) = Some (gid, srvs, True)
         \<and> (gid, srvs) \<in> set (Groups cfg @ servers) \<and> srvs \<noteq> [])"
proof -
  have J: "Join_loop servers False cfg = Some (True, cfg1)"
    using assms(4) by (auto simp: Join_def split: if_splits)
  note C = Join_loop_ok [OF J]
  have "Groups cfg1 \<noteq> []" "length (Shards cfg1) = NShards" using C assms(1) by auto
  then obtain c' where R: "Rebalance cfg1 = Some c'" "Groups c' = Groups cfg1" "Num c' = Num cfg1"
    "length (Shards c') = NShards" "assigned c'" "balanced c'"
    using Rebalance_ok [of cfg1] by blast
  have "length (Shards c') < 257" using R(4) by (simp add: NShards_def)
  then have "CheckConfig c' (map fst (Groups cfg @ servers))"
    using balanced_passes [of c'] R C assms(2) by metis
  moreover have "\<exists>gid srvs. GidServers c' (Key2Shard key) = Some (gid, srvs, True)
      \<and> (gid, srvs) \<in> set (Groups cfg @ servers) \<and> srvs \<noteq> []" for key
  proof -
    obtain gid srvs where g: "GidServers c' (Key2Shard key) = Some (gid, srvs, True)" "map_of (Groups c') gid = Some srvs"
      using assigned_serves [OF R(4,5)] by blast
    have "(gid, srvs) \<in> set (Groups cfg @ servers)" using map_of_SomeD [OF g(2)] R(2) C by simp
    then show ?thesis using g(1) assms(3) by fastforce
  qed
  ultimately show ?thesis using R C assms(4) by (simp add: JoinBalance_def)
qed

theorem join_balance_serves_every_key_witness:
  "\<exists>cfg'. JoinBalance [(8, [''z''])] demo_config = Some (True, cfg') \<and> Num cfg' = 4 \<and> CheckConfig cfg' [1, 2, 5, 8]
    \<and> (\<exists>gid srvs. GidServers cfg' (Key2Shard ''key'') = Some (gid, srvs, True) \<and> srvs \<noteq> [])"
proof -
  let ?s = "[(8, [''z''])]"
  have h: "length (Shards demo_config) = NShards" "distinct (map fst (Groups demo_config))"
    "\<forall>g \<in> set (Groups demo_config @ ?s). snd g \<noteq> []" "map_option fst (Join ?s demo_config) = Some True"
    "Num demo_config + 1 = 4" "map fst (Groups demo_config @ ?s) = [1, 2, 5, 8]"
    by code_simp+
  from h(4) obtain c1 where "Join ?s demo_config = Some (True, c1)" by auto
  from join_balance_serves_every_key [OF h(1-3) this] show ?thesis unfolding h(5,6) by blast
qed

text \<open>\<^verbatim>\<open>Join\<close> is not all or nothing: when a group that is already in the configuration comes after a new
  one, the call returns false but the new group has been added, with the number unchanged.\<close>

lemma refused_join_changes_groups:
  assumes "map_of (Groups cfg) g1 = None" and "\<not> Join_conflict s1 cfg" and "map_of (Groups cfg) g2 \<noteq> None"
  shows "Join [(g1, s1), (g2, s2)] cfg = Some (False, cfg\<lparr>Groups := Groups cfg @ [(g1, s1)]\<rparr>)"
proof -
  have "g1 \<noteq> g2" using assms by auto
  then show ?thesis using assms by (auto simp: Join_def map_of_group)
qed

end
