(* ===== verification/Shard_Grp.thy ===== *)
theory Shard_Grp
  imports Rsm Shard_Cfg
begin

text \<open>
  The server of a shard group (\<^verbatim>\<open>shardkv1/shardgrp/server.go\<close>): its state machine, snapshots and RPC handlers.
  A Go map that may be nil is an option (\<open>None\<close> is nil); a byte slice that carries an encoded map is the
  map (\<open>None\<close> is the empty slice, on which decoding fails and leaves its target alone). The state machine
  is an interpretation of \<open>state_machine\<close>, with a relation that says how replicas that restored snapshots
  may differ, and of \<open>versioned_store\<close>.
\<close>

section \<open>Definitions\<close>

subsection \<open>State\<close>

record SData =
  sd_Version :: Tversion
  sd_Value :: string

datatype ShardState = DontOwnState | FrozenState | WorkingState

record SConfig =
  c_State :: ShardState
  c_Num :: int

type_synonym shard_map = "(string \<rightharpoonup> SData) option"
type_synonym shard_bytes = "(string \<rightharpoonup> SData) option"

record GKVServer =
  g_shardConfiguration :: "int \<rightharpoonup> SConfig"
  g_keyValue :: "int \<rightharpoonup> shard_map"

text \<open>\<^verbatim>\<open>req any\<close> and its results.\<close>

datatype grp_req =
    GPut string string Tversion
  | GGet string
  | GFreezeShard int int
  | GInstallShard int shard_bytes int
  | GDeleteShard int int
  | GOther

datatype grp_resp =
    GPutResponse Err
  | GGetResponse string Tversion Err
  | GFreezeShardResponse shard_bytes int Err
  | GInstallShardResponse Err
  | GDeleteShardResponse Err

subsection \<open>Go maps\<close>

text \<open>Reading the configuration of a shard nobody has set gives the zero value.\<close>

definition config_of :: "GKVServer \<Rightarrow> int \<Rightarrow> SConfig" where
  "config_of kv sh = (case g_shardConfiguration kv sh of
     None \<Rightarrow> \<lparr>c_State = DontOwnState, c_Num = 0\<rparr> | Some c \<Rightarrow> c)"

definition set_config :: "int \<Rightarrow> ShardState \<Rightarrow> int \<Rightarrow> GKVServer \<Rightarrow> GKVServer" where
  "set_config sh st num kv =
     kv\<lparr>g_shardConfiguration := (g_shardConfiguration kv)(sh \<mapsto> \<lparr>c_State = st, c_Num = num\<rparr>)\<rparr>"

definition map_get :: "shard_map \<Rightarrow> string \<Rightarrow> SData option" where
  "map_get m key = (case m of None \<Rightarrow> None | Some f \<Rightarrow> f key)"

definition map_set :: "shard_map \<Rightarrow> string \<Rightarrow> SData \<Rightarrow> shard_map option" where
  \<comment> \<open>assigning to a nil map panics\<close>
  "map_set m key d = (case m of None \<Rightarrow> None | Some f \<Rightarrow> Some (Some (f(key \<mapsto> d))))"

definition encode_map :: "shard_map \<Rightarrow> shard_bytes" where
  \<comment> \<open>a nil map is encoded like an empty one\<close>
  "encode_map m = Some (case m of None \<Rightarrow> Map.empty | Some f \<Rightarrow> f)"

definition decode_map :: "shard_bytes \<Rightarrow> shard_map" where
  \<comment> \<open>into a nil map, the error ignored\<close>
  "decode_map b = b"

subsection \<open>Operations\<close>

definition not_serving :: "SConfig \<Rightarrow> bool" where
  "not_serving config \<longleftrightarrow> c_State config = DontOwnState \<or> c_State config = FrozenState"

definition do_put :: "string \<Rightarrow> string \<Rightarrow> Tversion \<Rightarrow> GKVServer \<Rightarrow> (GKVServer \<times> grp_resp) option" where
  "do_put key val version kv =
     (let shardId = Key2Shard key
      in if not_serving (config_of kv shardId) then Some (kv, GPutResponse ErrWrongGroup)
         else
           let (shardMap, kv1) =
             (case g_keyValue kv shardId of
                None \<Rightarrow> (Some Map.empty, kv\<lparr>g_keyValue := (g_keyValue kv)(shardId \<mapsto> Some Map.empty)\<rparr>)
              | Some m \<Rightarrow> (m, kv));
             store = do {
               m \<leftarrow> map_set shardMap key \<lparr>sd_Version = version + 1, sd_Value = val\<rparr>;
               Some (kv1\<lparr>g_keyValue := (g_keyValue kv1)(shardId \<mapsto> m)\<rparr>, GPutResponse OK)
             }
           in case map_get shardMap key of
                None \<Rightarrow> if version \<noteq> 0 then Some (kv1, GPutResponse ErrNoKey) else store
              | Some data \<Rightarrow>
                  if version \<noteq> sd_Version data then Some (kv1, GPutResponse ErrVersion) else store)"

definition do_get :: "string \<Rightarrow> GKVServer \<Rightarrow> grp_resp" where
  "do_get key kv =
     (let shardId = Key2Shard key
      in if not_serving (config_of kv shardId) then GGetResponse '''' 0 ErrWrongGroup
         else case g_keyValue kv shardId of
                None \<Rightarrow> GGetResponse '''' 0 ErrNoKey
              | Some shardMap \<Rightarrow>
                  (case map_get shardMap key of
                     None \<Rightarrow> GGetResponse '''' 0 ErrNoKey
                   | Some data \<Rightarrow> GGetResponse (sd_Value data) (sd_Version data) OK))"

definition do_freeze :: "int \<Rightarrow> int \<Rightarrow> GKVServer \<Rightarrow> GKVServer \<times> grp_resp" where
  "do_freeze sh num kv =
     (let config = config_of kv sh
      in if c_Num config > num then (kv, GFreezeShardResponse None (c_Num config) ErrVersion)
         else if c_State config = DontOwnState then (kv, GFreezeShardResponse None (c_Num config) ErrVersion)
         else
           let kv1 = set_config sh FrozenState num kv;
               shardMap = (case g_keyValue kv1 sh of None \<Rightarrow> None | Some m \<Rightarrow> m)
           in (kv1, GFreezeShardResponse (encode_map shardMap) num OK))"

definition do_install :: "int \<Rightarrow> shard_bytes \<Rightarrow> int \<Rightarrow> GKVServer \<Rightarrow> GKVServer \<times> grp_resp" where
  "do_install sh state num kv =
     (let config = config_of kv sh
      in if c_Num config \<ge> num then (kv, GInstallShardResponse ErrVersion)
         else
           let kv1 = set_config sh WorkingState num kv; shardMap = decode_map state
           in (kv1\<lparr>g_keyValue := (g_keyValue kv1)(sh \<mapsto> shardMap)\<rparr>, GInstallShardResponse OK))"

definition do_delete :: "int \<Rightarrow> int \<Rightarrow> GKVServer \<Rightarrow> GKVServer \<times> grp_resp" where
  "do_delete sh num kv =
     (let config = config_of kv sh
      in if c_Num config > num then (kv, GDeleteShardResponse ErrVersion)
         else
           let kv1 = set_config sh DontOwnState num kv
           in (kv1\<lparr>g_keyValue := (g_keyValue kv1)(sh := None)\<rparr>, GDeleteShardResponse OK))"

definition grp_DoOp :: "grp_req \<Rightarrow> GKVServer \<Rightarrow> (GKVServer \<times> grp_resp) option" where
  "grp_DoOp req kv =
     (case req of
        GPut key val version \<Rightarrow> do_put key val version kv
      | GGet key \<Rightarrow> Some (kv, do_get key kv)
      | GFreezeShard sh num \<Rightarrow> Some (do_freeze sh num kv)
      | GInstallShard sh state num \<Rightarrow> Some (do_install sh state num kv)
      | GDeleteShard sh num \<Rightarrow> Some (do_delete sh num kv)
      | GOther \<Rightarrow> None)"

text \<open>Inner nil maps come back from a snapshot as empty maps.\<close>

definition grp_Snapshot :: "GKVServer \<Rightarrow> (int \<rightharpoonup> shard_map) \<times> (int \<rightharpoonup> SConfig)" where
  "grp_Snapshot kv = (\<lambda>sh. map_option encode_map (g_keyValue kv sh), g_shardConfiguration kv)"

text \<open>Decoding into the existing maps adds the decoded entries to them.\<close>

definition grp_Restore :: "(int \<rightharpoonup> shard_map) \<times> (int \<rightharpoonup> SConfig) \<Rightarrow> GKVServer \<Rightarrow> GKVServer" where
  "grp_Restore data kv = kv\<lparr>g_keyValue := g_keyValue kv ++ fst data,
     g_shardConfiguration := g_shardConfiguration kv ++ snd data\<rparr>"

subsection \<open>Starting\<close>

definition NumFirst :: int where
  "NumFirst = 1"

definition Gid1 :: int where
  "Gid1 = 1"

fun own_shards :: "int list \<Rightarrow> GKVServer \<Rightarrow> GKVServer" where
  "own_shards [] kv = kv"
| "own_shards (sh # shs) kv = own_shards shs (set_config sh WorkingState NumFirst kv)"

definition NewGKVServer :: "int \<Rightarrow> GKVServer" where
  "NewGKVServer gid =
     (let kv = \<lparr>g_shardConfiguration = Map.empty, g_keyValue = Map.empty\<rparr>
      in if gid = Gid1 then own_shards (go_range NShards) kv else kv)"

definition StartServerShardGrp ::
  "int \<Rightarrow> int \<Rightarrow> ((int \<rightharpoonup> shard_map) \<times> (int \<rightharpoonup> SConfig)) option \<Rightarrow> int \<Rightarrow> (GKVServer, grp_resp) RSM" where
  "StartServerShardGrp gid me snapshot maxr = MakeRSM grp_Restore me maxr snapshot (NewGKVServer gid)"

subsection \<open>Handlers\<close>

record FreezeShardArgs =
  fa_Shard :: int
  fa_Num :: int

record FreezeShardReply =
  fr_State :: shard_bytes
  fr_Num :: int
  fr_Err :: Err

record InstallShardArgs =
  ia_Shard :: int
  ia_State :: shard_bytes
  ia_Num :: int

record DeleteShardArgs =
  da_Shard :: int
  da_Num :: int

text \<open>The handlers; \<open>submit\<close> is \<^verbatim>\<open>kv.rsm.Submit\<close>, and a failed type assertion panics.\<close>

definition grp_Get :: "(grp_req \<Rightarrow> Err \<times> grp_resp option) \<Rightarrow> GetArgs \<Rightarrow> GetReply option" where
  "grp_Get submit args =
     (let (err, getResponse) = submit (GGet (g_Key args))
      in if err = OK then
           (case getResponse of
              Some (GGetResponse v ver e) \<Rightarrow> Some \<lparr>gr_Value = v, gr_Version = ver, gr_Err = e\<rparr>
            | _ \<Rightarrow> None)
         else Some \<lparr>gr_Value = '''', gr_Version = 0, gr_Err = err\<rparr>)"

definition grp_Put :: "(grp_req \<Rightarrow> Err \<times> grp_resp option) \<Rightarrow> PutArgs \<Rightarrow> Err option" where
  "grp_Put submit args =
     (let (err, putResponse) = submit (GPut (p_Key args) (p_Value args) (p_Version args))
      in if err = OK then (case putResponse of Some (GPutResponse e) \<Rightarrow> Some e | _ \<Rightarrow> None)
         else Some err)"

definition grp_FreezeShard :: "(grp_req \<Rightarrow> Err \<times> grp_resp option) \<Rightarrow> FreezeShardArgs \<Rightarrow> FreezeShardReply option" where
  "grp_FreezeShard submit args =
     (let (err, freezeShardResponse) = submit (GFreezeShard (fa_Shard args) (fa_Num args))
      in if err = OK then
           (case freezeShardResponse of
              Some (GFreezeShardResponse st num e) \<Rightarrow> Some \<lparr>fr_State = st, fr_Num = num, fr_Err = e\<rparr>
            | _ \<Rightarrow> None)
         else Some \<lparr>fr_State = None, fr_Num = 0, fr_Err = err\<rparr>)"

definition grp_InstallShard :: "(grp_req \<Rightarrow> Err \<times> grp_resp option) \<Rightarrow> InstallShardArgs \<Rightarrow> Err option" where
  "grp_InstallShard submit args =
     (let (err, resp) = submit (GInstallShard (ia_Shard args) (ia_State args) (ia_Num args))
      in if err = OK then (case resp of Some (GInstallShardResponse e) \<Rightarrow> Some e | _ \<Rightarrow> None)
         else Some err)"

definition grp_DeleteShard :: "(grp_req \<Rightarrow> Err \<times> grp_resp option) \<Rightarrow> DeleteShardArgs \<Rightarrow> Err option" where
  "grp_DeleteShard submit args =
     (let (err, resp) = submit (GDeleteShard (da_Shard args) (da_Num args))
      in if err = OK then (case resp of Some (GDeleteShardResponse e) \<Rightarrow> Some e | _ \<Rightarrow> None)
         else Some err)"

section \<open>Replicas\<close>

text \<open>
  How a replica \<open>t\<close> may differ from the state \<open>s\<close> of executing all commands: shards the group does not own
  are free, and a nil map may have become an empty one on the way through a snapshot.
\<close>

definition grp_rel :: "GKVServer \<Rightarrow> GKVServer \<Rightarrow> bool" where
  "grp_rel t s \<longleftrightarrow> g_shardConfiguration t = g_shardConfiguration s
     \<and> (\<forall>sh. c_State (config_of s sh) \<noteq> DontOwnState \<longrightarrow>
          g_keyValue t sh = g_keyValue s sh
          \<or> g_keyValue s sh = Some None \<and> g_keyValue t sh = Some (Some Map.empty))"

lemma config_of_set_config [simp]:
  "config_of (set_config sh st num kv) sh' = (if sh' = sh then \<lparr>c_State = st, c_Num = num\<rparr> else config_of kv sh')"
  "config_of (kv\<lparr>g_keyValue := f\<rparr>) = config_of kv"
  "g_keyValue (set_config sh st num kv) = g_keyValue kv"
  by (simp_all add: config_of_def set_config_def fun_eq_iff)

lemma set_config_conf [simp]:
  "g_shardConfiguration (set_config sh st num kv) = (g_shardConfiguration kv)(sh \<mapsto> \<lparr>c_State = st, c_Num = num\<rparr>)"
  by (simp add: set_config_def)

lemma map_simps [simp]:
  "map_get None k = None" "map_get (Some f) k = f k"
  "map_set None k d = None" "map_set (Some f) k d = Some (Some (f(k \<mapsto> d)))"
  by (simp_all add: map_get_def map_set_def)

lemmas grp_op_defs = grp_DoOp_def do_put_def do_get_def do_freeze_def do_install_def do_delete_def Let_def

lemma grp_rel_config: "grp_rel t s \<Longrightarrow> config_of t = config_of s"
  by (simp add: grp_rel_def config_of_def fun_eq_iff)

lemma grp_relD:
  assumes "grp_rel t s" and "c_State (config_of s sh) \<noteq> DontOwnState"
  shows "g_keyValue t sh = g_keyValue s sh
    \<or> g_keyValue s sh = Some None \<and> g_keyValue t sh = Some (Some Map.empty)"
  using assms unfolding grp_rel_def by blast

text \<open>Each operation keeps the relation and gives the same result.\<close>

lemma rel_do_put:
  assumes "grp_rel t s" and "do_put key val version s = Some (s', r)"
  shows "\<exists>t'. do_put key val version t = Some (t', r) \<and> grp_rel t' s'"
proof (cases "not_serving (config_of s (Key2Shard key))")
  case True
  then show ?thesis using assms grp_rel_config [OF assms(1)] by (auto simp: do_put_def)
next
  case False
  then have "c_State (config_of s (Key2Shard key)) \<noteq> DontOwnState" by (simp add: not_serving_def)
  from grp_relD [OF assms(1) this] show ?thesis
    using assms False grp_rel_config [OF assms(1)]
    by (cases "g_keyValue s (Key2Shard key)")
      (auto simp: do_put_def Let_def grp_rel_def bind_Some_iff split: if_splits option.splits)
qed

lemma rel_do_get: "grp_rel t s \<Longrightarrow> do_get key t = do_get key s"
  using grp_relD [of t s "Key2Shard key"] grp_rel_config [of t s]
  by (auto simp: do_get_def not_serving_def Let_def)

lemma rel_do_freeze:
  assumes "grp_rel t s"
  shows "snd (do_freeze sh num t) = snd (do_freeze sh num s)" "grp_rel (fst (do_freeze sh num t)) (fst (do_freeze sh num s))"
  using grp_relD [OF assms, of sh] grp_rel_config [OF assms] assms
  by (auto simp: do_freeze_def Let_def grp_rel_def encode_map_def)

lemma rel_do_install:
  assumes "grp_rel t s"
  shows "snd (do_install sh st num t) = snd (do_install sh st num s)"
    "grp_rel (fst (do_install sh st num t)) (fst (do_install sh st num s))"
  using grp_rel_config [OF assms] assms
  by (auto simp: do_install_def Let_def grp_rel_def)

lemma rel_do_delete:
  assumes "grp_rel t s"
  shows "snd (do_delete sh num t) = snd (do_delete sh num s)"
    "grp_rel (fst (do_delete sh num t)) (fst (do_delete sh num s))"
  using grp_rel_config [OF assms] assms
  by (auto simp: do_delete_def Let_def grp_rel_def)

lemma rel_grp_DoOp:
  assumes "grp_rel t s" and "grp_DoOp q s = Some (s', r)"
  shows "\<exists>t'. grp_DoOp q t = Some (t', r) \<and> grp_rel t' s'"
proof (cases q)
  case (GPut key val version)
  then show ?thesis using rel_do_put [OF assms(1)] assms(2) by (simp add: grp_DoOp_def)
next
  case (GGet key)
  then show ?thesis using rel_do_get [OF assms(1)] assms by (auto simp: grp_DoOp_def)
next
  case (GFreezeShard sh num)
  then show ?thesis using rel_do_freeze [OF assms(1), of sh num] assms(2)
    by (simp add: grp_DoOp_def) (metis fst_conv snd_conv surj_pair)
next
  case (GInstallShard sh st num)
  then show ?thesis using rel_do_install [OF assms(1), of sh st num] assms(2)
    by (simp add: grp_DoOp_def) (metis fst_conv snd_conv surj_pair)
next
  case (GDeleteShard sh num)
  then show ?thesis using rel_do_delete [OF assms(1), of sh num] assms(2)
    by (simp add: grp_DoOp_def) (metis fst_conv snd_conv surj_pair)
next
  case GOther
  then show ?thesis using assms(2) by (simp add: grp_DoOp_def)
qed

text \<open>
  Configurations are never removed, and a shard that is owned without a map has been so from the start:
  both are needed when a snapshot is decoded into maps that have entries already.
\<close>

definition owned_absent :: "GKVServer \<Rightarrow> int \<Rightarrow> bool" where
  "owned_absent kv sh \<longleftrightarrow> c_State (config_of kv sh) \<noteq> DontOwnState \<and> g_keyValue kv sh = None"

lemma grp_DoOp_keeps:
  assumes "grp_DoOp q kv = Some (kv', r)"
  shows "dom (g_shardConfiguration kv) \<subseteq> dom (g_shardConfiguration kv')"
    and "owned_absent kv' sh \<Longrightarrow> owned_absent kv sh"
  using assms
  by (cases q; auto simp: grp_op_defs owned_absent_def bind_Some_iff split: if_splits option.splits)+

lemma grp_exec_keeps:
  assumes "exec grp_DoOp qs kv = Some kv'"
  shows "dom (g_shardConfiguration kv) \<subseteq> dom (g_shardConfiguration kv')
    \<and> (\<forall>sh. owned_absent kv' sh \<longrightarrow> owned_absent kv sh)"
  using assms
proof (induction qs arbitrary: kv)
  case (Cons q qs)
  then obtain kv1 r where 1: "grp_DoOp q kv = Some (kv1, r)" "exec grp_DoOp qs kv1 = Some kv'"
    by (auto simp: bind_Some_iff)
  show ?case using Cons.IH [OF 1(2)] grp_DoOp_keeps [OF 1(1)] by blast
qed simp

lemma map_add_dom_le: "dom m \<subseteq> dom m' \<Longrightarrow> m ++ m' = m'"
  by (rule ext) (auto simp: map_add_def dom_def split: option.splits)

text \<open>No configuration of \<open>kv\<close> is missing in \<open>kv'\<close>, and a shard that \<open>kv'\<close> owns without a map is so in \<open>kv\<close>.\<close>

definition grp_covers :: "GKVServer \<Rightarrow> GKVServer \<Rightarrow> bool" where
  "grp_covers kv kv' \<longleftrightarrow> dom (g_shardConfiguration kv) \<subseteq> dom (g_shardConfiguration kv')
     \<and> (\<forall>sh. owned_absent kv' sh \<longrightarrow> owned_absent kv sh)"

lemma freeze_covered: "grp_covers (fst (do_freeze sh num kv)) kv"
  by (auto simp: grp_covers_def owned_absent_def do_freeze_def config_of_def Let_def split: option.splits)

lemma rel_grp_Restore:
  assumes "grp_covers s0 s" and "grp_rel t0 s0" and "grp_rel t s"
  shows "grp_rel (grp_Restore (grp_Snapshot t) t0) s"
proof -
  note k = assms(1) [unfolded grp_covers_def]
  let ?t = "grp_Restore (grp_Snapshot t) t0"
  have c: "g_shardConfiguration ?t = g_shardConfiguration s"
    using k assms(2,3) by (simp add: grp_Restore_def grp_Snapshot_def grp_rel_def map_add_dom_le)
  moreover have "g_keyValue ?t sh = g_keyValue s sh
      \<or> g_keyValue s sh = Some None \<and> g_keyValue ?t sh = Some (Some Map.empty)"
    if o: "c_State (config_of s sh) \<noteq> DontOwnState" for sh
  proof (cases "g_keyValue s sh")
    case None
    then have "owned_absent s0 sh" using o k by (simp add: owned_absent_def)
    then have "g_keyValue t0 sh = None"
      using grp_relD [OF assms(2), of sh] by (simp add: owned_absent_def)
    moreover have "g_keyValue t sh = None" using grp_relD [OF assms(3) o] None by simp
    ultimately show ?thesis using None by (simp add: grp_Restore_def grp_Snapshot_def map_add_def)
  next
    case (Some m)
    then show ?thesis using grp_relD [OF assms(3) o]
      by (auto simp: grp_Restore_def grp_Snapshot_def map_add_def encode_map_def split: option.splits)
  qed
  ultimately show ?thesis unfolding grp_rel_def by blast
qed

interpretation shardgrp_sm: state_machine grp_DoOp grp_Snapshot grp_Restore "NewGKVServer gid" grp_rel grp_covers
  for gid
proof
  show "grp_rel (NewGKVServer gid) (NewGKVServer gid)" by (simp add: grp_rel_def)
  show "grp_covers s0 s" if "exec grp_DoOp qs s0 = Some s" for qs s0 s
    using grp_exec_keeps [OF that] by (simp add: grp_covers_def)
qed (use rel_grp_DoOp rel_grp_Restore in blast)+

section \<open>The versioned store\<close>

definition grp_view :: "GKVServer \<Rightarrow> kv_view" where
  "grp_view kv = (\<lambda>key. case g_keyValue kv (Key2Shard key) of None \<Rightarrow> None
     | Some m \<Rightarrow> map_option (\<lambda>d. (sd_Value d, sd_Version d)) (map_get m key))"

definition grp_serves :: "GKVServer \<Rightarrow> string \<Rightarrow> bool" where
  "grp_serves kv key \<longleftrightarrow> c_State (config_of kv (Key2Shard key)) = WorkingState
     \<and> g_keyValue kv (Key2Shard key) \<noteq> Some None"

definition gput :: "PutArgs \<Rightarrow> GKVServer \<Rightarrow> GKVServer \<times> Err" where
  "gput a kv = (case grp_DoOp (GPut (p_Key a) (p_Value a) (p_Version a)) kv of
     Some (kv', GPutResponse e) \<Rightarrow> (kv', e) | _ \<Rightarrow> (kv, NoErr))"

lemma serving_iff: "not_serving c \<longleftrightarrow> c_State c \<noteq> WorkingState"
  by (cases "c_State c") (simp_all add: not_serving_def)

interpretation shardgrp: versioned_store grp_view grp_serves gput
  by unfold_locales
    (auto simp: grp_view_def grp_serves_def gput_def grp_DoOp_def do_put_def Let_def serving_iff fun_eq_iff
      split: option.splits if_splits)

section \<open>Phases of a shard\<close>

definition phase :: "ShardState \<Rightarrow> nat" where
  "phase st = (case st of WorkingState \<Rightarrow> 0 | FrozenState \<Rightarrow> 1 | DontOwnState \<Rightarrow> 2)"

text \<open>\<open>c\<close> may be followed by \<open>c'\<close>: a later configuration, or a later phase of the same one.\<close>

definition follows :: "SConfig \<Rightarrow> SConfig \<Rightarrow> bool" where
  "follows c c' \<longleftrightarrow> c_Num c < c_Num c' \<or> c_Num c = c_Num c' \<and> phase (c_State c) \<le> phase (c_State c')"

lemma follows_trans: "follows a b \<Longrightarrow> follows b c \<Longrightarrow> follows a c"
  by (auto simp: follows_def)

lemma follows_refl [simp]: "follows c c"
  by (simp add: follows_def)

lemma do_put_frame:
  assumes "do_put key val version kv = Some (kv', r)"
  shows "config_of kv' = config_of kv"
    and "not_serving (config_of kv sh) \<Longrightarrow> g_keyValue kv' sh = g_keyValue kv sh"
  using assms
  by (auto simp: do_put_def Let_def bind_Some_iff split: if_splits option.splits)

lemma grp_DoOp_follows:
  assumes "grp_DoOp q kv = Some (kv', r)"
  shows "follows (config_of kv sh) (config_of kv' sh)
    \<and> (c_State (config_of kv sh) = FrozenState \<and> c_State (config_of kv' sh) = FrozenState \<longrightarrow>
        g_keyValue kv' sh = g_keyValue kv sh)"
proof (cases q)
  case (GPut key val version)
  then show ?thesis using assms do_put_frame [of key val version kv kv' r]
    by (auto simp: grp_DoOp_def not_serving_def)
next
  case (GFreezeShard sh' num)
  then show ?thesis using assms
    by (cases "c_State (config_of kv sh)")
      (auto simp: grp_DoOp_def do_freeze_def Let_def follows_def phase_def split: if_splits)
qed (use assms in \<open>auto simp: grp_DoOp_def do_install_def do_delete_def Let_def follows_def phase_def
       split: if_splits ShardState.splits\<close>)

lemma exec_follows:
  assumes "exec grp_DoOp qs kv = Some kv'"
  shows "follows (config_of kv sh) (config_of kv' sh)
    \<and> (c_State (config_of kv sh) = FrozenState \<and> c_State (config_of kv' sh) = FrozenState
         \<and> c_Num (config_of kv sh) = c_Num (config_of kv' sh) \<longrightarrow> g_keyValue kv' sh = g_keyValue kv sh)"
  using assms
proof (induction qs arbitrary: kv)
  case (Cons q qs)
  then obtain kv1 r where 1: "grp_DoOp q kv = Some (kv1, r)" "exec grp_DoOp qs kv1 = Some kv'"
    by (auto simp: bind_Some_iff)
  note a = grp_DoOp_follows [OF 1(1), of sh] and b = Cons.IH [OF 1(2)]
  have "g_keyValue kv' sh = g_keyValue kv sh"
    if f: "c_State (config_of kv sh) = FrozenState" "c_State (config_of kv' sh) = FrozenState"
      "c_Num (config_of kv sh) = c_Num (config_of kv' sh)"
  proof -
    have n: "c_Num (config_of kv1 sh) = c_Num (config_of kv sh) \<and> phase (c_State (config_of kv1 sh)) = 1"
      using a b f unfolding follows_def phase_def by (auto split: ShardState.splits)
    then have "c_State (config_of kv1 sh) = FrozenState"
      by (cases "c_State (config_of kv1 sh)") (simp_all add: phase_def)
    then show ?thesis using a b f n by simp
  qed
  then show ?case using a b follows_trans by blast
qed simp

section \<open>Properties\<close>

text \<open>C26. Replicas of a shard group agree: whatever prefixes of the committed log arrive as snapshots, from whichever
  prefix the replica started, and although a snapshot is decoded into maps that already have entries, the replica's
  configurations are those of executing the committed prefix, so are the maps of all shards the group owns (up to a
  nil map having become an empty one), and every submitter gets the sequential result. A snapshot may be of a later
  prefix, or of an earlier one whose commands are then delivered again; in the second case it must have every
  configuration the replica has, and a map for each shard it owns unless the replica owns that shard without a map
  too, and no submitter of this server may wait for one of those commands.\<close>

theorem shardgrp_replicates:
  fixes rsm :: "(GKVServer, grp_resp) RSM" and cmds :: "grp_req Op list"
  assumes "exec grp_DoOp (map op_Req cmds) (NewGKVServer gid) \<noteq> None"
    and "stream grp_DoOp grp_Snapshot grp_rel grp_covers (NewGKVServer gid) (dom (results rsm)) cmds k0 ms k"
    and "exec grp_DoOp (map op_Req (take k0 cmds)) (NewGKVServer gid) = Some s0" and "grp_rel (sm rsm) s0"
    and "\<forall>key. results rsm key = None \<or> results rsm key = Some []"
  shows "\<exists>rsm' s. Read grp_DoOp grp_Snapshot grp_Restore ms rsm = Some rsm'
    \<and> exec grp_DoOp (map op_Req (take k cmds)) (NewGKVServer gid) = Some s
    \<and> g_shardConfiguration (sm rsm') = g_shardConfiguration s
    \<and> (\<forall>sh. c_State (config_of s sh) \<noteq> DontOwnState \<longrightarrow>
         map_option encode_map (g_keyValue (sm rsm') sh) = map_option encode_map (g_keyValue s sh))
    \<and> (\<forall>key r rs. results rsm' key = Some (r # rs) \<longrightarrow>
        (\<exists>i < k. key = constructKey (cmds ! i) (int i + 1)
          \<and> (\<exists>s. exec grp_DoOp (map op_Req (take i cmds)) (NewGKVServer gid) = Some s
               \<and> map_option snd (grp_DoOp (op_Req (cmds ! i)) s) = Some r)))"
proof -
  obtain rsm' s where R: "Read grp_DoOp grp_Snapshot grp_Restore ms rsm = Some rsm'"
    "exec grp_DoOp (map op_Req (take k cmds)) (NewGKVServer gid) = Some s" "grp_rel (sm rsm') s"
    "\<forall>key r rs. results rsm' key = Some (r # rs) \<longrightarrow>
        (\<exists>i < k. key = constructKey (cmds ! i) (int i + 1)
          \<and> (\<exists>s. exec grp_DoOp (map op_Req (take i cmds)) (NewGKVServer gid) = Some s
               \<and> map_option snd (grp_DoOp (op_Req (cmds ! i)) s) = Some r))"
    using shardgrp_sm.replicates [OF assms] by metis
  have c: "g_shardConfiguration (sm rsm') = g_shardConfiguration s"
    using R(3) unfolding grp_rel_def by blast
  have m: "map_option encode_map (g_keyValue (sm rsm') sh) = map_option encode_map (g_keyValue s sh)"
    if o: "c_State (config_of s sh) \<noteq> DontOwnState" for sh
    using grp_relD [OF R(3) o] by (auto simp: encode_map_def)
  show ?thesis using R(1,2,4) c m by blast
qed

text \<open>A replica that starts from the snapshot of the first command, applies the second, is handed the same snapshot
  once more and applies the second again.\<close>

definition demo_grp_ops :: "grp_req Op list" where
  "demo_grp_ops = [\<lparr>op_Req = GPut ''x'' ''a'' 0, op_Id = 0, op_Me = 1\<rparr>,
     \<lparr>op_Req = GFreezeShard (Key2Shard ''x'') 2, op_Id = 0, op_Me = 2\<rparr>,
     \<lparr>op_Req = GPut ''x'' ''b'' 1, op_Id = 1, op_Me = 1\<rparr>]"

definition demo_grp_state :: "nat \<Rightarrow> GKVServer" where
  "demo_grp_state k = the (exec grp_DoOp (map op_Req (take k demo_grp_ops)) (NewGKVServer 1))"

definition demo_grp_msgs :: "((grp_req, (int \<rightharpoonup> shard_map) \<times> (int \<rightharpoonup> SConfig)) rsm_msg \<times> int) list" where
  "demo_grp_msgs = [(Committed (demo_grp_ops ! 1) 2, 0), (Restored (grp_Snapshot (demo_grp_state 1)) 1, 0),
     (Committed (demo_grp_ops ! 1) 2, 0)]"

theorem shardgrp_replicates_witness:
  "\<exists>rsm' s. Read grp_DoOp grp_Snapshot grp_Restore demo_grp_msgs
      (StartServerShardGrp 1 1 (Some (grp_Snapshot (demo_grp_state 1))) 100) = Some rsm'
    \<and> exec grp_DoOp (map op_Req (take 2 demo_grp_ops)) (NewGKVServer 1) = Some s
    \<and> g_shardConfiguration (sm rsm') = g_shardConfiguration s"
proof -
  let ?rsm = "StartServerShardGrp 1 1 (Some (grp_Snapshot (demo_grp_state 1))) 100"
  have "list_all (\<lambda>k. map_option (\<lambda>_. ()) (exec grp_DoOp (map op_Req (take k demo_grp_ops)) (NewGKVServer 1)) = Some ()) [1, 2, 3]"
    by code_simp
  then have st: "exec grp_DoOp (map op_Req (take k demo_grp_ops)) (NewGKVServer 1) = Some (demo_grp_state k)" if "k \<in> {1, 2, 3}" for k
    using that unfolding demo_grp_state_def by (auto simp: list_all_iff)
  have l: "length demo_grp_ops = 3" by (simp add: demo_grp_ops_def)
  have h: "exec grp_DoOp (map op_Req demo_grp_ops) (NewGKVServer 1) \<noteq> None" using st [of 3] l by simp
  have r: "dom (results ?rsm) = {}" "\<forall>key. results ?rsm key = None \<or> results ?rsm key = Some []"
    by (simp_all add: StartServerShardGrp_def MakeRSM_def)
  have g: "grp_rel (demo_grp_state 1) (demo_grp_state 1)" by (simp add: grp_rel_def)
  have "take 2 demo_grp_ops = take 1 demo_grp_ops @ [demo_grp_ops ! 1]" by (simp add: demo_grp_ops_def)
  then have "demo_grp_state 2 = fst (do_freeze (Key2Shard ''x'') 2 (demo_grp_state 1))"
    using st [of 1] st [of 2] by (auto simp: exec_append demo_grp_ops_def grp_DoOp_def case_prod_unfold bind_Some_iff)
  then have c: "grp_covers (demo_grp_state 2) (demo_grp_state 1)" using freeze_covered by simp
  have "may_restore grp_DoOp grp_covers (NewGKVServer 1) (dom (results ?rsm)) demo_grp_ops 2 1"
    using st [of 1] st [of 2] c r(1) by (simp add: may_restore_def)
  then have s: "stream grp_DoOp grp_Snapshot grp_rel grp_covers (NewGKVServer 1) (dom (results ?rsm)) demo_grp_ops 1 demo_grp_msgs 2"
    using st [of 1] l g by (auto simp: demo_grp_msgs_def numeral_2_eq_2)
  have i: "grp_rel (sm ?rsm) (demo_grp_state 1)"
    using shardgrp_sm.restart_rel [OF st [of 1] g] by (simp add: StartServerShardGrp_def)
  have "exec grp_DoOp (map op_Req (take 1 demo_grp_ops)) (NewGKVServer 1) = Some (demo_grp_state 1)" using st [of 1] by simp
  from shardgrp_replicates [OF h s this i r(2)] show ?thesis by blast
qed

text \<open>C27. A shard's life at a group: whatever requests the group executes, the configuration number of a
  shard never goes back, within one number the shard only goes from working to frozen to not owned, and as
  long as it stays frozen under one number its key/value pairs do not change.\<close>

theorem shard_epochs_monotone:
  assumes "exec grp_DoOp qs kv = Some kv'"
  shows "let c = config_of kv sh; c' = config_of kv' sh
    in (c_Num c < c_Num c' \<or> c_Num c = c_Num c' \<and> phase (c_State c) \<le> phase (c_State c'))
       \<and> (c = c' \<and> c_State c = FrozenState \<longrightarrow> g_keyValue kv' sh = g_keyValue kv sh)"
  using exec_follows [OF assms, of sh] unfolding Let_def follows_def by auto

theorem shard_epochs_monotone_witness:
  "\<exists>kv'. exec grp_DoOp [GFreezeShard 3 2, GPut ''x'' ''a'' 0, GInstallShard 3 None 2] (NewGKVServer 1) = Some kv'
    \<and> 1 \<le> c_Num (config_of kv' 3)"
proof -
  let ?qs = "[GFreezeShard 3 2, GPut ''x'' ''a'' 0, GInstallShard 3 None 2]"
  have "map_option (\<lambda>_. ()) (exec grp_DoOp ?qs (NewGKVServer 1)) = Some ()" by code_simp
  then obtain kv' where k: "exec grp_DoOp ?qs (NewGKVServer 1) = Some kv'" by auto
  have "c_Num (config_of (NewGKVServer 1) 3) = 1" by code_simp
  then show ?thesis using k shard_epochs_monotone [OF k, of 3] by (auto simp: Let_def)
qed

end
