(* ===== verification/Shard_Clerk.thy ===== *)
theory Shard_Clerk
  imports Shard_Grp
begin

text \<open>
  The clerk of one shard group (\<^verbatim>\<open>shardkv1/shardgrp/client.go\<close>) and the clerk of the sharded service
  (\<^verbatim>\<open>shardkv1/client.go\<close>). A shard group is the state of its replicated state machine, \<open>None\<close> once it has
  crashed executing a request. Every call of the clerk comes with what happens to it and with the
  requests of others the group executes before it.
\<close>

section \<open>Definitions\<close>

subsection \<open>Calls\<close>

datatype 'a outcome = Returned 'a | Waiting | Panicked

text \<open>
  A request that a deposed leader answers with \<^verbatim>\<open>ErrWrongLeader\<close> may still be committed later; it is then
  among the requests executed before a later call.
\<close>

datatype grp_attempt = GRequestLost | GNotLeader | GReplyLost | GAnswered

type_synonym grp_event = "grp_req list \<times> grp_attempt"

definition grp_run :: "grp_req list \<Rightarrow> GKVServer option \<Rightarrow> GKVServer option" where
  "grp_run qs g = do { kv \<leftarrow> g; exec grp_DoOp qs kv }"

text \<open>\<^verbatim>\<open>Call\<close>: the group afterwards and the reply, \<open>None\<close> when \<^verbatim>\<open>Call\<close> returns false.\<close>

definition grp_call ::
  "grp_req \<Rightarrow> ((grp_req \<Rightarrow> Err \<times> grp_resp option) \<Rightarrow> 'r option) \<Rightarrow> grp_event \<Rightarrow> GKVServer option
     \<Rightarrow> GKVServer option \<times> 'r option" where
  "grp_call req handler ev g =
     (let g1 = grp_run (fst ev) g
      in case snd ev of
           GRequestLost \<Rightarrow> (g1, None)
         | GNotLeader \<Rightarrow> (g1, handler (\<lambda>q. (ErrWrongLeader, None)))
         | GReplyLost \<Rightarrow> (grp_run [req] g1, None)
         | GAnswered \<Rightarrow>
             (grp_run [req] g1,
              do { kv \<leftarrow> g1; (kv', r) \<leftarrow> grp_DoOp req kv; handler (\<lambda>q. (OK, Some r)) }))"

subsection \<open>The clerk of a shard group\<close>

record GClerk =
  gc_servers :: "string list"
  gc_leader :: int

definition MakeGClerk :: "string list \<Rightarrow> GClerk" where
  "MakeGClerk servers = \<lparr>gc_servers = servers, gc_leader = 0\<rparr>"

definition GLeader :: "GClerk \<Rightarrow> int" where
  "GLeader ck = gc_leader ck"

text \<open>
  The retry loop. An event comes with whether the context's timeout has passed when the loop looks at it.
  The reply is a variable of the caller: a call that fails leaves in it what an earlier call stored, and
  the loop looks at its error all the same. The result carries the group, the reply and the clerk.
\<close>

fun grp_loop ::
  "(grp_event \<Rightarrow> GKVServer option \<Rightarrow> GKVServer option \<times> 'r option) \<Rightarrow> ('r \<Rightarrow> Err) \<Rightarrow> (grp_event \<times> bool) list
     \<Rightarrow> 'r \<Rightarrow> bool \<Rightarrow> int \<Rightarrow> GClerk \<Rightarrow> GKVServer option
     \<Rightarrow> (GKVServer option \<times> 'r \<times> GClerk \<times> Err \<times> bool) outcome" where
  "grp_loop call errOf [] reply isFirstTry initialServer ck g = Waiting"
| "grp_loop call errOf ((ev, expired) # evs) reply isFirstTry initialServer ck g =
     (case go_nth (gc_servers ck) (gc_leader ck) of
        None \<Rightarrow> Panicked
      | Some srv \<Rightarrow>
          let (g1, r) = call ev g;
              reply1 = (case r of None \<Rightarrow> reply | Some x \<Rightarrow> x);
              err = errOf reply1
          in if r = None \<or> err = ErrWrongLeader then
               let ck1 = ck\<lparr>gc_leader := (gc_leader ck + 1) mod go_len (gc_servers ck)\<rparr>
               in if err \<noteq> ErrWrongLeader \<and> initialServer = gc_leader ck1 then
                    Returned (g1, reply1, ck1, ErrorNoResponse, False)
                  else if expired then Returned (g1, reply1, ck1, ErrorNoResponse, False)
                  else grp_loop call errOf evs reply1 False
                         (if err = ErrWrongLeader then gc_leader ck1 else initialServer) ck1 g1
             else Returned (g1, reply1, ck, OK, isFirstTry))"

definition GClerk_Get ::
  "(grp_event \<times> bool) list \<Rightarrow> string \<Rightarrow> GClerk \<Rightarrow> GKVServer option
     \<Rightarrow> (GKVServer option \<times> GClerk \<times> string \<times> Tversion \<times> Err) outcome" where
  "GClerk_Get evs key ck g =
     map_outcome (\<lambda>(g1, reply, ck1, err, first).
         if err = ErrorNoResponse then (g1, ck1, '''', 0, ErrorNoResponse)
         else (g1, ck1, gr_Value reply, gr_Version reply, gr_Err reply))
       (grp_loop (grp_call (GGet key) (\<lambda>submit. grp_Get submit \<lparr>g_Key = key\<rparr>)) gr_Err evs
         \<lparr>gr_Value = '''', gr_Version = 0, gr_Err = NoErr\<rparr> True (gc_leader ck) ck g)"

definition GClerk_Put ::
  "(grp_event \<times> bool) list \<Rightarrow> string \<Rightarrow> string \<Rightarrow> Tversion \<Rightarrow> GClerk \<Rightarrow> GKVServer option
     \<Rightarrow> (GKVServer option \<times> GClerk \<times> Err) outcome" where
  "GClerk_Put evs key val version ck g =
     map_outcome (\<lambda>(g1, reply, ck1, err, isFirstTry).
         (g1, ck1,
          if err = ErrorNoResponse then ErrorNoResponse
          else if \<not> isFirstTry \<and> reply = ErrVersion then ErrMaybe else reply))
       (grp_loop (grp_call (GPut key val version)
           (\<lambda>submit. grp_Put submit \<lparr>p_Key = key, p_Value = val, p_Version = version\<rparr>)) (\<lambda>e. e) evs
         NoErr True (gc_leader ck) ck g)"

definition GClerk_FreezeShard ::
  "(grp_event \<times> bool) list \<Rightarrow> int \<Rightarrow> int \<Rightarrow> GClerk \<Rightarrow> GKVServer option
     \<Rightarrow> (GKVServer option \<times> GClerk \<times> shard_bytes \<times> Err) outcome" where
  "GClerk_FreezeShard evs sh num ck g =
     map_outcome (\<lambda>(g1, reply, ck1, err, first).
         if err = ErrorNoResponse then (g1, ck1, None, ErrorNoResponse)
         else (g1, ck1, fr_State reply, fr_Err reply))
       (grp_loop (grp_call (GFreezeShard sh num)
           (\<lambda>submit. grp_FreezeShard submit \<lparr>fa_Shard = sh, fa_Num = num\<rparr>)) fr_Err evs
         \<lparr>fr_State = None, fr_Num = 0, fr_Err = NoErr\<rparr> True (gc_leader ck) ck g)"

definition GClerk_InstallShard ::
  "(grp_event \<times> bool) list \<Rightarrow> int \<Rightarrow> shard_bytes \<Rightarrow> int \<Rightarrow> GClerk \<Rightarrow> GKVServer option
     \<Rightarrow> (GKVServer option \<times> GClerk \<times> Err) outcome" where
  "GClerk_InstallShard evs sh state num ck g =
     map_outcome (\<lambda>(g1, reply, ck1, err, first).
         (g1, ck1, if err = ErrorNoResponse then ErrorNoResponse else reply))
       (grp_loop (grp_call (GInstallShard sh state num)
           (\<lambda>submit. grp_InstallShard submit \<lparr>ia_Shard = sh, ia_State = state, ia_Num = num\<rparr>)) (\<lambda>e. e) evs
         NoErr True (gc_leader ck) ck g)"

definition GClerk_DeleteShard ::
  "(grp_event \<times> bool) list \<Rightarrow> int \<Rightarrow> int \<Rightarrow> GClerk \<Rightarrow> GKVServer option
     \<Rightarrow> (GKVServer option \<times> GClerk \<times> Err) outcome" where
  "GClerk_DeleteShard evs sh num ck g =
     map_outcome (\<lambda>(g1, reply, ck1, err, first).
         (g1, ck1, if err = ErrorNoResponse then ErrorNoResponse else reply))
       (grp_loop (grp_call (GDeleteShard sh num)
           (\<lambda>submit. grp_DeleteShard submit \<lparr>da_Shard = sh, da_Num = num\<rparr>)) (\<lambda>e. e) evs
         NoErr True (gc_leader ck) ck g)"

subsection \<open>The clerk of the sharded service\<close>

text \<open>The groups, by the list of their servers.\<close>

type_synonym grps = "string list \<Rightarrow> GKVServer option"

record SKClerk =
  sk_rcks :: "int \<rightharpoonup> GClerk"

definition MakeSKClerk :: SKClerk where
  "MakeSKClerk = \<lparr>sk_rcks = Map.empty\<rparr>"

definition GetClerk :: "int \<Rightarrow> SKClerk \<Rightarrow> GClerk option \<times> bool" where
  "GetClerk gid ck = (sk_rcks ck gid, sk_rcks ck gid \<noteq> None)"

text \<open>
  An iteration comes with the configuration \<^verbatim>\<open>Query\<close> returned and the events of the call to the group. The
  clerk of a group is shared by pointer, so the map sees its leader change.
\<close>

fun SKClerk_Get ::
  "(ShardConfig \<times> (grp_event \<times> bool) list) list \<Rightarrow> string \<Rightarrow> SKClerk \<Rightarrow> grps
     \<Rightarrow> (grps \<times> SKClerk \<times> string \<times> Tversion \<times> Err) outcome" where
  "SKClerk_Get [] key ck w = Waiting"
| "SKClerk_Get ((cfg, evs) # its) key ck w =
     (case GidServers cfg (Key2Shard key) of
        None \<Rightarrow> Panicked
      | Some (groupId, servers, known) \<Rightarrow>
          (case GClerk_Get evs key (MakeGClerk servers) (w servers) of
             Waiting \<Rightarrow> Waiting
           | Panicked \<Rightarrow> Panicked
           | Returned (g, gck, val, version, err) \<Rightarrow>
               let w1 = w(servers := g); ck1 = ck\<lparr>sk_rcks := (sk_rcks ck)(groupId \<mapsto> gck)\<rparr>
               in if err = ErrWrongGroup \<or> err = ErrorNoResponse then SKClerk_Get its key ck1 w1
                  else Returned (w1, ck1, val, version, err)))"

fun SKClerk_Put_loop ::
  "(ShardConfig \<times> (grp_event \<times> bool) list) list \<Rightarrow> string \<Rightarrow> string \<Rightarrow> Tversion \<Rightarrow> bool \<Rightarrow> SKClerk \<Rightarrow> grps
     \<Rightarrow> (grps \<times> SKClerk \<times> Err) outcome" where
  "SKClerk_Put_loop [] key val version isFirstTry ck w = Waiting"
| "SKClerk_Put_loop ((cfg, evs) # its) key val version isFirstTry ck w =
     (case GidServers cfg (Key2Shard key) of
        None \<Rightarrow> Panicked
      | Some (groupId, servers, known) \<Rightarrow>
          (case GClerk_Put evs key val version (MakeGClerk servers) (w servers) of
             Waiting \<Rightarrow> Waiting
           | Panicked \<Rightarrow> Panicked
           | Returned (g, gck, err) \<Rightarrow>
               let w1 = w(servers := g); ck1 = ck\<lparr>sk_rcks := (sk_rcks ck)(groupId \<mapsto> gck)\<rparr>
               in if err = ErrWrongGroup \<or> err = ErrorNoResponse then
                    SKClerk_Put_loop its key val version False ck1 w1
                  else if err = ErrVersion \<and> \<not> isFirstTry then Returned (w1, ck1, ErrMaybe)
                  else Returned (w1, ck1, err)))"

definition SKClerk_Put ::
  "(ShardConfig \<times> (grp_event \<times> bool) list) list \<Rightarrow> string \<Rightarrow> string \<Rightarrow> Tversion \<Rightarrow> SKClerk \<Rightarrow> grps
     \<Rightarrow> (grps \<times> SKClerk \<times> Err) outcome" where
  "SKClerk_Put its key val version ck w = SKClerk_Put_loop its key val version True ck w"

section \<open>The retry loop\<close>

text \<open>
  A loop that ends with an answer ends right after a call the group executed and answered; when it was
  the first call, nothing else had been sent.
\<close>

lemma grp_call_answer:
  assumes "grp_call req handler ev g = (g1, Some x)" and "errOf x \<noteq> ErrWrongLeader"
    and "\<And>y. handler (\<lambda>q. (ErrWrongLeader, None)) = Some y \<Longrightarrow> errOf y = ErrWrongLeader"
  shows "\<exists>kv kv' r. snd ev = GAnswered \<and> grp_run (fst ev) g = Some kv \<and> grp_DoOp req kv = Some (kv', r)
    \<and> g1 = Some kv' \<and> handler (\<lambda>q. (OK, Some r)) = Some x"
  using assms
  by (cases "snd ev") (auto simp: grp_call_def Let_def bind_Some_iff grp_run_def)

lemma grp_loop_answer:
  assumes "grp_loop (grp_call req handler) errOf evs reply first init ck g = Returned (g', x, ck', e, first')"
    and "e \<noteq> ErrorNoResponse"
    and wl: "\<And>y. handler (\<lambda>q. (ErrWrongLeader, None)) = Some y \<Longrightarrow> errOf y = ErrWrongLeader"
  shows "\<exists>others b evs' g0 kv kv' r. grp_run others g0 = Some kv \<and> grp_DoOp req kv = Some (kv', r)
    \<and> g' = Some kv' \<and> handler (\<lambda>q. (OK, Some r)) = Some x \<and> e = OK
    \<and> (first' \<longrightarrow> first \<and> evs = ((others, GAnswered), b) # evs' \<and> g0 = g)
    \<and> (\<not> first' \<longrightarrow> first \<longrightarrow> 1 < length evs)"
  using assms(1,2)
proof (induction evs arbitrary: reply first init ck g)
  case (Cons eb evs)
  obtain others a b where eb: "eb = ((others, a), b)" by (metis surj_pair)
  obtain g1 r where c: "grp_call req handler (others, a) g = (g1, r)" by fastforce
  let ?reply = "case r of None \<Rightarrow> reply | Some x \<Rightarrow> x"
  let ?ck = "ck\<lparr>gc_leader := (gc_leader ck + 1) mod go_len (gc_servers ck)\<rparr>"
  have srv: "go_nth (gc_servers ck) (gc_leader ck) \<noteq> None" using Cons.prems(1) eb by (auto split: option.splits)
  show ?case
  proof (cases "r = None \<or> errOf ?reply = ErrWrongLeader")
    case True
    then have "\<exists>init'. grp_loop (grp_call req handler) errOf evs ?reply False init' ?ck g1
        = Returned (g', x, ck', e, first')"
      using Cons.prems srv eb c by (auto simp: Let_def split: option.splits if_splits)
    then obtain init' where l: "grp_loop (grp_call req handler) errOf evs ?reply False init' ?ck g1
        = Returned (g', x, ck', e, first')" by blast
    then have "evs \<noteq> []" by auto
    then have len: "1 < length (eb # evs)" by simp
    obtain others' g0 kv kv' r' where "grp_run others' g0 = Some kv" "grp_DoOp req kv = Some (kv', r')"
      "g' = Some kv'" "handler (\<lambda>q. (OK, Some r')) = Some x" "e = OK" "\<not> first'"
      using Cons.IH [OF l Cons.prems(2)] by blast
    then show ?thesis using len by blast
  next
    case False
    then obtain y where y: "r = Some y" "errOf y \<noteq> ErrWrongLeader" by auto
    then have f: "g' = g1" "x = y" "e = OK" "first' = first" using Cons.prems srv eb c False by auto
    obtain kv kv' r' where "a = GAnswered" "grp_run others g = Some kv" "grp_DoOp req kv = Some (kv', r')"
      "g1 = Some kv'" "handler (\<lambda>q. (OK, Some r')) = Some y"
      using grp_call_answer [of req handler "(others, a)" g g1 y errOf, OF c [unfolded y(1)] y(2) wl] by auto
    then show ?thesis using f eb by blast
  qed
qed simp

text \<open>What every request of others and the request itself keep holds of the group when the loop returns.\<close>

lemma grp_loop_inv:
  assumes "grp_loop (grp_call req handler) errOf evs reply first init ck g = Returned (g', x, ck', e, first')"
    and wl: "\<And>y. handler (\<lambda>q. (ErrWrongLeader, None)) = Some y \<Longrightarrow> errOf y = ErrWrongLeader"
    and others: "\<And>ev g. ev \<in> set evs \<Longrightarrow> P g \<Longrightarrow> P (grp_run (fst (fst ev)) g)"
    and own: "\<And>g. P g \<Longrightarrow> P (grp_run [req] g)" and "P g"
  shows "P g' \<and> gc_servers ck' = gc_servers ck
    \<and> (e \<noteq> ErrorNoResponse \<longrightarrow> (\<exists>kv kv' r. P (Some kv) \<and> grp_DoOp req kv = Some (kv', r) \<and> g' = Some kv'
         \<and> handler (\<lambda>q. (OK, Some r)) = Some x))"
  using assms(1) others \<open>P g\<close>
proof (induction evs arbitrary: reply first init ck g)
  case (Cons eb evs)
  obtain os a b where eb: "eb = ((os, a), b)" by (metis surj_pair)
  obtain g1 r where c: "grp_call req handler (os, a) g = (g1, r)" by fastforce
  let ?reply = "case r of None \<Rightarrow> reply | Some x \<Rightarrow> x"
  let ?ck = "ck\<lparr>gc_leader := (gc_leader ck + 1) mod go_len (gc_servers ck)\<rparr>"
  have srv: "go_nth (gc_servers ck) (gc_leader ck) \<noteq> None" using Cons.prems(1) eb by (auto split: option.splits)
  have g0: "P (grp_run os g)" using Cons.prems(2) [of eb g] Cons.prems(3) eb by simp
  have g1: "P g1" using g0 own [OF g0] c by (cases a) (auto simp: grp_call_def Let_def)
  show ?case
  proof (cases "r = None \<or> errOf ?reply = ErrWrongLeader")
    case True
    then consider "g' = g1" "ck' = ?ck" "e = ErrorNoResponse"
      | init' where "grp_loop (grp_call req handler) errOf evs ?reply False init' ?ck g1 = Returned (g', x, ck', e, first')"
      using Cons.prems(1) srv eb c by (auto simp: Let_def split: option.splits if_splits)
    then show ?thesis
    proof cases
      case 2
      have o: "\<And>ev g. ev \<in> set evs \<Longrightarrow> P g \<Longrightarrow> P (grp_run (fst (fst ev)) g)" using Cons.prems(2) by simp
      from Cons.IH [OF 2 o g1] show ?thesis by simp
    qed (use g1 in simp)
  next
    case False
    then obtain y where y: "r = Some y" "errOf y \<noteq> ErrWrongLeader" by auto
    then have f: "g' = g1" "x = y" "e = OK" "ck' = ck" using Cons.prems(1) srv eb c False by auto
    obtain kv kv' r' where "grp_run os g = Some kv" "grp_DoOp req kv = Some (kv', r')"
      "g1 = Some kv'" "handler (\<lambda>q. (OK, Some r')) = Some y"
      using grp_call_answer [of req handler "(os, a)" g g1 y errOf, OF c [unfolded y(1)] y(2) wl] by auto
    then show ?thesis using f g0 g1 by auto
  qed
qed simp

text \<open>Failing calls move on one server each.\<close>

lemma failing_call: "snd ev \<in> {GRequestLost, GReplyLost} \<Longrightarrow> \<exists>g1. grp_call req handler ev g = (g1, None)"
  by (auto simp: grp_call_def Let_def)

lemma grp_loop_gives_up:
  assumes "\<forall>e \<in> set evs. snd (fst e) \<in> {GRequestLost, GReplyLost} \<and> \<not> snd e"
    and "errOf reply \<noteq> ErrWrongLeader" and "gc_servers ck = servers" and "gc_leader ck = int k"
    and "k < length servers" and "length servers - k \<le> length evs"
  shows "\<exists>g'. grp_loop (grp_call req handler) errOf evs reply first 0 ck g
    = Returned (g', reply, ck\<lparr>gc_leader := 0\<rparr>, ErrorNoResponse, False)"
  using assms(1,3-6)
proof (induction evs arbitrary: k first ck g)
  case (Cons eb evs)
  obtain ev where eb: "eb = (ev, False)" using Cons.prems(1) by (cases eb) auto
  have "snd ev \<in> {GRequestLost, GReplyLost}" using Cons.prems(1) eb by simp
  from failing_call [OF this] obtain g1 where c: "grp_call req handler ev g = (g1, None)" by blast
  have n: "go_nth (gc_servers ck) (gc_leader ck) = Some (servers ! k)"
    using Cons.prems by (simp add: go_nth_def go_len_def)
  let ?ck = "ck\<lparr>gc_leader := (gc_leader ck + 1) mod go_len (gc_servers ck)\<rparr>"
  show ?case
  proof (cases "Suc k = length servers")
    case True
    then have "(gc_leader ck + 1) mod go_len (gc_servers ck) = 0"
      using Cons.prems by (simp add: go_len_def) (metis mod_self of_nat_Suc add.commute)
    then show ?thesis using eb c n assms(2) by simp
  next
    case False
    then have l: "(gc_leader ck + 1) mod go_len (gc_servers ck) = int (Suc k)"
      using Cons.prems by (simp add: go_len_def mod_pos_pos_trivial)
    have "\<exists>g'. grp_loop (grp_call req handler) errOf evs reply False 0 ?ck g1
        = Returned (g', reply, ?ck\<lparr>gc_leader := 0\<rparr>, ErrorNoResponse, False)"
      using Cons.prems False l by (intro Cons.IH [of "?ck" "Suc k"]) auto
    then show ?thesis using eb c n assms(2) l by auto
  qed
qed simp

lemma grp_loop_waits:
  assumes "\<forall>e \<in> set evs. snd (fst e) \<in> {GRequestLost, GReplyLost} \<and> \<not> snd e"
    and "errOf reply = ErrWrongLeader" and "0 \<le> gc_leader ck" and "gc_leader ck < go_len (gc_servers ck)"
  shows "grp_loop (grp_call req handler) errOf evs reply first init ck g = Waiting"
  using assms(1,3,4)
proof (induction evs arbitrary: first init ck g)
  case (Cons eb evs)
  obtain ev where eb: "eb = (ev, False)" using Cons.prems(1) by (cases eb) auto
  have "snd ev \<in> {GRequestLost, GReplyLost}" using Cons.prems(1) eb by simp
  from failing_call [OF this] obtain g1 where c: "grp_call req handler ev g = (g1, None)" by blast
  have n: "go_nth (gc_servers ck) (gc_leader ck) = Some (gc_servers ck ! nat (gc_leader ck))"
    using Cons.prems by (simp add: go_nth_def)
  have "0 < go_len (gc_servers ck)" using Cons.prems by linarith
  then have "0 \<le> (gc_leader ck + 1) mod go_len (gc_servers ck)"
    "(gc_leader ck + 1) mod go_len (gc_servers ck) < go_len (gc_servers ck)" by simp_all
  then show ?case using eb c n assms(2) Cons by simp
qed simp

section \<open>Gets and puts\<close>

lemma put_handler_wrong_leader:
  "grp_Put (\<lambda>q. (ErrWrongLeader, None)) a = Some y \<Longrightarrow> y = ErrWrongLeader"
  by (simp add: grp_Put_def)

lemma get_handler_wrong_leader:
  "grp_Get (\<lambda>q. (ErrWrongLeader, None)) a = Some y \<Longrightarrow> gr_Err y = ErrWrongLeader"
  by (auto simp: grp_Get_def)

lemma put_handler_answer: "grp_Put (\<lambda>q. (OK, Some r)) a = Some e \<Longrightarrow> r = GPutResponse e"
  by (cases r) (simp_all add: grp_Put_def)

lemma do_put_response:
  "grp_DoOp (GPut key val version) kv = Some (kv', GPutResponse e) \<Longrightarrow> e \<in> {OK, ErrNoKey, ErrVersion, ErrWrongGroup}"
  by (auto simp: grp_DoOp_def do_put_def Let_def bind_Some_iff split: if_splits option.splits)

text \<open>One call of the group's clerk: what it sent and what its result tells.\<close>

lemma GClerk_Put_result:
  assumes "GClerk_Put evs key val version ck g = Returned (g', ck', err)" and "err \<noteq> ErrorNoResponse"
  shows "\<exists>others b evs' g0 kv kv' e. grp_run others g0 = Some kv
    \<and> grp_DoOp (GPut key val version) kv = Some (kv', GPutResponse e) \<and> g' = Some kv'
    \<and> (err = e \<and> (e = ErrVersion \<longrightarrow> evs = ((others, GAnswered), b) # evs' \<and> g0 = g)
       \<or> err = ErrMaybe \<and> e = ErrVersion \<and> 1 < length evs)"
proof -
  let ?args = "\<lparr>p_Key = key, p_Value = val, p_Version = version\<rparr>"
  let ?call = "grp_call (GPut key val version) (\<lambda>submit. grp_Put submit ?args)"
  obtain x e first where l: "grp_loop ?call (\<lambda>e. e) evs NoErr True (gc_leader ck) ck g = Returned (g', x, ck', e, first)"
    and e: "e \<noteq> ErrorNoResponse" and err: "err = (if \<not> first \<and> x = ErrVersion then ErrMaybe else x)"
    using assms unfolding GClerk_Put_def
    by (cases "grp_loop ?call (\<lambda>e. e) evs NoErr True (gc_leader ck) ck g") (auto split: if_splits)
  obtain others b evs' g0 kv kv' r where a: "grp_run others g0 = Some kv" "grp_DoOp (GPut key val version) kv = Some (kv', r)"
    "g' = Some kv'" "grp_Put (\<lambda>q. (OK, Some r)) ?args = Some x"
    "first \<longrightarrow> evs = ((others, GAnswered), b) # evs' \<and> g0 = g" "\<not> first \<longrightarrow> 1 < length evs"
    using grp_loop_answer [OF l e] put_handler_wrong_leader by blast
  then have "grp_DoOp (GPut key val version) kv = Some (kv', GPutResponse x)" using put_handler_answer by blast
  moreover have "err = x \<and> (x = ErrVersion \<longrightarrow> evs = ((others, GAnswered), b) # evs' \<and> g0 = g)
      \<or> err = ErrMaybe \<and> x = ErrVersion \<and> 1 < length evs"
    using err a(5,6) by (cases first) simp_all
  ultimately show ?thesis using a(1,3) by blast
qed

lemma GClerk_Get_result:
  assumes "GClerk_Get evs key ck g = Returned (g', ck', v, ver, err)" and "err \<noteq> ErrorNoResponse"
  shows "\<exists>kv. g' = Some kv \<and> do_get key kv = GGetResponse v ver err"
proof -
  let ?call = "grp_call (GGet key) (\<lambda>submit. grp_Get submit \<lparr>g_Key = key\<rparr>)"
    and ?r0 = "\<lparr>gr_Value = '''', gr_Version = 0, gr_Err = NoErr\<rparr>"
  obtain x e first where l: "grp_loop ?call gr_Err evs ?r0 True (gc_leader ck) ck g = Returned (g', x, ck', e, first)"
    and e: "e \<noteq> ErrorNoResponse" and x: "v = gr_Value x" "ver = gr_Version x" "err = gr_Err x"
    using assms unfolding GClerk_Get_def
    by (cases "grp_loop ?call gr_Err evs ?r0 True (gc_leader ck) ck g") (auto split: if_splits)
  obtain kv kv' r where a: "grp_DoOp (GGet key) kv = Some (kv', r)" "g' = Some kv'"
    "grp_Get (\<lambda>q. (OK, Some r)) \<lparr>g_Key = key\<rparr> = Some x"
    using grp_loop_answer [OF l e] get_handler_wrong_leader by blast
  have "r = GGetResponse v ver err" using a(3) x by (cases r) (auto simp: grp_Get_def)
  then show ?thesis using a(1,2) by (auto simp: grp_DoOp_def)
qed

section \<open>Properties\<close>

definition put_answered :: "string \<Rightarrow> string \<Rightarrow> Tversion \<Rightarrow> Err \<Rightarrow> GKVServer \<Rightarrow> GKVServer \<Rightarrow> bool" where
  "put_answered key val version e kv kv' \<longleftrightarrow> grp_DoOp (GPut key val version) kv = Some (kv', GPutResponse e)"

lemma SKClerk_Put_later:
  assumes "SKClerk_Put_loop its key val version False ck w = Returned (w', ck', err)"
  shows "err \<in> {OK, ErrNoKey, ErrMaybe}
    \<and> (\<exists>servers kv kv' e. w' servers = Some kv' \<and> put_answered key val version e kv kv'
         \<and> (err = ErrMaybe \<and> e = ErrVersion \<or> err = e))"
  using assms
proof (induction its arbitrary: ck w)
  case (Cons it its)
  obtain cfg evs where it: "it = (cfg, evs)" by fastforce
  obtain gid servers known where gs: "GidServers cfg (Key2Shard key) = Some (gid, servers, known)"
    using Cons.prems it by (auto split: option.splits)
  obtain g gck e where c: "GClerk_Put evs key val version (MakeGClerk servers) (w servers) = Returned (g, gck, e)"
    using Cons.prems it gs by (auto split: outcome.splits)
  let ?ck = "ck\<lparr>sk_rcks := (sk_rcks ck)(gid \<mapsto> gck)\<rparr>"
  show ?case
  proof (cases "e = ErrWrongGroup \<or> e = ErrorNoResponse")
    case True
    then have "SKClerk_Put_loop its key val version False ?ck (w(servers := g)) = Returned (w', ck', err)"
      using Cons.prems it gs c by auto
    then show ?thesis by (rule Cons.IH)
  next
    case False
    then obtain kv kv' x where a: "grp_DoOp (GPut key val version) kv = Some (kv', GPutResponse x)" "g = Some kv'"
      "e = x \<or> e = ErrMaybe \<and> x = ErrVersion"
      using GClerk_Put_result [OF c] by blast
    have w: "w' = w(servers := g)" "err = (if e = ErrVersion then ErrMaybe else e)"
      using Cons.prems it gs c False by (auto simp: Let_def split: if_splits)
    have "w' servers = Some kv'" using w a(2) by simp
    moreover have "err = ErrMaybe \<and> x = ErrVersion \<or> err = x" using a(3) w(2) by auto
    ultimately show ?thesis using do_put_response [OF a(1)] False a(1,3) w(2) unfolding put_answered_def by auto
  qed
qed simp

text \<open>C34. What the result of a put on the sharded service tells. It is never \<^verbatim>\<open>ErrWrongGroup\<close> or \<^verbatim>\<open>ErrorNoResponse\<close>.
  \<^verbatim>\<open>OK\<close>: some group has executed the put with success, and nothing since. \<^verbatim>\<open>ErrVersion\<close>: the clerk sent the
  request once, and the group that executed it rejected it, so the put had no effect. \<^verbatim>\<open>ErrMaybe\<close>: the last
  request was rejected and more than one was sent.\<close>

theorem shardkv_put_results:
  assumes "SKClerk_Put its key val version ck w = Returned (w', ck', err)"
  shows "err \<in> {OK, ErrNoKey, ErrVersion, ErrMaybe}
    \<and> (\<exists>servers kv kv' e. w' servers = Some kv' \<and> put_answered key val version e kv kv'
         \<and> (err = e \<or> err = ErrMaybe \<and> e = ErrVersion))
    \<and> (err = ErrVersion \<longrightarrow>
        (\<exists>cfg others b evs rest gid servers known kv kv'. its = (cfg, ((others, GAnswered), b) # evs) # rest
          \<and> GidServers cfg (Key2Shard key) = Some (gid, servers, known)
          \<and> grp_run others (w servers) = Some kv \<and> put_answered key val version ErrVersion kv kv'
          \<and> w' = w(servers := Some kv')))
    \<and> (err = ErrMaybe \<longrightarrow> 1 < length its \<or> 1 < length (snd (hd its)))"
proof -
  obtain cfg evs rest where its: "its = (cfg, evs) # rest"
    using assms by (cases its) (auto simp: SKClerk_Put_def)
  obtain gid servers known where gs: "GidServers cfg (Key2Shard key) = Some (gid, servers, known)"
    using assms its by (auto simp: SKClerk_Put_def split: option.splits)
  obtain g gck e where c: "GClerk_Put evs key val version (MakeGClerk servers) (w servers) = Returned (g, gck, e)"
    using assms its gs by (auto simp: SKClerk_Put_def split: outcome.splits)
  let ?ck = "ck\<lparr>sk_rcks := (sk_rcks ck)(gid \<mapsto> gck)\<rparr>"
  show ?thesis
  proof (cases "e = ErrWrongGroup \<or> e = ErrorNoResponse")
    case True
    then have l: "SKClerk_Put_loop rest key val version False ?ck (w(servers := g)) = Returned (w', ck', err)"
      using assms its gs c by (auto simp: SKClerk_Put_def)
    then have "1 < length its" using its by (cases rest) auto
    then show ?thesis using SKClerk_Put_later [OF l] by blast
  next
    case False
    have w: "w' = w(servers := g)" "err = e" using assms its gs c False by (auto simp: SKClerk_Put_def)
    obtain others b evs' g0 kv kv' x where a: "grp_run others g0 = Some kv"
      "grp_DoOp (GPut key val version) kv = Some (kv', GPutResponse x)" "g = Some kv'"
      "e = x \<and> (x = ErrVersion \<longrightarrow> evs = ((others, GAnswered), b) # evs' \<and> g0 = w servers)
       \<or> e = ErrMaybe \<and> x = ErrVersion \<and> 1 < length evs"
      using GClerk_Put_result [OF c] False by blast
    have x: "x \<in> {OK, ErrNoKey, ErrVersion, ErrWrongGroup}" using do_put_response [OF a(2)] .
    have 1: "err \<in> {OK, ErrNoKey, ErrVersion, ErrMaybe}" using a(4) w(2) x False by auto
    have 2: "w' servers = Some kv'" "put_answered key val version x kv kv'" "err = x \<or> err = ErrMaybe \<and> x = ErrVersion"
      using w a unfolding put_answered_def by auto
    have 3: "evs = ((others, GAnswered), b) # evs' \<and> g0 = w servers \<and> x = ErrVersion" if "err = ErrVersion"
      using a(4) w(2) x that by auto
    have 4: "1 < length (snd (hd its))" if "err = ErrMaybe" using a(4) w(2) x that its by auto
    show ?thesis using 1 2 3 4 gs its a(1,3) w(1) by blast
  qed
qed

definition demo_groups :: grps where
  "demo_groups servers = (if servers = [''a'', ''b''] then Some (NewGKVServer 1) else None)"

definition demo_shards :: ShardConfig where
  "demo_shards = \<lparr>Num = 1, Shards = replicate NShards 1, Groups = [(1, [''a'', ''b''])]\<rparr>"

theorem shardkv_put_results_witness:
  "\<exists>w' ck'. SKClerk_Put [(demo_shards, [(([], GReplyLost), False), (([], GAnswered), False)])] ''x'' ''v'' 0
      MakeSKClerk demo_groups = Returned (w', ck', ErrMaybe)
    \<and> (\<exists>servers kv kv'. w' servers = Some kv' \<and> put_answered ''x'' ''v'' 0 ErrVersion kv kv')"
proof -
  let ?its = "[(demo_shards, [(([], GReplyLost), False), (([], GAnswered), False)])]"
  have "map_outcome (\<lambda>r. snd (snd r)) (SKClerk_Put ?its ''x'' ''v'' 0 MakeSKClerk demo_groups) = Returned ErrMaybe"
    by code_simp
  then obtain w' ck' where r: "SKClerk_Put ?its ''x'' ''v'' 0 MakeSKClerk demo_groups = Returned (w', ck', ErrMaybe)"
    by (cases "SKClerk_Put ?its ''x'' ''v'' 0 MakeSKClerk demo_groups") auto
  obtain servers kv kv' e where s: "w' servers = Some kv'" "put_answered ''x'' ''v'' 0 e kv kv'"
    "ErrMaybe = e \<or> e = ErrVersion"
    using shardkv_put_results [OF r] by blast
  then have "e = ErrVersion" using do_put_response [of "''x''" "''v''" 0 kv kv' e] unfolding put_answered_def by auto
  then show ?thesis using r s by blast
qed

text \<open>What a get on the sharded service reads: when it returns, some group was working the key's shard,
  and the value and version are those that group holds for the key, or \<^verbatim>\<open>ErrNoKey\<close> when it holds none.\<close>

lemma shardkv_get_reads_owner:
  assumes "SKClerk_Get its key ck w = Returned (w', ck', v, ver, err)"
  shows "\<exists>servers kv. w' servers = Some kv \<and> c_State (config_of kv (Key2Shard key)) = WorkingState
    \<and> (err = OK \<and> grp_view kv key = Some (v, ver) \<or> err = ErrNoKey \<and> grp_view kv key = None \<and> v = '''' \<and> ver = 0)"
  using assms
proof (induction its arbitrary: ck w)
  case (Cons it its)
  obtain cfg evs where it: "it = (cfg, evs)" by fastforce
  obtain gid servers known where gs: "GidServers cfg (Key2Shard key) = Some (gid, servers, known)"
    using Cons.prems it by (auto split: option.splits)
  obtain g gck v1 ver1 e where c: "GClerk_Get evs key (MakeGClerk servers) (w servers) = Returned (g, gck, v1, ver1, e)"
    using Cons.prems it gs by (auto split: outcome.splits)
  let ?ck = "ck\<lparr>sk_rcks := (sk_rcks ck)(gid \<mapsto> gck)\<rparr>"
  show ?case
  proof (cases "e = ErrWrongGroup \<or> e = ErrorNoResponse")
    case True
    then have "SKClerk_Get its key ?ck (w(servers := g)) = Returned (w', ck', v, ver, err)"
      using Cons.prems it gs c by auto
    then show ?thesis by (rule Cons.IH)
  next
    case False
    then obtain kv where kv: "g = Some kv" "do_get key kv = GGetResponse v1 ver1 e"
      using GClerk_Get_result [OF c] by blast
    have w: "w' = w(servers := g)" "v = v1" "ver = ver1" "err = e"
      using Cons.prems it gs c False by (auto simp: Let_def)
    have "c_State (config_of kv (Key2Shard key)) = WorkingState" "w' servers = Some kv"
      "err = OK \<and> grp_view kv key = Some (v, ver) \<or> err = ErrNoKey \<and> grp_view kv key = None \<and> v = '''' \<and> ver = 0"
      using kv w False by (auto simp: do_get_def grp_view_def serving_iff Let_def split: if_splits option.splits)
    then show ?thesis by blast
  qed
qed simp

text \<open>When the group's clerk gives up. If every call fails, it tries each server once and returns
  \<^verbatim>\<open>ErrorNoResponse\<close>. But once a server has answered \<^verbatim>\<open>ErrWrongLeader\<close>, the reply variable keeps that error
  through the failing calls that follow, each of which then restarts the round: only the timeout ends the
  loop, however many calls fail.\<close>

lemma grp_clerk_gives_up:
  assumes "servers \<noteq> []" and "\<forall>e \<in> set evs. snd (fst e) \<in> {GRequestLost, GReplyLost} \<and> \<not> snd e"
  shows "(length servers \<le> length evs \<longrightarrow>
      (\<exists>g'. GClerk_Put evs key val version (MakeGClerk servers) g = Returned (g', MakeGClerk servers, ErrorNoResponse)))
    \<and> GClerk_Put (((others, GNotLeader), False) # evs) key val version (MakeGClerk servers) g = Waiting"
proof -
  let ?args = "\<lparr>p_Key = key, p_Value = val, p_Version = version\<rparr>" and ?ck = "MakeGClerk servers"
  let ?h = "\<lambda>submit. grp_Put submit ?args"
  let ?ck1 = "?ck\<lparr>gc_leader := 1 mod go_len servers\<rparr>"
  have pos: "0 < go_len servers" using assms(1) by simp
  have "\<exists>g'. GClerk_Put evs key val version ?ck g = Returned (g', ?ck, ErrorNoResponse)"
    if n: "length servers \<le> length evs"
    using grp_loop_gives_up [OF assms(2), of "\<lambda>e. e" NoErr ?ck servers 0 "GPut key val version" ?h True g] assms(1) n
    by (auto simp: GClerk_Put_def MakeGClerk_def)
  moreover have "grp_loop (grp_call (GPut key val version) ?h) (\<lambda>e. e) evs ErrWrongLeader False
      (1 mod go_len servers) ?ck1 (grp_run others g) = Waiting"
    by (rule grp_loop_waits [OF assms(2)]) (use pos in \<open>simp_all add: MakeGClerk_def\<close>)
  moreover have "go_nth servers 0 = Some (hd servers)" using assms(1) by (rule go_nth_zero)
  ultimately show ?thesis
    by (simp add: GClerk_Put_def MakeGClerk_def grp_call_def grp_Put_def)
qed

text \<open>The clerk ignores whether the group of a shard is known: while the configuration assigns the key's
  shard to a group without servers, the first call indexes an empty list of servers and panics.\<close>

lemma shardkv_clerk_panics_without_servers:
  assumes "GidServers cfg (Key2Shard key) = Some (gid, [], known)" and "evs \<noteq> []"
  shows "SKClerk_Put ((cfg, evs) # its) key val version ck w = Panicked
    \<and> SKClerk_Get ((cfg, evs) # its) key ck w = Panicked"
proof -
  obtain ev b evs' where e: "evs = (ev, b) # evs'" using assms(2) by (cases evs) auto
  have "go_nth ([] :: string list) 0 = None" by (simp add: go_nth_def)
  then show ?thesis
    using assms(1) by (simp add: SKClerk_Put_def GClerk_Put_def GClerk_Get_def MakeGClerk_def e)
qed

end
