(* ===== verification/Shard_Move.thy ===== *)
theory Shard_Move
  imports Shard_Grp
begin

text \<open>
  The protocol that moves a shard: two groups, their clients, and any number of controllers that carry out
  the same move, stop anywhere and repeat calls whose replies were lost, as a transition system over the
  groups' state machines. Its steps are the calls \<^verbatim>\<open>moveShardToGroup\<close> makes. The two groups together are shown
  to behave, for the shard's keys, like one versioned store.
\<close>

section \<open>Definitions\<close>

record mstate =
  m_old :: GKVServer
  m_new :: GKVServer
  m_states :: "shard_bytes set" \<comment> \<open>the states controllers got from freezing\<close>
  m_installed :: bool \<comment> \<open>a controller got the answer to an installation\<close>

datatype mlabel = Client grp_req grp_resp | Control

text \<open>Requests that are not part of the move: those of clients, and those for other shards.\<close>

definition client_req :: "int \<Rightarrow> grp_req \<Rightarrow> bool" where
  "client_req sh q = (case q of
     GPut _ _ _ \<Rightarrow> True | GGet _ \<Rightarrow> True | GFreezeShard s _ \<Rightarrow> s \<noteq> sh
   | GInstallShard s _ _ \<Rightarrow> s \<noteq> sh | GDeleteShard s _ \<Rightarrow> s \<noteq> sh | GOther \<Rightarrow> False)"

text \<open>
  A controller goes on to install whatever state the freezing call returned, and to delete once the
  installing call was answered, whatever the answers say.
\<close>

inductive move_step :: "int \<Rightarrow> int \<Rightarrow> mstate \<Rightarrow> mlabel \<Rightarrow> mstate \<Rightarrow> bool" for sh num where
  at_old: "client_req sh q \<Longrightarrow> grp_DoOp q (m_old m) = Some (kv, r) \<Longrightarrow>
    move_step sh num m (Client q r) (m\<lparr>m_old := kv\<rparr>)"
| at_new: "client_req sh q \<Longrightarrow> grp_DoOp q (m_new m) = Some (kv, r) \<Longrightarrow>
    move_step sh num m (Client q r) (m\<lparr>m_new := kv\<rparr>)"
| freeze: "do_freeze sh num (m_old m) = (kv, GFreezeShardResponse b k e) \<Longrightarrow>
    move_step sh num m Control (m\<lparr>m_old := kv, m_states := insert b (m_states m)\<rparr>)"
| install: "b \<in> m_states m \<Longrightarrow> do_install sh b num (m_new m) = (kv, r) \<Longrightarrow>
    move_step sh num m Control (m\<lparr>m_new := kv, m_installed := True\<rparr>)"
| delete: "m_installed m \<Longrightarrow> do_delete sh num (m_old m) = (kv, r) \<Longrightarrow>
    move_step sh num m Control (m\<lparr>m_old := kv\<rparr>)"

inductive_cases move_stepE: "move_step sh num m l m'"

inductive move_reach :: "int \<Rightarrow> int \<Rightarrow> mstate \<Rightarrow> mstate \<Rightarrow> bool" for sh num m0 where
  start: "move_reach sh num m0 m0"
| more: "move_reach sh num m0 m \<Longrightarrow> move_step sh num m l m' \<Longrightarrow> move_reach sh num m0 m'"

text \<open>Before the move: the old group works the shard under an earlier number, the new one does not work it.\<close>

definition move_ready :: "int \<Rightarrow> int \<Rightarrow> GKVServer \<Rightarrow> GKVServer \<Rightarrow> bool" where
  "move_ready sh num old new \<longleftrightarrow>
     c_State (config_of old sh) = WorkingState \<and> c_Num (config_of old sh) < num
     \<and> (case g_keyValue old sh of Some None \<Rightarrow> False | _ \<Rightarrow> True)
     \<and> c_State (config_of new sh) \<noteq> WorkingState \<and> c_Num (config_of new sh) < num"

definition move_start :: "GKVServer \<Rightarrow> GKVServer \<Rightarrow> mstate" where
  "move_start old new = \<lparr>m_old = old, m_new = new, m_states = {}, m_installed = False\<rparr>"

text \<open>The shard's key/value pairs: the new group's once it has the shard, the old group's before.\<close>

definition move_view :: "int \<Rightarrow> int \<Rightarrow> mstate \<Rightarrow> kv_view" where
  "move_view sh num m = grp_view (if c_Num (config_of (m_new m) sh) = num then m_new m else m_old m)"

section \<open>The invariant\<close>

definition shard_state :: "GKVServer \<Rightarrow> int \<Rightarrow> shard_bytes" where
  "shard_state kv sh = encode_map (case g_keyValue kv sh of None \<Rightarrow> None | Some m \<Rightarrow> m)"

definition moving :: "int \<Rightarrow> int \<Rightarrow> mstate \<Rightarrow> bool" where
  \<comment> \<open>not installed yet\<close>
  "moving sh num m \<longleftrightarrow> \<not> m_installed m
     \<and> c_State (config_of (m_new m) sh) \<noteq> WorkingState \<and> c_Num (config_of (m_new m) sh) < num
     \<and> g_keyValue (m_old m) sh \<noteq> Some None
     \<and> (c_State (config_of (m_old m) sh) = WorkingState \<and> c_Num (config_of (m_old m) sh) < num \<and> m_states m = {}
        \<or> config_of (m_old m) sh = \<lparr>c_State = FrozenState, c_Num = num\<rparr> \<and> m_states m \<subseteq> {shard_state (m_old m) sh})"

definition moved :: "int \<Rightarrow> int \<Rightarrow> mstate \<Rightarrow> bool" where
  \<comment> \<open>installed, and perhaps deleted\<close>
  "moved sh num m \<longleftrightarrow> config_of (m_new m) sh = \<lparr>c_State = WorkingState, c_Num = num\<rparr>
     \<and> (\<exists>f. g_keyValue (m_new m) sh = Some (Some f))
     \<and> (config_of (m_old m) sh = \<lparr>c_State = FrozenState, c_Num = num\<rparr>
        \<or> config_of (m_old m) sh = \<lparr>c_State = DontOwnState, c_Num = num\<rparr>)"

lemma move_start_moving: "move_ready sh num old new \<Longrightarrow> moving sh num (move_start old new)"
  by (auto simp: move_ready_def move_start_def moving_def split: option.splits)

text \<open>What a request of others does to the shard at a group.\<close>

lemma do_put_shape:
  assumes "do_put key val version kv = Some (kv', r)"
  shows "g_keyValue kv' sh = g_keyValue kv sh \<or> (\<exists>f. g_keyValue kv' sh = Some (Some f))"
proof (cases "sh = Key2Shard key")
  case False
  then show ?thesis using assms by (auto simp: do_put_def Let_def bind_Some_iff split: if_splits option.splits)
next
  case True
  then show ?thesis using assms
    by (cases "g_keyValue kv sh") (auto simp: do_put_def Let_def map_set_def split: if_splits option.splits)
qed

lemma client_shape:
  assumes "client_req sh q" and "grp_DoOp q kv = Some (kv', r)"
  shows "config_of kv' sh = config_of kv sh"
    and "g_keyValue kv' sh = g_keyValue kv sh
      \<or> c_State (config_of kv sh) = WorkingState \<and> (\<exists>f. g_keyValue kv' sh = Some (Some f))"
proof -
  have "config_of kv' sh = config_of kv sh \<and> (g_keyValue kv' sh = g_keyValue kv sh
      \<or> c_State (config_of kv sh) = WorkingState \<and> (\<exists>f. g_keyValue kv' sh = Some (Some f)))"
  proof (cases q)
    case (GPut key val version)
    then have p: "do_put key val version kv = Some (kv', r)" using assms(2) by (simp add: grp_DoOp_def)
    show ?thesis
    proof (cases "c_State (config_of kv sh) = WorkingState")
      case False
      then show ?thesis using do_put_frame [OF p] by (simp add: serving_iff)
    qed (use do_put_frame(1) [OF p] do_put_shape [OF p] in simp)
  qed (use assms in \<open>auto simp: client_req_def grp_DoOp_def do_freeze_def do_install_def do_delete_def Let_def
         split: if_splits\<close>)
  then show "config_of kv' sh = config_of kv sh"
    and "g_keyValue kv' sh = g_keyValue kv sh
      \<or> c_State (config_of kv sh) = WorkingState \<and> (\<exists>f. g_keyValue kv' sh = Some (Some f))" by blast+
qed

lemma client_frame:
  assumes "client_req sh q" and "grp_DoOp q kv = Some (kv', r)"
  shows "config_of kv' sh = config_of kv sh"
    and "c_State (config_of kv sh) \<noteq> WorkingState \<Longrightarrow> g_keyValue kv' sh = g_keyValue kv sh"
    and "g_keyValue kv sh \<noteq> Some None \<Longrightarrow> g_keyValue kv' sh \<noteq> Some None"
    and "g_keyValue kv sh = Some (Some f) \<Longrightarrow> \<exists>f'. g_keyValue kv' sh = Some (Some f')"
  using client_shape [OF assms] by auto

lemma moving_step:
  assumes "moving sh num m" and "move_step sh num m l m'"
  shows "moving sh num m' \<or> moved sh num m'"
  using assms(2)
proof cases
  case (at_old q kv r)
  note f = client_frame [OF at_old(3,4)]
  have "config_of (m_old m) sh = \<lparr>c_State = FrozenState, c_Num = num\<rparr> \<Longrightarrow> shard_state kv sh = shard_state (m_old m) sh"
    using f(2) by (simp add: shard_state_def)
  then show ?thesis using assms(1) at_old f(1,3) unfolding moving_def by auto
next
  case (at_new q kv r)
  then show ?thesis using assms(1) client_frame(1) [OF at_new(3,4)] unfolding moving_def by auto
next
  case (freeze kv b k e)
  then show ?thesis using assms(1) unfolding moving_def
    by (auto simp: do_freeze_def shard_state_def Let_def split: if_splits)
next
  case (install b kv r)
  have o: "config_of (m_old m) sh = \<lparr>c_State = FrozenState, c_Num = num\<rparr>" "b = shard_state (m_old m) sh"
    "c_Num (config_of (m_new m) sh) < num"
    using assms(1) install unfolding moving_def by auto
  have "kv = fst (do_install sh b num (m_new m))" using install by simp
  then have "moved sh num m'" using o install
    by (auto simp: moved_def do_install_def Let_def decode_map_def shard_state_def encode_map_def)
  then show ?thesis ..
next
  case (delete kv r)
  then show ?thesis using assms(1) by (simp add: moving_def)
qed

lemma moved_step:
  assumes "moved sh num m" and "move_step sh num m l m'"
  shows "moved sh num m'"
  using assms(2)
proof cases
  case (at_old q kv r)
  then show ?thesis using assms(1) client_frame(1) [OF at_old(3,4)] unfolding moved_def by auto
next
  case (at_new q kv r)
  obtain f where "g_keyValue (m_new m) sh = Some (Some f)" using assms(1) unfolding moved_def by blast
  with client_frame(4) [OF at_new(3,4)] show ?thesis
    using assms(1) at_new client_frame(1) [OF at_new(3,4)] unfolding moved_def by auto
qed (use assms(1) in \<open>auto simp: moved_def do_freeze_def do_install_def do_delete_def Let_def split: if_splits\<close>)

lemma move_inv:
  assumes "move_reach sh num m0 m" and "moving sh num m0"
  shows "moving sh num m \<or> moved sh num m"
  using assms by (induction rule: move_reach.induct) (use moving_step moved_step in blast)+

section \<open>One versioned store\<close>

lemma put_is_gput:
  assumes "grp_DoOp (GPut key v ver) kv = Some (kv', r)"
  shows "\<exists>e. r = GPutResponse e \<and> gput \<lparr>p_Key = key, p_Value = v, p_Version = ver\<rparr> kv = (kv', e)"
proof -
  obtain e where "r = GPutResponse e"
    using assms by (auto simp: grp_DoOp_def do_put_def Let_def bind_Some_iff split: if_splits option.splits)
  then show ?thesis using assms by (simp add: gput_def)
qed

text \<open>A client's request at the group that has the shard behaves like one on a versioned store.\<close>

lemma move_put_view:
  assumes "grp_DoOp (GPut key v ver) kv = Some (kv', GPutResponse e)"
  shows "grp_view kv' = (if e = OK then (grp_view kv)(key \<mapsto> (v, ver + 1)) else grp_view kv)"
    and "e = OK \<Longrightarrow> vnum (grp_view kv key) = unat ver"
    and "grp_serves kv key \<Longrightarrow> vnum (grp_view kv key) = unat ver \<Longrightarrow> e = OK"
proof -
  let ?a = "\<lparr>p_Key = key, p_Value = v, p_Version = ver\<rparr>"
  have g: "gput ?a kv = (kv', e)" using put_is_gput [OF assms] by auto
  show "grp_view kv' = (if e = OK then (grp_view kv)(key \<mapsto> (v, ver + 1)) else grp_view kv)"
    using shardgrp.put_cases [of ?a kv] g by simp
  show "e = OK \<Longrightarrow> vnum (grp_view kv key) = unat ver"
    and "grp_serves kv key \<Longrightarrow> vnum (grp_view kv key) = unat ver \<Longrightarrow> e = OK"
    using shardgrp.put_OK_iff [of ?a kv] g by simp_all
qed

lemma get_view:
  assumes "grp_DoOp (GGet key) kv = Some (kv', GGetResponse v ver e)"
  shows "kv' = kv" "e = OK \<Longrightarrow> grp_view kv key = Some (v, ver)" "e = ErrNoKey \<Longrightarrow> grp_view kv key = None"
  using assms by (auto simp: grp_DoOp_def do_get_def grp_view_def Let_def split: if_splits option.splits)

lemma other_view:
  assumes "client_req (Key2Shard key) q" and "grp_DoOp q kv = Some (kv', r)" and "\<And>k v ver. q \<noteq> GPut k v ver"
  shows "grp_view kv' key = grp_view kv key"
  using assms
  by (cases q) (auto simp: client_req_def grp_DoOp_def do_freeze_def do_install_def do_delete_def grp_view_def Let_def
      split: if_splits)

lemma not_working:
  assumes "c_State (config_of kv (Key2Shard key)) \<noteq> WorkingState"
  shows "grp_DoOp (GPut key v ver) kv = Some (kv, GPutResponse ErrWrongGroup)"
    "grp_DoOp (GGet key) kv = Some (kv, GGetResponse '''' 0 ErrWrongGroup)"
  using assms by (simp_all add: grp_DoOp_def do_put_def do_get_def serving_iff Let_def)

lemma no_crash: "g_keyValue kv (Key2Shard key) \<noteq> Some None \<Longrightarrow> grp_DoOp (GPut key v ver) kv \<noteq> None"
  by (auto simp: grp_DoOp_def do_put_def Let_def map_set_def split: option.splits)

lemma view_of_state:
  assumes "g_keyValue kv sh = Some (shard_state kv0 sh)" and "Key2Shard key = sh"
  shows "grp_view kv key = grp_view kv0 key"
  using assms by (auto simp: grp_view_def shard_state_def encode_map_def split: option.splits)

lemma control_keeps_view:
  assumes "moving sh num m \<or> moved sh num m" and "move_step sh num m Control m'" and "Key2Shard key = sh"
  shows "move_view sh num m' key = move_view sh num m key"
  using assms(2)
proof cases
  case (freeze kv b k e)
  then show ?thesis by (auto simp: move_view_def grp_view_def do_freeze_def Let_def split: if_splits)
next
  case (install b kv r)
  show ?thesis
  proof (cases "moved sh num m")
    case True
    then show ?thesis using install by (simp add: move_view_def moved_def do_install_def Let_def)
  next
    case False
    then have o: "b = shard_state (m_old m) sh" "c_Num (config_of (m_new m) sh) < num"
      using assms(1) install unfolding moving_def by auto
    then have "config_of kv sh = \<lparr>c_State = WorkingState, c_Num = num\<rparr>" "g_keyValue kv sh = Some (shard_state (m_old m) sh)"
      using install by (auto simp: do_install_def Let_def decode_map_def)
    then show ?thesis using view_of_state [OF _ assms(3)] o(2) install by (simp add: move_view_def)
  qed
next
  case (delete kv r)
  then have "moved sh num m" using assms(1) by (auto simp: moving_def)
  then show ?thesis using delete by (simp add: move_view_def moved_def)
qed

definition holder :: "int \<Rightarrow> int \<Rightarrow> mstate \<Rightarrow> GKVServer" where
  "holder sh num m = (if c_Num (config_of (m_new m) sh) = num then m_new m else m_old m)"

text \<open>A client's request is executed by the holder, or refused by the other group.\<close>

lemma client_at:
  assumes "moving sh num m \<or> moved sh num m" and "move_step sh num m (Client q r) m'"
  shows "client_req sh q
    \<and> (grp_DoOp q (holder sh num m) = Some (holder sh num m', r)
       \<or> holder sh num m' = holder sh num m
         \<and> (\<exists>kv kv'. c_State (config_of kv sh) \<noteq> WorkingState \<and> grp_DoOp q kv = Some (kv', r)))"
  using assms(2)
proof cases
  case (at_old kv)
  show ?thesis
  proof (cases "moved sh num m")
    case True
    then have "c_State (config_of (m_old m) sh) \<noteq> WorkingState" "holder sh num m' = holder sh num m"
      using at_old unfolding moved_def holder_def by auto
    then show ?thesis using at_old by blast
  next
    case False
    then have "holder sh num m = m_old m" "holder sh num m' = kv"
      using at_old assms(1) unfolding moving_def holder_def by auto
    then show ?thesis using at_old by simp
  qed
next
  case (at_new kv)
  have c: "config_of kv sh = config_of (m_new m) sh" by (rule client_frame(1) [OF at_new(2,3)])
  show ?thesis
  proof (cases "moved sh num m")
    case True
    then have "holder sh num m = m_new m" "holder sh num m' = kv"
      using at_new c unfolding moved_def holder_def by auto
    then show ?thesis using at_new by simp
  next
    case False
    then have "c_State (config_of (m_new m) sh) \<noteq> WorkingState" "holder sh num m' = holder sh num m"
      using at_new c assms(1) unfolding moving_def holder_def by auto
    then show ?thesis using at_new by blast
  qed
qed

lemma holder_served:
  assumes "moving sh num m \<or> moved sh num m" and "Key2Shard key = sh"
  shows "g_keyValue (holder sh num m) sh \<noteq> Some None"
    and "c_State (config_of (holder sh num m) sh) = WorkingState \<Longrightarrow> grp_serves (holder sh num m) key"
  using assms unfolding moving_def moved_def holder_def grp_serves_def by auto

definition put_like_store :: "kv_view \<Rightarrow> string \<Rightarrow> string \<Rightarrow> Tversion \<Rightarrow> Err \<Rightarrow> kv_view \<Rightarrow> bool" where
  "put_like_store view key v ver e view' \<longleftrightarrow>
     (e = OK \<and> vnum (view key) = unat ver \<and> view' key = Some (v, ver + 1)
      \<or> e \<in> {ErrVersion, ErrNoKey} \<and> vnum (view key) \<noteq> unat ver \<and> view' key = view key
      \<or> e = ErrWrongGroup \<and> view' key = view key)"

lemma put_refines:
  assumes "moving sh num m \<or> moved sh num m" and "Key2Shard key = sh"
    and "move_step sh num m (Client (GPut key v ver) (GPutResponse e)) m'"
  shows "put_like_store (move_view sh num m) key v ver e (move_view sh num m')"
proof -
  let ?h = "holder sh num m" and ?h' = "holder sh num m'"
  have mv: "move_view sh num m = grp_view ?h" "move_view sh num m' = grp_view ?h'"
    by (simp_all add: move_view_def holder_def)
  from client_at [OF assms(1,3)] show ?thesis
  proof (elim conjE disjE exE)
    assume p: "grp_DoOp (GPut key v ver) ?h = Some (?h', GPutResponse e)"
    show ?thesis
    proof (cases "c_State (config_of ?h sh) = WorkingState")
      case True
      have "e \<in> {OK, ErrVersion, ErrNoKey}"
        using p True assms(2)
        by (auto simp: grp_DoOp_def do_put_def serving_iff Let_def bind_Some_iff split: if_splits option.splits)
      then show ?thesis using move_put_view [OF p] holder_served(2) [OF assms(1,2) True]
        by (auto simp: put_like_store_def mv)
    next
      case False
      then have "e = ErrWrongGroup" "?h' = ?h" using p not_working(1) [of ?h key v ver] assms(2) by auto
      then show ?thesis by (simp add: put_like_store_def mv)
    qed
  next
    fix kv kv'
    assume "?h' = ?h" "c_State (config_of kv sh) \<noteq> WorkingState" "grp_DoOp (GPut key v ver) kv = Some (kv', GPutResponse e)"
    then show ?thesis using not_working(1) [of kv key v ver] assms(2) by (auto simp: put_like_store_def mv)
  qed
qed

lemma get_refines:
  assumes "moving sh num m \<or> moved sh num m" and "Key2Shard key = sh"
    and "move_step sh num m (Client (GGet key) (GGetResponse v ver e)) m'"
  shows "e = OK \<and> move_view sh num m key = Some (v, ver) \<or> e = ErrNoKey \<and> move_view sh num m key = None
    \<or> e = ErrWrongGroup"
proof -
  let ?h = "holder sh num m"
  have mv: "move_view sh num m = grp_view ?h" by (simp add: move_view_def holder_def)
  have es: "e \<in> {OK, ErrNoKey, ErrWrongGroup}" if "grp_DoOp (GGet key) kv = Some (kv', GGetResponse v ver e)" for kv kv'
    using that by (auto simp: grp_DoOp_def do_get_def Let_def split: if_splits option.splits)
  from client_at [OF assms(1,3)] show ?thesis
  proof (elim conjE disjE exE)
    assume p: "grp_DoOp (GGet key) ?h = Some (holder sh num m', GGetResponse v ver e)"
    then show ?thesis using get_view [OF p] es [OF p] by (auto simp: mv)
  next
    fix kv kv'
    assume "c_State (config_of kv sh) \<noteq> WorkingState" "grp_DoOp (GGet key) kv = Some (kv', GGetResponse v ver e)"
    then show ?thesis using not_working(2) [of kv key] assms(2) by auto
  qed
qed

lemma other_keeps_view:
  assumes "moving sh num m \<or> moved sh num m" and "Key2Shard key = sh" and "move_step sh num m (Client q r) m'"
    and "\<And>v ver. q \<noteq> GPut key v ver"
  shows "move_view sh num m' key = move_view sh num m key"
proof -
  have mv: "move_view sh num m = grp_view (holder sh num m)" "move_view sh num m' = grp_view (holder sh num m')"
    by (simp_all add: move_view_def holder_def)
  from client_at [OF assms(1,3)] show ?thesis
  proof (elim conjE disjE exE)
    assume c: "client_req sh q" and p: "grp_DoOp q (holder sh num m) = Some (holder sh num m', r)"
    show ?thesis
    proof (cases q)
      case (GPut k v ver)
      obtain e where "r = GPutResponse e" using put_is_gput [OF p [unfolded GPut]] by blast
      moreover have "k \<noteq> key" using assms(4) [of v ver] GPut by auto
      ultimately show ?thesis using move_put_view(1) [of k v ver _ _ e] p GPut by (auto simp: mv)
    qed (use other_view [OF _ p] c assms(2) in \<open>auto simp: mv\<close>)
  qed (simp add: mv)
qed

section \<open>Properties\<close>

text \<open>C30. Moving a shard is invisible to its clients. Whatever any number of controllers do to move the shard
  under one configuration number, stopping, repeating and reordering calls, among any requests of clients
  and for other shards: the two groups never both work the shard; no step of a controller changes the
  shard's key/value pairs; a put or a get on one of its keys is answered as one versioned store holding
  these pairs would, or refused with \<^verbatim>\<open>ErrWrongGroup\<close> without effect; and neither group crashes on a put.\<close>

theorem shard_move_one_store:
  assumes "move_ready sh num old new" and "move_reach sh num (move_start old new) m"
    and "move_step sh num m l m'" and "Key2Shard key = sh"
  shows "\<not> (c_State (config_of (m_old m) sh) = WorkingState \<and> c_State (config_of (m_new m) sh) = WorkingState)
    \<and> (case l of
         Client (GPut k v ver) (GPutResponse e) \<Rightarrow>
           (if k = key then put_like_store (move_view sh num m) key v ver e (move_view sh num m')
            else move_view sh num m' key = move_view sh num m key)
       | Client (GGet k) (GGetResponse v ver e) \<Rightarrow>
           move_view sh num m' key = move_view sh num m key
           \<and> (k = key \<longrightarrow> e = OK \<and> move_view sh num m key = Some (v, ver)
                \<or> e = ErrNoKey \<and> move_view sh num m key = None \<or> e = ErrWrongGroup)
       | _ \<Rightarrow> move_view sh num m' key = move_view sh num m key)
    \<and> grp_DoOp (GPut key w wver) (m_old m) \<noteq> None \<and> grp_DoOp (GPut key w wver) (m_new m) \<noteq> None"
proof -
  note inv = move_inv [OF assms(2) move_start_moving [OF assms(1)]]
  have a: "\<not> (c_State (config_of (m_old m) sh) = WorkingState \<and> c_State (config_of (m_new m) sh) = WorkingState)"
    using inv unfolding moving_def moved_def by auto
  have b: "grp_DoOp (GPut key w wver) kv \<noteq> None" if kv: "kv = m_old m \<or> kv = m_new m" for kv
  proof (cases "c_State (config_of kv sh) = WorkingState")
    case True
    then have "g_keyValue kv sh \<noteq> Some None" using inv kv unfolding moving_def moved_def by auto
    then show ?thesis using no_crash assms(4) by blast
  qed (use not_working(1) assms(4) in auto)
  note keep = other_keeps_view [OF inv assms(4)] and put = put_refines [OF inv assms(4)]
    and get = get_refines [OF inv assms(4)]
  show ?thesis
  proof (cases l)
    case Control
    then show ?thesis using a b control_keeps_view [OF inv _ assms(4)] assms(3) by simp
  next
    case (Client q r)
    then have s: "move_step sh num m (Client q r) m'" using assms(3) by simp
    from client_at [OF inv s] obtain kv kv' where d: "grp_DoOp q kv = Some (kv', r)" by blast
    show ?thesis
    proof (cases q)
      case (GPut k v ver)
      then obtain e where e: "r = GPutResponse e" using put_is_gput d by blast
      then have "k = key \<Longrightarrow> put_like_store (move_view sh num m) key v ver e (move_view sh num m')"
        and "k \<noteq> key \<Longrightarrow> move_view sh num m' key = move_view sh num m key"
        using put keep [OF s] s GPut by blast+
      then show ?thesis using a b Client GPut e by simp
    next
      case (GGet k)
      then obtain v ver e where r: "r = GGetResponse v ver e"
        using d by (auto simp: grp_DoOp_def do_get_def Let_def split: if_splits option.splits)
      have "move_view sh num m' key = move_view sh num m key" using keep [OF s] GGet by blast
      moreover have "k = key \<longrightarrow> e = OK \<and> move_view sh num m key = Some (v, ver)
          \<or> e = ErrNoKey \<and> move_view sh num m key = None \<or> e = ErrWrongGroup"
        using get s GGet r by blast
      ultimately show ?thesis using a b Client GGet r by simp
    qed (use a b Client keep [OF s] in simp_all)
  qed
qed

theorem shard_move_one_store_witness:
  "\<exists>m m' r. move_reach (Key2Shard ''x'') 2 (move_start (NewGKVServer 1) (NewGKVServer 2)) m
    \<and> move_step (Key2Shard ''x'') 2 m (Client (GGet ''x'') r) m'
    \<and> \<not> (c_State (config_of (m_old m) (Key2Shard ''x'')) = WorkingState
          \<and> c_State (config_of (m_new m) (Key2Shard ''x'')) = WorkingState)"
proof -
  let ?sh = "Key2Shard ''x''" and ?old = "NewGKVServer 1" and ?new = "NewGKVServer 2"
  have r: "move_ready ?sh 2 ?old ?new" by code_simp
  obtain kv b k e where f: "do_freeze ?sh 2 ?old = (kv, GFreezeShardResponse b k e)"
    by (cases "c_Num (config_of ?old ?sh) > 2"; cases "c_State (config_of ?old ?sh) = DontOwnState")
      (auto simp: do_freeze_def Let_def)
  let ?m = "(move_start ?old ?new)\<lparr>m_old := kv, m_states := {b}\<rparr>"
  have "move_step ?sh 2 (move_start ?old ?new) Control ?m"
    using move_step.freeze [of ?sh 2 "move_start ?old ?new", OF _ ] f by (simp add: move_start_def)
  then have m: "move_reach ?sh 2 (move_start ?old ?new) ?m" using move_reach.intros by blast
  have s: "move_step ?sh 2 ?m (Client (GGet ''x'') (do_get ''x'' kv)) (?m\<lparr>m_old := kv\<rparr>)"
    by (rule move_step.at_old) (simp_all add: client_req_def grp_DoOp_def)
  show ?thesis using shard_move_one_store [OF r m s refl] m s by blast
qed

end
