(* ===== verification/Shard_Json.thy ===== *)
theory Shard_Json
  imports Shard_Cfg Go_Fmt "HOL-Library.List_Lexorder" "HOL-Library.Char_ord"
begin

text \<open>
  How the controller stores a configuration as a string (\<^verbatim>\<open>String\<close> and \<^verbatim>\<open>FromString\<close> of
  \<^verbatim>\<open>shardkv1/shardcfg/shardcfg.go\<close>): what \<^verbatim>\<open>json.Marshal\<close> writes for the struct, and \<^verbatim>\<open>json.Unmarshal\<close> on the
  documents \<^verbatim>\<open>Marshal\<close> writes (no white space, the fields in their order); any other document is an error
  here. A string is read back unchanged when its bytes are ASCII, as those of server names are.
\<close>

section \<open>Definitions\<close>

subsection \<open>Writing\<close>

definition hex :: "nat \<Rightarrow> char" where
  "hex n = (if n < 10 then char_of (48 + n) else char_of (87 + n))"

definition quote_char :: "char \<Rightarrow> string" where
  "quote_char c =
     (if c = CHR 0x22 \<or> c = CHR 0x5C then [CHR 0x5C, c]
      else if c = CHR 0x08 then [CHR 0x5C, CHR ''b'']
      else if c = CHR 0x0C then [CHR 0x5C, CHR ''f'']
      else if c = CHR 0x0A then [CHR 0x5C, CHR ''n'']
      else if c = CHR 0x0D then [CHR 0x5C, CHR ''r'']
      else if c = CHR 0x09 then [CHR 0x5C, CHR ''t'']
      else if of_char c < (32 :: nat) \<or> c = CHR ''<'' \<or> c = CHR ''>'' \<or> c = CHR ''&'' then
        [CHR 0x5C, CHR ''u'', CHR ''0'', CHR ''0'', hex (of_char c div 16), hex (of_char c mod 16)]
      else [c])"

definition quote :: "string \<Rightarrow> string" where
  "quote s = CHR 0x22 # concat (map quote_char s) @ [CHR 0x22]"

fun join :: "string list \<Rightarrow> string" where
  "join [] = []"
| "join [x] = x"
| "join (x # xs) = x @ CHR '','' # join xs"

definition show_array :: "('a \<Rightarrow> string) \<Rightarrow> 'a list \<Rightarrow> string" where
  "show_array f xs = CHR ''['' # join (map f xs) @ [CHR '']'']"

definition show_group :: "int \<times> string list \<Rightarrow> string" where
  "show_group g = quote (show_int (fst g)) @ CHR '':'' # show_array quote (snd g)"

definition group_order :: "int \<times> string list \<Rightarrow> string" where
  \<comment> \<open>the members of a map are written in the order of their keys as strings\<close>
  "group_order g = show_int (fst g)"

definition cfg_String :: "ShardConfig \<Rightarrow> string" where
  \<open>cfg_String cfg =
     ''{"Num":'' @ show_int (Num cfg) @ '',"Shards":'' @ show_array show_int (Shards cfg)
       @ '',"Groups":{'' @ join (map show_group (sort_key group_order (Groups cfg))) @ ''}}''\<close>

subsection \<open>Reading\<close>

fun strip :: "string \<Rightarrow> string \<Rightarrow> string option" where
  "strip [] s = Some s"
| "strip (c # cs) [] = None"
| "strip (c # cs) (d # ds) = (if c = d then strip cs ds else None)"

definition unhex :: "char \<Rightarrow> nat option" where
  "unhex c =
     (let n = of_char c
      in if 48 \<le> n \<and> n < 58 then Some (n - 48)
         else if 97 \<le> n \<and> n < 103 then Some (n - 87)
         else if 65 \<le> n \<and> n < 71 then Some (n - 55) else None)"

definition unescape :: "char \<Rightarrow> char option" where
  "unescape c =
     (if c = CHR 0x22 \<or> c = CHR 0x5C \<or> c = CHR ''/'' then Some c
      else if c = CHR ''b'' then Some (CHR 0x08) else if c = CHR ''f'' then Some (CHR 0x0C)
      else if c = CHR ''n'' then Some (CHR 0x0A) else if c = CHR ''r'' then Some (CHR 0x0D)
      else if c = CHR ''t'' then Some (CHR 0x09) else None)"

text \<open>The rest of a string literal, after the opening quote.\<close>

fun read_chars :: "string \<Rightarrow> (string \<times> string) option" where
  "read_chars [] = None"
| "read_chars (c # cs) =
     (if c = CHR 0x22 then Some ([], cs)
      else if c \<noteq> CHR 0x5C then map_option (\<lambda>(s, r). (c # s, r)) (read_chars cs)
      else case cs of
             [] \<Rightarrow> None
           | e # es \<Rightarrow>
               if e \<noteq> CHR ''u'' then do {
                 x \<leftarrow> unescape e;
                 (s, r) \<leftarrow> read_chars es;
                 Some (x # s, r)
               }
               else case es of
                      z # y # h # l # rest \<Rightarrow>
                        if z \<noteq> CHR ''0'' \<or> y \<noteq> CHR ''0'' then None
                        else do {
                          a \<leftarrow> unhex h;
                          b \<leftarrow> unhex l;
                          (s, r) \<leftarrow> read_chars rest;
                          if 16 * a + b < 128 then Some (char_of (16 * a + b) # s, r) else None
                        }
                    | _ \<Rightarrow> None)"

definition read_string :: "string \<Rightarrow> (string \<times> string) option" where
  "read_string s = do { r \<leftarrow> strip [CHR 0x22] s; read_chars r }"

partial_function (option) read_items ::
  "char \<Rightarrow> (string \<Rightarrow> ('a \<times> string) option) \<Rightarrow> string \<Rightarrow> ('a list \<times> string) option" where
  "read_items close p s = do {
     (x, r) \<leftarrow> p s;
     (case r of
        [] \<Rightarrow> None
      | c # cs \<Rightarrow>
          if c = CHR '','' then do { (xs, r') \<leftarrow> read_items close p cs; Some (x # xs, r') }
          else if c = close then Some ([x], cs) else None)
   }"

declare read_items.simps [code]

text \<open>What follows an opening bracket or brace.\<close>

definition read_seq :: "char \<Rightarrow> (string \<Rightarrow> ('a \<times> string) option) \<Rightarrow> string \<Rightarrow> ('a list \<times> string) option" where
  "read_seq close p s =
     (case s of [] \<Rightarrow> None | c # cs \<Rightarrow> if c = close then Some ([], cs) else read_items close p s)"

definition read_array :: "(string \<Rightarrow> ('a \<times> string) option) \<Rightarrow> string \<Rightarrow> ('a list \<times> string) option" where
  "read_array p s = do { r \<leftarrow> strip ''['' s; read_seq (CHR '']'') p r }"

definition read_group :: "string \<Rightarrow> ((int \<times> string list) \<times> string) option" where
  "read_group s = do {
     (k, r) \<leftarrow> read_string s;
     (g, e) \<leftarrow> read_int k;
     (if e \<noteq> [] then None
      else do {
        r1 \<leftarrow> strip '':'' r;
        (srvs, r2) \<leftarrow> read_array read_string r1;
        Some ((g, srvs), r2)
      })
   }"

text \<open>\<open>None\<close> is \<^verbatim>\<open>log.Fatalf\<close>. An array shorter than the Go array leaves zeros, a longer one is cut.\<close>

definition cfg_FromString :: "string \<Rightarrow> ShardConfig option" where
  \<open>cfg_FromString s = do {
     r1 \<leftarrow> strip ''{"Num":'' s;
     (num, r2) \<leftarrow> read_int r1;
     r3 \<leftarrow> strip '',"Shards":'' r2;
     (shards, r4) \<leftarrow> read_array read_int r3;
     r5 \<leftarrow> strip '',"Groups":{'' r4;
     (groups, r6) \<leftarrow> read_seq (CHR ''}'') read_group r5;
     r7 \<leftarrow> strip ''}'' r6;
     (if r7 \<noteq> [] then None
      else Some \<lparr>Num = num, Shards = take NShards (shards @ replicate NShards 0), Groups = groups\<rparr>)
   }\<close>

definition ascii :: "string \<Rightarrow> bool" where
  "ascii s \<longleftrightarrow> (\<forall>c \<in> set s. of_char c < (128 :: nat))"

section \<open>Reading back what was written\<close>

lemma strip_append [simp]: "strip p (p @ s) = Some s"
  by (induction p) simp_all

text \<open>Strings.\<close>

lemma unhex_hex: "n < 16 \<Longrightarrow> unhex (hex n) = Some n"
  by (auto simp: unhex_def hex_def of_char_of Let_def)

lemma read_chars_quote_char:
  assumes "of_char c < (128 :: nat)" and "read_chars s = Some (t, r)"
  shows "read_chars (quote_char c @ s) = Some (c # t, r)"
proof -
  have h: "unhex (hex (of_char c div 16)) = Some (of_char c div 16)"
    "unhex (hex (of_char c mod 16)) = Some (of_char c mod 16)"
    using assms(1) by (auto intro!: unhex_hex)
  have e: "16 * (of_char c div 16) + of_char c mod 16 = (of_char c :: nat)" by simp
  have c: "char_of (of_char c :: nat) = c" by simp
  show ?thesis
    using assms by (simp add: quote_char_def unescape_def h e c del: mult_div_mod_eq)
qed

lemma read_chars_quote: "ascii s \<Longrightarrow> read_chars (concat (map quote_char s) @ CHR 0x22 # r) = Some (s, r)"
proof (induction s)
  case (Cons c s)
  then have "of_char c < (128 :: nat)" "read_chars (concat (map quote_char s) @ CHR 0x22 # r) = Some (s, r)"
    by (auto simp: ascii_def)
  from read_chars_quote_char [OF this] show ?case by simp
qed simp

lemma read_string_quote: "ascii s \<Longrightarrow> read_string (quote s @ r) = Some (s, r)"
  by (simp add: read_string_def quote_def read_chars_quote)

lemma ascii_digits: "is_digit c \<Longrightarrow> of_char c < (128 :: nat)"
  by (simp add: is_digit_def)

lemma ascii_show_nat: "ascii (show_nat n)"
proof (induction n rule: show_nat.induct)
  case (1 n)
  have "is_digit (digit (n mod 10))" by (rule digit_props) simp
  then show ?case using 1 digit_props(1) [of n]
    by (cases "n < 10") (auto simp: show_nat.simps [of n] ascii_def ascii_digits)
qed

lemma ascii_show_int: "ascii (show_int i)"
  using ascii_show_nat by (simp add: show_int_def ascii_def)

text \<open>Sequences. \<open>delim\<close> is what may follow an item.\<close>

definition delim :: "string \<Rightarrow> bool" where
  "delim r \<longleftrightarrow> (\<exists>c cs. r = c # cs \<and> (c = CHR '','' \<or> c = CHR '']'' \<or> c = CHR ''}''))"

lemma delim_stops: "delim r \<Longrightarrow> stops r"
  by (auto simp: delim_def stops_def)

lemma read_items_join:
  assumes "xs \<noteq> []" and "\<forall>x \<in> set xs. \<forall>r. delim r \<longrightarrow> p (f x @ r) = Some (x, r)"
    and "close = CHR '']'' \<or> close = CHR ''}''"
  shows "read_items close p (join (map f xs) @ close # r) = Some (xs, r)"
  using assms(1,2)
proof (induction xs rule: list_nonempty_induct)
  case (single x)
  have "delim (close # r)" using assms(3) by (auto simp: delim_def)
  then have "p (f x @ close # r) = Some (x, close # r)" using single by simp
  then show ?case using assms(3) by (subst read_items.simps) auto
next
  case (cons x xs)
  let ?r = "join (map f xs) @ close # r"
  have j: "join (map f (x # xs)) = f x @ CHR '','' # join (map f xs)"
    using cons.hyps by (cases xs) simp_all
  have "delim (CHR '','' # ?r)" by (auto simp: delim_def)
  then have "p (f x @ CHR '','' # ?r) = Some (x, CHR '','' # ?r)" using cons.prems by simp
  moreover have "read_items close p ?r = Some (xs, r)" using cons by simp
  ultimately show ?case unfolding j by (subst read_items.simps) simp
qed

lemma read_seq_join:
  assumes "\<forall>x \<in> set xs. \<forall>r. delim r \<longrightarrow> p (f x @ r) = Some (x, r)"
    and "close = CHR '']'' \<or> close = CHR ''}''" and "\<forall>x \<in> set xs. f x \<noteq> [] \<and> hd (f x) \<noteq> close"
  shows "read_seq close p (join (map f xs) @ close # r) = Some (xs, r)"
proof (cases xs)
  case (Cons x ys)
  obtain c cs where c: "f x = c # cs" "c \<noteq> close" using assms(3) Cons by (cases "f x") auto
  then obtain ds where "join (map f xs) = c # ds" using Cons by (cases ys) auto
  then show ?thesis using read_items_join [OF _ assms(1,2), of r] c Cons by (simp add: read_seq_def)
qed (simp add: read_seq_def)

lemma read_ints: "read_array read_int (show_array show_int xs @ r) = Some (xs, r)"
proof -
  have "hd (show_int i) \<noteq> CHR '']'' \<and> show_int i \<noteq> []" for i using show_int_hd [of i] by auto
  then have "read_seq (CHR '']'') read_int (join (map show_int xs) @ CHR '']'' # r) = Some (xs, r)"
    by (intro read_seq_join) (simp_all add: read_int_show delim_stops)
  then show ?thesis by (simp add: read_array_def show_array_def)
qed

lemma read_strings:
  assumes "\<forall>s \<in> set xs. ascii s"
  shows "read_array read_string (show_array quote xs @ r) = Some (xs, r)"
proof -
  have "read_seq (CHR '']'') read_string (join (map quote xs) @ CHR '']'' # r) = Some (xs, r)"
    using assms by (intro read_seq_join) (simp_all add: read_string_quote, simp add: quote_def)
  then show ?thesis by (simp add: read_array_def show_array_def)
qed

lemma read_group_show:
  assumes "\<forall>s \<in> set (snd g). ascii s"
  shows "read_group (show_group g @ r) = Some (g, r)"
proof -
  have "read_int (show_int (fst g)) = Some (fst g, [])"
    using read_int_show [of "[]" "fst g"] by (simp add: stops_def)
  then show ?thesis
    using read_strings [OF assms] by (simp add: read_group_def show_group_def read_string_quote ascii_show_int)
qed

lemma read_groups:
  assumes "\<forall>g \<in> set gs. \<forall>s \<in> set (snd g). ascii s"
  shows "read_seq (CHR ''}'') read_group (join (map show_group gs) @ CHR ''}'' # r) = Some (gs, r)"
  using assms by (intro read_seq_join) (simp_all add: read_group_show, simp add: show_group_def quote_def)

lemma FromString_String:
  assumes "length (Shards c) = NShards" and "\<forall>g \<in> set (Groups c). \<forall>s \<in> set (snd g). ascii s"
  shows "cfg_FromString (cfg_String c) = Some (c\<lparr>Groups := sort_key group_order (Groups c)\<rparr>)"
proof -
  have g: "\<forall>g \<in> set (sort_key group_order (Groups c)). \<forall>s \<in> set (snd g). ascii s" using assms(2) by simp
  have st: "stops (CHR '','' # s)" for s by (simp add: stops_def)
  show ?thesis
    using assms(1) read_groups [OF g]
    by (simp add: cfg_FromString_def cfg_String_def read_int_show [OF st] read_ints)
qed

lemma map_of_sort_key:
  assumes "distinct (map fst gs)"
  shows "map_of (sort_key f gs) = map_of gs"
proof -
  have "mset (map fst (sort_key f gs)) = mset (map fst gs)" by simp
  then have "distinct (map fst (sort_key f gs))" using assms by (metis mset_eq_imp_distinct_iff)
  then show ?thesis using assms by (intro map_of_inject_set [THEN iffD2]) simp_all
qed

section \<open>Properties\<close>

text \<open>C35. A configuration survives being stored: reading back the string written for a configuration with
  distinct groups and ASCII server names gives a configuration with the same number, the same assignment
  of shards and the same map from groups to servers; so configurations that differ in one of these are
  stored as different strings.\<close>

theorem config_string_roundtrip:
  assumes "length (Shards c) = NShards" and "distinct (map fst (Groups c))"
    and "\<forall>g \<in> set (Groups c). \<forall>s \<in> set (snd g). ascii s"
  shows "\<exists>c'. cfg_FromString (cfg_String c) = Some c' \<and> Num c' = Num c \<and> Shards c' = Shards c
    \<and> map_of (Groups c') = map_of (Groups c) \<and> mset (Groups c') = mset (Groups c)"
  using FromString_String [OF assms(1,3)] map_of_sort_key [OF assms(2)] by simp

theorem config_string_roundtrip_witness:
  "\<exists>c'. cfg_FromString (cfg_String demo_config) = Some c' \<and> Shards c' = Shards demo_config
    \<and> map_of (Groups c') = map_of (Groups demo_config)"
proof -
  have "length (Shards demo_config) = NShards" "distinct (map fst (Groups demo_config))"
    "\<forall>g \<in> set (Groups demo_config). \<forall>s \<in> set (snd g). ascii s"
    by code_simp+
  from config_string_roundtrip [OF this] show ?thesis by blast
qed

end
