(* ===== verification/Shard_Ctrler.thy ===== *)
theory Shard_Ctrler
  imports Shard_Clerk Shard_Move Shard_Json Kv_Server
begin

text \<open>
  The shard controller (\<^verbatim>\<open>shardkv1/shardctrler/shardctrler.go\<close>): its lease on the controller role, the saved
  configurations and the protocol that moves a shard between groups. The controller runs in a world with
  the configuration server, the shard groups and the network: each call to the configuration server or
  to a group takes the next entry of the network's list, which says what happens to the call and which
  requests of others are executed before it. \<open>None\<close> is not returning: the process panics, or the network's
  list ends.
\<close>

section \<open>Definitions\<close>

definition ConfigKey :: string where
  "ConfigKey = ''Config''"

definition ApplyConfigKey :: string where
  "ApplyConfigKey = ''ApplyConfig''"

definition LockKey :: string where
  "LockKey = ''Lock''"

definition LockAvailable :: string where
  "LockAvailable = ''Available''"

record ShardCtrler =
  sc_id :: string
  sc_currentVersion :: Tversion
  sc_lockVersion :: Tversion
  sc_wasLeader :: bool

record cworld =
  w_kv :: KVServer
  w_grps :: grps
  w_kvnet :: "schedule list"
  w_grpnet :: "(grp_event \<times> bool) list list"

definition MakeShardCtrler :: "string \<Rightarrow> ShardCtrler" where
  \<comment> \<open>\<open>rand\<close> is the result of \<^verbatim>\<open>kvtest.RandValue(8)\<close>\<close>
  "MakeShardCtrler rand = \<lparr>sc_id = rand, sc_currentVersion = 0, sc_lockVersion = 0, sc_wasLeader = False\<rparr>"

definition sc_Id :: "ShardCtrler \<Rightarrow> string" where
  "sc_Id sck = sc_id sck"

subsection \<open>Calls\<close>

text \<open>The methods of the embedded clerk of the configuration server.\<close>

definition cput :: "string \<Rightarrow> string \<Rightarrow> Tversion \<Rightarrow> cworld \<Rightarrow> (cworld \<times> Err) option" where
  "cput key val version w =
     (case w_kvnet w of
        [] \<Rightarrow> None
      | sched # rest \<Rightarrow> do {
          (kv, e) \<leftarrow> Clerk_Put sched key val version (w_kv w);
          Some (w\<lparr>w_kv := kv, w_kvnet := rest\<rparr>, e)
        })"

definition cget :: "string \<Rightarrow> cworld \<Rightarrow> (cworld \<times> string \<times> Tversion \<times> Err) option" where
  "cget key w =
     (case w_kvnet w of
        [] \<Rightarrow> None
      | sched # rest \<Rightarrow> do {
          (kv, val, version, e) \<leftarrow> Clerk_Get sched key (w_kv w);
          Some (w\<lparr>w_kv := kv, w_kvnet := rest\<rparr>, val, version, e)
        })"

text \<open>A call through the clerk of a group.\<close>

definition gcall ::
  "((grp_event \<times> bool) list \<Rightarrow> GClerk \<Rightarrow> GKVServer option \<Rightarrow> (GKVServer option \<times> GClerk \<times> 'a) outcome)
     \<Rightarrow> GClerk \<Rightarrow> cworld \<Rightarrow> (cworld \<times> GClerk \<times> 'a) option" where
  "gcall f ck w =
     (case w_grpnet w of
        [] \<Rightarrow> None
      | evs # rest \<Rightarrow>
          (case f evs ck (w_grps w (gc_servers ck)) of
             Returned (g, ck1, x) \<Rightarrow>
               Some (w\<lparr>w_grps := (w_grps w)(gc_servers ck := g), w_grpnet := rest\<rparr>, ck1, x)
           | _ \<Rightarrow> None))"

subsection \<open>The lock\<close>

partial_function (option) acquireLock ::
  "ShardCtrler \<Rightarrow> cworld \<Rightarrow> (cworld \<times> ShardCtrler \<times> bool \<times> bool) option" where
  "acquireLock sck w = do {
     (w1, e) \<leftarrow> cput LockKey (sc_id sck) (sc_lockVersion sck) w;
     (if e = OK then
        Some (w1, sck\<lparr>sc_lockVersion := sc_lockVersion sck + 1, sc_wasLeader := True\<rparr>, True, True)
      else if e = ErrVersion \<or> e = ErrMaybe then do {
        (w2, state, version, _) \<leftarrow> cget LockKey w1;
        (if state = sc_id sck then
           Some (w2, sck\<lparr>sc_lockVersion := version + 1, sc_wasLeader := True\<rparr>, True, True)
         else if state = LockAvailable then
           (if sc_wasLeader sck then Some (w2, sck, False, False)
            else acquireLock (sck\<lparr>sc_lockVersion := version\<rparr>) w2)
         else
           (if sc_wasLeader sck then Some (w2, sck, False, False)
            else Some (w2, sck\<lparr>sc_lockVersion := version\<rparr>, False, True)))
      }
      else acquireLock sck w1)
   }"

declare acquireLock.simps [code]

definition releaseLock :: "ShardCtrler \<Rightarrow> cworld \<Rightarrow> (cworld \<times> ShardCtrler) option" where
  "releaseLock sck w = do {
     (w1, e) \<leftarrow> cput LockKey LockAvailable (sc_lockVersion sck) w;
     Some (w1, sck\<lparr>sc_lockVersion := sc_lockVersion sck + 1\<rparr>)
   }"

subsection \<open>Saved configurations\<close>

definition InitConfig :: "ShardConfig \<Rightarrow> ShardCtrler \<Rightarrow> cworld \<Rightarrow> (cworld \<times> ShardCtrler) option" where
  "InitConfig cfg sck w = do {
     (w1, e1) \<leftarrow> cput ConfigKey (cfg_String cfg) (sc_currentVersion sck) w;
     (w2, e2) \<leftarrow> cput ApplyConfigKey (cfg_String cfg) (sc_currentVersion sck) w1;
     Some (w2, sck\<lparr>sc_currentVersion := sc_currentVersion sck + 1\<rparr>)
   }"

definition Query :: "ShardCtrler \<Rightarrow> cworld \<Rightarrow> (cworld \<times> ShardCtrler \<times> ShardConfig) option" where
  "Query sck w = do {
     (w1, val, version, _) \<leftarrow> cget ConfigKey w;
     cfg \<leftarrow> cfg_FromString val;
     Some (w1, sck\<lparr>sc_currentVersion := version\<rparr>, cfg)
   }"

definition GetConfigToApply :: "ShardCtrler \<Rightarrow> cworld \<Rightarrow> (cworld \<times> ShardCtrler \<times> ShardConfig) option" where
  "GetConfigToApply sck w = do {
     (w1, val, version, _) \<leftarrow> cget ApplyConfigKey w;
     cfg \<leftarrow> cfg_FromString val;
     Some (w1, sck\<lparr>sc_currentVersion := version\<rparr>, cfg)
   }"

partial_function (option) saveApplyConfig :: "ShardConfig \<Rightarrow> cworld \<Rightarrow> (cworld \<times> ShardConfig) option" where
  "saveApplyConfig new w = do {
     (w1, str, version, _) \<leftarrow> cget ApplyConfigKey w;
     savedConfig \<leftarrow> cfg_FromString str;
     (if Num savedConfig > Num new then Some (w1, savedConfig)
      else if Num savedConfig = Num new then Some (w1, savedConfig)
      else do {
        (w2, err) \<leftarrow> cput ApplyConfigKey (cfg_String new) version w1;
        (if err = OK then Some (w2, new) else saveApplyConfig new w2)
      })
   }"

declare saveApplyConfig.simps [code]

subsection \<open>Moving a shard\<close>

text \<open>The retry loop around each of the three calls; \<open>None\<close> inside the result: the lease is lost.\<close>

partial_function (option) retry ::
  "((grp_event \<times> bool) list \<Rightarrow> GClerk \<Rightarrow> GKVServer option \<Rightarrow> (GKVServer option \<times> GClerk \<times> 'a \<times> Err) outcome)
     \<Rightarrow> GClerk \<Rightarrow> ShardCtrler \<Rightarrow> cworld \<Rightarrow> (cworld \<times> GClerk \<times> ShardCtrler \<times> 'a option) option" where
  "retry f ck sck w = do {
     (w1, ck1, res, err) \<leftarrow> gcall f ck w;
     (if err = ErrorNoResponse then do {
        (w2, sck2, isAcquiredLock, canGetLeadership) \<leftarrow> acquireLock sck w1;
        (if \<not> isAcquiredLock \<or> \<not> canGetLeadership then Some (w2, ck1, sck2, None)
         else retry f ck1 sck2 w2)
      }
      else Some (w1, ck1, sck, Some res))
   }"

declare retry.simps [code]

definition install_call where
  "install_call sh state num = (\<lambda>evs ck g.
     map_outcome (\<lambda>(g1, ck1, e). (g1, ck1, (), e)) (GClerk_InstallShard evs sh state num ck g))"

definition delete_call where
  "delete_call sh num = (\<lambda>evs ck g.
     map_outcome (\<lambda>(g1, ck1, e). (g1, ck1, (), e)) (GClerk_DeleteShard evs sh num ck g))"

definition freeze_call where
  "freeze_call sh num = (\<lambda>evs ck g. GClerk_FreezeShard evs sh num ck g)"

definition moveShardToGroup ::
  "int \<Rightarrow> int \<Rightarrow> string list \<Rightarrow> string list \<Rightarrow> ShardCtrler \<Rightarrow> cworld \<Rightarrow> (cworld \<times> ShardCtrler) option" where
  "moveShardToGroup sh num oldServers newServers sck w = do {
     (w1, oldClerk, sck1, frozen) \<leftarrow> retry (freeze_call sh num) (MakeGClerk oldServers) sck w;
     (case frozen of
        None \<Rightarrow> Some (w1, sck1)
      | Some shardState \<Rightarrow> do {
          (w2, newClerk, sck2, installed) \<leftarrow>
            retry (install_call sh shardState num) (MakeGClerk newServers) sck1 w1;
          (case installed of
             None \<Rightarrow> Some (w2, sck2)
           | Some _ \<Rightarrow> do {
               (w3, oldClerk3, sck3, deleted) \<leftarrow> retry (delete_call sh num) oldClerk sck2 w2;
               Some (w3, sck3)
             })
        })
   }"

subsection \<open>Changing the configuration\<close>

text \<open>\<open>False\<close>: this controller must give up.\<close>

partial_function (option) becomeController :: "ShardCtrler \<Rightarrow> cworld \<Rightarrow> (cworld \<times> ShardCtrler \<times> bool) option" where
  "becomeController sck w = do {
     (w1, sck1, isAcquiredLock, canGetLeadership) \<leftarrow> acquireLock sck w;
     (if \<not> canGetLeadership then Some (w1, sck1, False)
      else if isAcquiredLock then Some (w1, sck1, True)
      else becomeController sck1 w1)
   }"

declare becomeController.simps [code]

text \<open>A group the map does not have gives a nil list of servers.\<close>

definition group_servers :: "ShardConfig \<Rightarrow> int \<Rightarrow> string list" where
  "group_servers cfg gid = (case map_of (Groups cfg) gid of None \<Rightarrow> [] | Some srvs \<Rightarrow> srvs)"

fun moveShards ::
  "ShardConfig \<Rightarrow> ShardConfig \<Rightarrow> (int \<times> int) list \<Rightarrow> ShardCtrler \<Rightarrow> cworld \<Rightarrow> (cworld \<times> ShardCtrler \<times> bool) option" where
  "moveShards oldCfg newCfg [] sck w = Some (w, sck, True)"
| "moveShards oldCfg newCfg ((shardId, groupId) # rest) sck w = do {
     newGroupId \<leftarrow> go_nth (Shards newCfg) shardId;
     (w1, sck1) \<leftarrow>
       (if groupId \<noteq> newGroupId
        then moveShardToGroup shardId (Num newCfg) (group_servers oldCfg groupId) (group_servers newCfg newGroupId) sck w
        else Some (w, sck));
     (w2, sck2, isAcquiredLock, canGetLeadership) \<leftarrow> acquireLock sck1 w1;
     (if \<not> isAcquiredLock \<or> \<not> canGetLeadership then Some (w2, sck2, False)
      else moveShards oldCfg newCfg rest sck2 w2)
   }"

partial_function (option) saveConfig :: "ShardConfig \<Rightarrow> ShardCtrler \<Rightarrow> cworld \<Rightarrow> (cworld \<times> ShardCtrler) option" where
  "saveConfig newCfg sck w = do {
     (w1, sck1, currentConfig) \<leftarrow> Query sck w;
     (if Num currentConfig \<ge> Num newCfg then Some (w1, sck1)
      else do {
        (w2, err) \<leftarrow> cput ConfigKey (cfg_String newCfg) (sc_currentVersion sck1) w1;
        (if err = OK then Some (w2, sck1\<lparr>sc_currentVersion := sc_currentVersion sck1 + 1\<rparr>)
         else saveConfig newCfg sck1 w2)
      })
   }"

declare saveConfig.simps [code]

definition changeConfiguration :: "ShardCtrler \<Rightarrow> cworld \<Rightarrow> (cworld \<times> ShardCtrler) option" where
  "changeConfiguration sck w = do {
     (w1, sck1, leading) \<leftarrow> becomeController sck w;
     (if \<not> leading then Some (w1, sck1)
      else do {
        (w2, sck2, oldCfg) \<leftarrow> Query sck1 w1;
        (w3, sck3, newCfg) \<leftarrow> GetConfigToApply sck2 w2;
        (w4, sck4) \<leftarrow>
          (if Num oldCfg \<ge> Num newCfg then Some (w3, sck3)
           else do {
             (w', sck', moved) \<leftarrow> moveShards oldCfg newCfg
               (zip (go_range (length (Shards oldCfg))) (Shards oldCfg)) sck3 w3;
             (if moved then saveConfig newCfg sck' w' else Some (w', sck'))
           });
        releaseLock sck4 w4
      })
   }"

definition InitController :: "ShardCtrler \<Rightarrow> cworld \<Rightarrow> (cworld \<times> ShardCtrler) option" where
  "InitController sck w = changeConfiguration sck w"

definition ChangeConfigTo :: "ShardConfig \<Rightarrow> ShardCtrler \<Rightarrow> cworld \<Rightarrow> (cworld \<times> ShardCtrler) option" where
  "ChangeConfigTo new sck w = do {
     (w1, saved) \<leftarrow> saveApplyConfig new w;
     changeConfiguration sck w1
   }"

section \<open>The calls of a move\<close>

lemma cput_frame: "cput k v ver w = Some (w', e) \<Longrightarrow> w_grps w' = w_grps w \<and> w_grpnet w' = w_grpnet w"
  by (auto simp: cput_def bind_Some_iff split: list.splits)

lemma cget_frame: "cget k w = Some (w', r) \<Longrightarrow> w_grps w' = w_grps w \<and> w_grpnet w' = w_grpnet w"
  by (auto simp: cget_def bind_Some_iff split: list.splits)

lemma acquireLock_frame:
  assumes "acquireLock sck w = Some r"
  shows "w_grps (fst r) = w_grps w \<and> w_grpnet (fst r) = w_grpnet w"
  using assms
proof (induction rule: acquireLock.raw_induct [rotated, consumes 1, case_names 1])
  case (1 acq sck w r)
  obtain w1 e where c: "cput LockKey (sc_id sck) (sc_lockVersion sck) w = Some (w1, e)"
    using 1(2) by (auto simp: bind_Some_iff)
  note f = cput_frame [OF c]
  consider "e = OK" | "e = ErrVersion \<or> e = ErrMaybe" | "e \<notin> {OK, ErrVersion, ErrMaybe}" by blast
  then show ?case
  proof cases
    case 2
    then obtain w2 st ver e2 where g: "cget LockKey w1 = Some (w2, st, ver, e2)"
      using 1(2) c by (auto simp: bind_Some_iff)
    show ?thesis using 1(2) c g f cget_frame [OF g] 2 by (auto split: if_splits dest!: 1(1))
  qed (use 1 c f in \<open>auto dest!: 1(1)\<close>)
qed

text \<open>What holds of the requests of others that the group executes during one entry of the network's list.\<close>

definition entry_ok :: "(grp_req \<Rightarrow> bool) \<Rightarrow> (grp_event \<times> bool) list \<Rightarrow> bool" where
  "entry_ok ok evs \<longleftrightarrow> (\<forall>ev \<in> set evs. \<forall>q \<in> set (fst (fst ev)). ok q)"

text \<open>The same for all the calls between \<open>w\<close> and \<open>w'\<close>.\<close>

definition served :: "(grp_req \<Rightarrow> bool) \<Rightarrow> cworld \<Rightarrow> cworld \<Rightarrow> bool" where
  "served ok w w' \<longleftrightarrow>
     (\<forall>evs \<in> set (take (length (w_grpnet w) - length (w_grpnet w')) (w_grpnet w)). entry_ok ok evs)"

text \<open>A group's clerk in a world; \<open>R\<close> is what an answer tells.\<close>

definition call_keeps ::
  "(GKVServer option \<Rightarrow> bool) \<Rightarrow> (GKVServer option \<Rightarrow> 'a \<Rightarrow> bool) \<Rightarrow> (grp_req \<Rightarrow> bool)
   \<Rightarrow> ((grp_event \<times> bool) list \<Rightarrow> GClerk \<Rightarrow> GKVServer option \<Rightarrow> (GKVServer option \<times> GClerk \<times> 'a \<times> Err) outcome) \<Rightarrow> bool" where
  "call_keeps P R ok f \<longleftrightarrow> (\<forall>evs ck g g' ck' x e. f evs ck g = Returned (g', ck', x, e) \<longrightarrow> P g \<longrightarrow> entry_ok ok evs \<longrightarrow>
     P g' \<and> gc_servers ck' = gc_servers ck \<and> (e \<noteq> ErrorNoResponse \<longrightarrow> R g' x))"

lemma gcall_keeps:
  assumes "gcall f ck w = Some (w', ck', x, e)" and "call_keeps P R ok f"
  shows "\<exists>evs. w_grpnet w = evs # w_grpnet w' \<and> (entry_ok ok evs \<longrightarrow> P (w_grps w (gc_servers ck)) \<longrightarrow>
      gc_servers ck' = gc_servers ck \<and> P (w_grps w' (gc_servers ck))
    \<and> (\<forall>s. s \<noteq> gc_servers ck \<longrightarrow> w_grps w' s = w_grps w s) \<and> (e \<noteq> ErrorNoResponse \<longrightarrow> R (w_grps w' (gc_servers ck)) x))"
proof -
  obtain evs rest where n: "w_grpnet w = evs # rest" using assms(1) by (auto simp: gcall_def split: list.splits)
  obtain g where f: "f evs ck (w_grps w (gc_servers ck)) = Returned (g, ck', x, e)"
    and w: "w' = w\<lparr>w_grps := (w_grps w)(gc_servers ck := g), w_grpnet := rest\<rparr>"
    using assms(1) n by (auto simp: gcall_def split: outcome.splits)
  have "P g \<and> gc_servers ck' = gc_servers ck \<and> (e \<noteq> ErrorNoResponse \<longrightarrow> R g x)"
    if "entry_ok ok evs" "P (w_grps w (gc_servers ck))"
    using assms(2) f that unfolding call_keeps_def by blast
  then show ?thesis using w n by simp
qed

lemma retry_runs:
  assumes "retry f ck sck w = Some r" and "call_keeps P R ok f"
  shows "\<exists>used. w_grpnet w = used @ w_grpnet (fst r) \<and> ((\<forall>evs \<in> set used. entry_ok ok evs) \<longrightarrow> P (w_grps w (gc_servers ck)) \<longrightarrow>
      gc_servers (fst (snd r)) = gc_servers ck \<and> P (w_grps (fst r) (gc_servers ck))
    \<and> (\<forall>s. s \<noteq> gc_servers ck \<longrightarrow> w_grps (fst r) s = w_grps w s)
    \<and> (\<forall>x. snd (snd (snd r)) = Some x \<longrightarrow> R (w_grps (fst r) (gc_servers ck)) x))"
  using assms
proof (induction rule: retry.raw_induct [rotated, consumes 1, case_names 1])
  case (1 rec f ck sck w r)
  obtain w1 ck1 x e where c: "gcall f ck w = Some (w1, ck1, x, e)" using 1(2) by (auto simp: bind_Some_iff)
  obtain evs where n: "w_grpnet w = evs # w_grpnet w1" and k: "entry_ok ok evs \<longrightarrow> P (w_grps w (gc_servers ck)) \<longrightarrow>
      gc_servers ck1 = gc_servers ck \<and> P (w_grps w1 (gc_servers ck))
    \<and> (\<forall>s. s \<noteq> gc_servers ck \<longrightarrow> w_grps w1 s = w_grps w s) \<and> (e \<noteq> ErrorNoResponse \<longrightarrow> R (w_grps w1 (gc_servers ck)) x)"
    using gcall_keeps [OF c 1(3)] by blast
  show ?case
  proof (cases "e = ErrorNoResponse")
    case True
    then obtain w2 sck2 a b where l: "acquireLock sck w1 = Some (w2, sck2, a, b)"
      using 1(2) c by (auto simp: bind_Some_iff)
    note fr = acquireLock_frame [OF l, simplified]
    show ?thesis
    proof (cases "a \<and> b")
      case True
      have "rec f ck1 sck2 w2 = Some r" using 1(2) c l \<open>e = ErrorNoResponse\<close> True by simp
      from 1(1) [OF this 1(3)] obtain used where u: "w_grpnet w2 = used @ w_grpnet (fst r)"
        "(\<forall>evs \<in> set used. entry_ok ok evs) \<longrightarrow> P (w_grps w2 (gc_servers ck1)) \<longrightarrow>
           gc_servers (fst (snd r)) = gc_servers ck1 \<and> P (w_grps (fst r) (gc_servers ck1))
         \<and> (\<forall>s. s \<noteq> gc_servers ck1 \<longrightarrow> w_grps (fst r) s = w_grps w2 s)
         \<and> (\<forall>x. snd (snd (snd r)) = Some x \<longrightarrow> R (w_grps (fst r) (gc_servers ck1)) x)" by blast
      show ?thesis
      proof (intro exI [of _ "evs # used"] conjI impI)
        show "w_grpnet w = (evs # used) @ w_grpnet (fst r)" using n u(1) fr by simp
        assume ok: "\<forall>evs \<in> set (evs # used). entry_ok ok evs" and P: "P (w_grps w (gc_servers ck))"
        have k1: "gc_servers ck1 = gc_servers ck" "P (w_grps w2 (gc_servers ck1))"
          "\<forall>s. s \<noteq> gc_servers ck \<longrightarrow> w_grps w2 s = w_grps w s" using k ok P fr by simp_all
        then show "gc_servers (fst (snd r)) = gc_servers ck" "P (w_grps (fst r) (gc_servers ck))"
          "\<forall>s. s \<noteq> gc_servers ck \<longrightarrow> w_grps (fst r) s = w_grps w s"
          "\<forall>x. snd (snd (snd r)) = Some x \<longrightarrow> R (w_grps (fst r) (gc_servers ck)) x"
          using u(2) ok by simp_all
      qed
    next
      case False
      then have "r = (w2, ck1, sck2, None)" using 1(2) c l \<open>e = ErrorNoResponse\<close> by auto
      then show ?thesis using n k fr by simp
    qed
  next
    case False
    then have "r = (w1, ck1, sck, Some x)" using 1(2) c by simp
    then show ?thesis using n k False by simp
  qed
qed

lemma retry_keeps:
  assumes "retry f ck sck w = Some (w', ck', sck', res)" and "call_keeps P R ok f" and "served ok w w'"
    and "P (w_grps w (gc_servers ck))"
  shows "gc_servers ck' = gc_servers ck \<and> P (w_grps w' (gc_servers ck))
    \<and> (\<forall>s. s \<noteq> gc_servers ck \<longrightarrow> w_grps w' s = w_grps w s)
    \<and> (\<forall>x. res = Some x \<longrightarrow> R (w_grps w' (gc_servers ck)) x)"
proof -
  obtain used where u: "w_grpnet w = used @ w_grpnet w'"
    "(\<forall>evs \<in> set used. entry_ok ok evs) \<longrightarrow> P (w_grps w (gc_servers ck)) \<longrightarrow>
      gc_servers ck' = gc_servers ck \<and> P (w_grps w' (gc_servers ck))
    \<and> (\<forall>s. s \<noteq> gc_servers ck \<longrightarrow> w_grps w' s = w_grps w s)
    \<and> (\<forall>x. res = Some x \<longrightarrow> R (w_grps w' (gc_servers ck)) x)"
    using retry_runs [OF assms(1,2)] unfolding fst_conv snd_conv by (elim exE conjE) (rule that)
  have "\<forall>evs \<in> set used. entry_ok ok evs" using assms(3) u(1) by (simp add: served_def)
  then show ?thesis using u(2) assms(4) by blast
qed

text \<open>Requests of others, one after the other.\<close>

lemma grp_run_keeps:
  assumes "\<And>q g. P g \<Longrightarrow> ok q \<Longrightarrow> P (grp_run [q] g)" and "P g" and "\<forall>q \<in> set qs. ok q"
  shows "P (grp_run qs g)"
  using assms(2,3)
proof (induction qs arbitrary: g)
  case Nil
  then show ?case by (cases g) (simp_all add: grp_run_def)
next
  case (Cons q qs)
  have "grp_run (q # qs) g = grp_run qs (grp_run [q] g)"
    by (cases g) (auto simp: grp_run_def split: bind_splits)
  then show ?case using Cons assms(1) by simp
qed

lemma freeze_keeps:
  assumes others: "\<And>q g. P g \<Longrightarrow> ok q \<Longrightarrow> P (grp_run [q] g)" and own: "ok (GFreezeShard sh num)"
    and ans: "\<And>kv kv' b k e. P (Some kv) \<Longrightarrow> do_freeze sh num kv = (kv', GFreezeShardResponse b k e) \<Longrightarrow> R (Some kv') b"
  shows "call_keeps P R ok (freeze_call sh num)"
  unfolding call_keeps_def
proof (intro allI impI)
  fix evs ck g g' ck' x e
  let ?h = "\<lambda>submit. grp_FreezeShard submit \<lparr>fa_Shard = sh, fa_Num = num\<rparr>"
  let ?loop = "grp_loop (grp_call (GFreezeShard sh num) ?h) fr_Err evs \<lparr>fr_State = None, fr_Num = 0, fr_Err = NoErr\<rparr>
    True (gc_leader ck) ck g"
  assume r: "freeze_call sh num evs ck g = Returned (g', ck', x, e)" and g: "P g"
    and ok: "entry_ok ok evs"
  obtain y e0 first where l: "?loop = Returned (g', y, ck', e0, first)"
    and x: "e0 = ErrorNoResponse \<and> e = ErrorNoResponse \<or> x = fr_State y \<and> e0 \<noteq> ErrorNoResponse"
    using r unfolding freeze_call_def GClerk_FreezeShard_def by (cases ?loop) (auto split: if_splits)
  have wl: "fr_Err z = ErrWrongLeader" if "?h (\<lambda>q. (ErrWrongLeader, None)) = Some z" for z
    using that by (auto simp: grp_FreezeShard_def)
  have o: "P (grp_run (fst (fst ev)) g)" if "ev \<in> set evs" "P g" for ev g
    using grp_run_keeps [where P = P and ok = ok, OF others that(2)] ok that(1) by (auto simp: entry_ok_def)
  note i = grp_loop_inv [where P = P, OF l wl o others [OF _ own] g]
  have "R g' x" if "e \<noteq> ErrorNoResponse"
  proof -
    obtain kv kv' r where a: "P (Some kv)" "grp_DoOp (GFreezeShard sh num) kv = Some (kv', r)" "g' = Some kv'"
      "?h (\<lambda>q. (OK, Some r)) = Some y"
      using i x \<open>e \<noteq> ErrorNoResponse\<close> by blast
    then obtain b k e1 where "r = GFreezeShardResponse b k e1" "fr_State y = b"
      by (cases r) (auto simp: grp_FreezeShard_def)
    then show ?thesis using ans [OF a(1)] a(2,3) x \<open>e \<noteq> ErrorNoResponse\<close> by (auto simp: grp_DoOp_def)
  qed
  then show "P g' \<and> gc_servers ck' = gc_servers ck \<and> (e \<noteq> ErrorNoResponse \<longrightarrow> R g' x)" using i by blast
qed

lemma install_keeps:
  assumes others: "\<And>q g. P g \<Longrightarrow> ok q \<Longrightarrow> P (grp_run [q] g)" and own: "ok (GInstallShard sh b num)"
    and ans: "\<And>kv. P (Some kv) \<Longrightarrow> R (Some (fst (do_install sh b num kv))) ()"
  shows "call_keeps P R ok (install_call sh b num)"
  unfolding call_keeps_def
proof (intro allI impI)
  fix evs ck g g' ck' x e
  let ?h = "\<lambda>submit. grp_InstallShard submit \<lparr>ia_Shard = sh, ia_State = b, ia_Num = num\<rparr>"
  let ?loop = "grp_loop (grp_call (GInstallShard sh b num) ?h) (\<lambda>e. e) evs NoErr True (gc_leader ck) ck g"
  assume r: "install_call sh b num evs ck g = Returned (g', ck', x, e)" and g: "P g"
    and ok: "entry_ok ok evs"
  obtain y e0 first where l: "?loop = Returned (g', y, ck', e0, first)"
    and x: "e \<noteq> ErrorNoResponse \<longrightarrow> e0 \<noteq> ErrorNoResponse"
    using r unfolding install_call_def GClerk_InstallShard_def by (cases ?loop) (auto split: if_splits)
  have wl: "z = ErrWrongLeader" if "?h (\<lambda>q. (ErrWrongLeader, None)) = Some z" for z
    using that by (auto simp: grp_InstallShard_def)
  have o: "P (grp_run (fst (fst ev)) g)" if "ev \<in> set evs" "P g" for ev g
    using grp_run_keeps [where P = P and ok = ok, OF others that(2)] ok that(1) by (auto simp: entry_ok_def)
  note i = grp_loop_inv [where P = P, OF l wl o others [OF _ own] g]
  have "R g' x" if "e \<noteq> ErrorNoResponse"
  proof -
    obtain kv kv' r where a: "P (Some kv)" "grp_DoOp (GInstallShard sh b num) kv = Some (kv', r)" "g' = Some kv'"
      using i x \<open>e \<noteq> ErrorNoResponse\<close> by blast
    then show ?thesis using ans [OF a(1)] by (auto simp: grp_DoOp_def)
  qed
  then show "P g' \<and> gc_servers ck' = gc_servers ck \<and> (e \<noteq> ErrorNoResponse \<longrightarrow> R g' x)" using i by blast
qed

lemma delete_keeps:
  assumes others: "\<And>q g. P g \<Longrightarrow> ok q \<Longrightarrow> P (grp_run [q] g)" and own: "ok (GDeleteShard sh num)"
  shows "call_keeps P (\<lambda>_ _. True) ok (delete_call sh num)"
  unfolding call_keeps_def
proof (intro allI impI)
  fix evs ck g g' ck' x e
  let ?h = "\<lambda>submit. grp_DeleteShard submit \<lparr>da_Shard = sh, da_Num = num\<rparr>"
  let ?loop = "grp_loop (grp_call (GDeleteShard sh num) ?h) (\<lambda>e. e) evs NoErr True (gc_leader ck) ck g"
  assume r: "delete_call sh num evs ck g = Returned (g', ck', x, e)" and g: "P g"
    and ok: "entry_ok ok evs"
  obtain y e0 first where l: "?loop = Returned (g', y, ck', e0, first)"
    using r unfolding delete_call_def GClerk_DeleteShard_def by (cases ?loop) (auto split: if_splits)
  have wl: "z = ErrWrongLeader" if "?h (\<lambda>q. (ErrWrongLeader, None)) = Some z" for z
    using that by (auto simp: grp_DeleteShard_def)
  have o: "P (grp_run (fst (fst ev)) g)" if "ev \<in> set evs" "P g" for ev g
    using grp_run_keeps [where P = P and ok = ok, OF others that(2)] ok that(1) by (auto simp: entry_ok_def)
  show "P g' \<and> gc_servers ck' = gc_servers ck \<and> (e \<noteq> ErrorNoResponse \<longrightarrow> True)"
    using grp_loop_inv [where P = P, OF l wl o others [OF _ own] g] by blast
qed

section \<open>A move is a run of the protocol\<close>

text \<open>Reachable with the groups' states given; a group may have crashed on a request for another shard.\<close>

definition run_old :: "int \<Rightarrow> int \<Rightarrow> mstate \<Rightarrow> (mstate \<Rightarrow> bool) \<Rightarrow> GKVServer \<Rightarrow> GKVServer option \<Rightarrow> bool" where
  "run_old sh num m0 C new g \<longleftrightarrow> g = None \<or> (\<exists>m. move_reach sh num m0 m \<and> C m \<and> g = Some (m_old m) \<and> m_new m = new)"

definition run_new :: "int \<Rightarrow> int \<Rightarrow> mstate \<Rightarrow> (mstate \<Rightarrow> bool) \<Rightarrow> GKVServer \<Rightarrow> GKVServer option \<Rightarrow> bool" where
  "run_new sh num m0 C old g \<longleftrightarrow> g = None \<or> (\<exists>m. move_reach sh num m0 m \<and> C m \<and> m_old m = old \<and> g = Some (m_new m))"

lemma run_old_client:
  assumes "run_old sh num m0 C new g" and "client_req sh q" and "\<And>m kv. C m \<Longrightarrow> C (m\<lparr>m_old := kv\<rparr>)"
  shows "run_old sh num m0 C new (grp_run [q] g)"
proof (cases "grp_run [q] g")
  case (Some kv)
  then obtain m r where m: "move_reach sh num m0 m" "C m" "g = Some (m_old m)" "m_new m = new" "grp_DoOp q (m_old m) = Some (kv, r)"
    using assms(1) by (auto simp: run_old_def grp_run_def bind_Some_iff)
  have "move_reach sh num m0 (m\<lparr>m_old := kv\<rparr>)"
    using m(1) move_step.at_old [OF assms(2) m(5)] by (rule move_reach.more)
  then show ?thesis using Some m(2,4) assms(3) unfolding run_old_def by (intro disjI2 exI [of _ "m\<lparr>m_old := kv\<rparr>"]) simp
qed (simp add: run_old_def)

lemma run_new_client:
  assumes "run_new sh num m0 C old g" and "client_req sh q" and "\<And>m kv. C m \<Longrightarrow> C (m\<lparr>m_new := kv\<rparr>)"
  shows "run_new sh num m0 C old (grp_run [q] g)"
proof (cases "grp_run [q] g")
  case (Some kv)
  then obtain m r where m: "move_reach sh num m0 m" "C m" "m_old m = old" "g = Some (m_new m)" "grp_DoOp q (m_new m) = Some (kv, r)"
    using assms(1) by (auto simp: run_new_def grp_run_def bind_Some_iff)
  have "move_reach sh num m0 (m\<lparr>m_new := kv\<rparr>)"
    using m(1) move_step.at_new [OF assms(2) m(5)] by (rule move_reach.more)
  then show ?thesis using Some m(2,3) assms(3) unfolding run_new_def by (intro disjI2 exI [of _ "m\<lparr>m_new := kv\<rparr>"]) simp
qed (simp add: run_new_def)

lemma reach_freeze:
  assumes "move_reach sh num m0 m" and "do_freeze sh num (m_old m) = (kv', GFreezeShardResponse b k e)"
  shows "move_reach sh num m0 (m\<lparr>m_old := kv', m_states := insert b (m_states m)\<rparr>)"
  using assms by (blast intro: move_reach.more move_step.freeze)

lemma run_freeze:
  assumes "run_old sh num m0 C new g" and "\<And>m kv S. C m \<Longrightarrow> C (m\<lparr>m_old := kv, m_states := S\<rparr>)"
  shows "run_old sh num m0 C new (grp_run [GFreezeShard sh num] g)"
proof (cases g)
  case (Some kv)
  then obtain m where m: "move_reach sh num m0 m" "C m" "kv = m_old m" "m_new m = new" using assms(1) by (auto simp: run_old_def)
  obtain kv' b k e where f: "do_freeze sh num kv = (kv', GFreezeShardResponse b k e)"
    by (cases "do_freeze sh num kv") (auto simp: do_freeze_def Let_def split: if_splits)
  let ?m = "m\<lparr>m_old := kv', m_states := insert b (m_states m)\<rparr>"
  have "move_reach sh num m0 ?m" using m(1) f [unfolded m(3)] by (rule reach_freeze)
  then show ?thesis using Some f m(2,4) assms(2) unfolding run_old_def
    by (intro disjI2 exI [of _ ?m]) (simp add: grp_run_def grp_DoOp_def)
qed (simp add: run_old_def grp_run_def)

lemma run_install:
  assumes "run_new sh num m0 (\<lambda>m. b \<in> m_states m) old (Some kv)"
  shows "\<exists>m. move_reach sh num m0 m \<and> b \<in> m_states m \<and> m_installed m \<and> m_old m = old
    \<and> m_new m = fst (do_install sh b num kv)"
proof -
  obtain m where m: "move_reach sh num m0 m" "b \<in> m_states m" "m_old m = old" "kv = m_new m"
    using assms by (auto simp: run_new_def)
  let ?m = "m\<lparr>m_new := fst (do_install sh b num kv), m_installed := True\<rparr>"
  have "move_step sh num m Control ?m"
    by (rule move_step.install [where r = "snd (do_install sh b num kv)", OF m(2)]) (simp add: m(4))
  with m(1) have "move_reach sh num m0 ?m" by (rule move_reach.more)
  then show ?thesis using m by (intro exI [of _ ?m]) simp
qed

lemma run_delete:
  assumes "run_old sh num m0 m_installed new g"
  shows "run_old sh num m0 m_installed new (grp_run [GDeleteShard sh num] g)"
proof (cases g)
  case (Some kv)
  then obtain m where m: "move_reach sh num m0 m" "m_installed m" "kv = m_old m" "m_new m = new"
    using assms by (auto simp: run_old_def)
  let ?m = "m\<lparr>m_old := fst (do_delete sh num kv)\<rparr>"
  have "move_step sh num m Control ?m"
    by (rule move_step.delete [where r = "snd (do_delete sh num kv)", OF m(2)]) (simp add: m(3))
  with m(1) have "move_reach sh num m0 ?m" by (rule move_reach.more)
  then show ?thesis using Some m unfolding run_old_def
    by (intro disjI2 exI [of _ ?m]) (simp add: grp_run_def grp_DoOp_def case_prod_unfold)
qed (simp add: run_old_def grp_run_def)

text \<open>
  The requests of others at the group a call of the move goes to: those of clients and for other shards, and requests
  of this move that were sent to that group before, given up by the controller and are executed late.
\<close>

definition freeze_others :: "int \<Rightarrow> int \<Rightarrow> grp_req \<Rightarrow> bool" where
  "freeze_others sh num q \<longleftrightarrow> client_req sh q \<or> q = GFreezeShard sh num"

definition install_others :: "int \<Rightarrow> shard_bytes \<Rightarrow> int \<Rightarrow> grp_req \<Rightarrow> bool" where
  "install_others sh b num q \<longleftrightarrow> client_req sh q \<or> q = GInstallShard sh b num"

definition delete_others :: "int \<Rightarrow> int \<Rightarrow> grp_req \<Rightarrow> bool" where
  "delete_others sh num q \<longleftrightarrow> client_req sh q \<or> q = GFreezeShard sh num \<or> q = GDeleteShard sh num"

text \<open>The three calls, each as part of a run.\<close>

lemma freeze_runs:
  "call_keeps (run_old sh num m0 (\<lambda>m. True) new)
     (\<lambda>g b. \<exists>m. move_reach sh num m0 m \<and> b \<in> m_states m \<and> g = Some (m_old m) \<and> m_new m = new)
     (freeze_others sh num) (freeze_call sh num)"
proof (rule freeze_keeps)
  show "run_old sh num m0 (\<lambda>m. True) new (grp_run [q] g)"
    if "run_old sh num m0 (\<lambda>m. True) new g" "freeze_others sh num q" for q g
    using that run_old_client [OF that(1)] run_freeze [OF that(1)] by (auto simp: freeze_others_def)
  fix kv kv' b k e
  assume "run_old sh num m0 (\<lambda>m. True) new (Some kv)" and f: "do_freeze sh num kv = (kv', GFreezeShardResponse b k e)"
  then obtain m where m: "move_reach sh num m0 m" "kv = m_old m" "m_new m = new" by (auto simp: run_old_def)
  let ?m = "m\<lparr>m_old := kv', m_states := insert b (m_states m)\<rparr>"
  have "move_reach sh num m0 ?m"
    using m(1) f [unfolded m(2)] by (rule reach_freeze)
  then show "\<exists>m. move_reach sh num m0 m \<and> b \<in> m_states m \<and> Some kv' = Some (m_old m) \<and> m_new m = new"
    using m(3) by (intro exI [of _ ?m]) simp
qed (simp add: freeze_others_def)

lemma install_runs:
  "call_keeps (run_new sh num m0 (\<lambda>m. b \<in> m_states m) old)
     (\<lambda>g _. \<exists>m. move_reach sh num m0 m \<and> m_installed m \<and> m_old m = old \<and> g = Some (m_new m))
     (install_others sh b num) (install_call sh b num)"
proof (rule install_keeps)
  let ?P = "run_new sh num m0 (\<lambda>m. b \<in> m_states m) old"
  have i: "?P (grp_run [GInstallShard sh b num] g)" if "?P g" for g
  proof (cases g)
    case (Some kv)
    then show ?thesis using run_install [of sh num m0 b old kv] that
      by (auto simp: run_new_def grp_run_def grp_DoOp_def case_prod_unfold)
  qed (simp add: run_new_def grp_run_def)
  show "?P (grp_run [q] g)" if "?P g" "install_others sh b num q" for q g
    using that run_new_client [OF that(1)] i [OF that(1)] by (auto simp: install_others_def)
  show "\<exists>m. move_reach sh num m0 m \<and> m_installed m \<and> m_old m = old \<and> Some (fst (do_install sh b num kv)) = Some (m_new m)"
    if "?P (Some kv)" for kv
    using run_install [OF that] by auto
qed (simp add: install_others_def)

lemma delete_runs:
  "call_keeps (run_old sh num m0 m_installed new) (\<lambda>_ _. True) (delete_others sh num) (delete_call sh num)"
proof (rule delete_keeps)
  show "run_old sh num m0 m_installed new (grp_run [q] g)"
    if "run_old sh num m0 m_installed new g" "delete_others sh num q" for q g
    using that run_old_client [OF that(1)] run_freeze [OF that(1)] run_delete [OF that(1)] by (auto simp: delete_others_def)
qed (simp add: delete_others_def)

text \<open>The condition on the network during a whole move, along the three loops.\<close>

definition move_others ::
  "int \<Rightarrow> int \<Rightarrow> string list \<Rightarrow> string list \<Rightarrow> ShardCtrler \<Rightarrow> cworld \<Rightarrow> bool" where
  "move_others sh num oldServers newServers sck w =
     (case retry (freeze_call sh num) (MakeGClerk oldServers) sck w of
        None \<Rightarrow> True
      | Some (w1, oldClerk, sck1, frozen) \<Rightarrow>
          served (freeze_others sh num) w w1
          \<and> (case frozen of
               None \<Rightarrow> True
             | Some shardState \<Rightarrow>
                 (case retry (install_call sh shardState num) (MakeGClerk newServers) sck1 w1 of
                    None \<Rightarrow> True
                  | Some (w2, newClerk, sck2, installed) \<Rightarrow>
                      served (install_others sh shardState num) w1 w2
                      \<and> (case installed of
                           None \<Rightarrow> True
                         | Some _ \<Rightarrow>
                             (case retry (delete_call sh num) oldClerk sck2 w2 of
                                None \<Rightarrow> True
                              | Some (w3, _, _, _) \<Rightarrow> served (delete_others sh num) w2 w3)))))"

section \<open>Calls that are answered at once\<close>

definition grp_answered :: "(grp_event \<times> bool) list" where
  "grp_answered = [(([], GAnswered), False)]"

definition freeze_state :: "int \<Rightarrow> int \<Rightarrow> GKVServer \<Rightarrow> shard_bytes" where
  "freeze_state sh num kv = (case snd (do_freeze sh num kv) of GFreezeShardResponse b _ _ \<Rightarrow> b | _ \<Rightarrow> None)"

lemma freeze_response:
  "\<exists>k e. do_freeze sh num kv = (fst (do_freeze sh num kv), GFreezeShardResponse (freeze_state sh num kv) k e)
     \<and> (e = OK \<or> e = ErrVersion)"
  by (auto simp: do_freeze_def freeze_state_def Let_def)

lemma install_response:
  "\<exists>e. do_install sh b num kv = (fst (do_install sh b num kv), GInstallShardResponse e) \<and> (e = OK \<or> e = ErrVersion)"
  by (auto simp: do_install_def Let_def)

lemma delete_response:
  "\<exists>e. do_delete sh num kv = (fst (do_delete sh num kv), GDeleteShardResponse e) \<and> (e = OK \<or> e = ErrVersion)"
  by (auto simp: do_delete_def Let_def)

lemma grp_loop_answered:
  assumes "go_nth (gc_servers ck) (gc_leader ck) \<noteq> None" and "grp_DoOp req kv = Some (kv', r)"
    and "handler (\<lambda>q. (OK, Some r)) = Some x" and "errOf x \<noteq> ErrWrongLeader"
  shows "grp_loop (grp_call req handler) errOf grp_answered reply True init ck (Some kv) = Returned (Some kv', x, ck, OK, True)"
  using assms by (auto simp: grp_answered_def grp_call_def grp_run_def Let_def)

lemma retry_returned:
  assumes "w_grpnet w = evs # rest" and "f evs ck (w_grps w (gc_servers ck)) = Returned (g', ck', x, e)" and "e \<noteq> ErrorNoResponse"
  shows "retry f ck sck w = Some (w\<lparr>w_grps := (w_grps w)(gc_servers ck := g'), w_grpnet := rest\<rparr>, ck', sck, Some x)"
  using assms by (subst retry.simps) (simp add: gcall_def)

lemma calls_answered:
  assumes "go_nth (gc_servers ck) (gc_leader ck) \<noteq> None"
  shows "\<exists>e. freeze_call sh num grp_answered ck (Some kv) = Returned (Some (fst (do_freeze sh num kv)), ck, freeze_state sh num kv, e)
      \<and> e \<noteq> ErrorNoResponse"
    and "\<exists>e. install_call sh b num grp_answered ck (Some kv) = Returned (Some (fst (do_install sh b num kv)), ck, (), e)
      \<and> e \<noteq> ErrorNoResponse"
    and "\<exists>e. delete_call sh num grp_answered ck (Some kv) = Returned (Some (fst (do_delete sh num kv)), ck, (), e)
      \<and> e \<noteq> ErrorNoResponse"
proof -
  obtain k e where f: "do_freeze sh num kv = (fst (do_freeze sh num kv), GFreezeShardResponse (freeze_state sh num kv) k e)"
    "e = OK \<or> e = ErrVersion" using freeze_response by blast
  then have "freeze_call sh num grp_answered ck (Some kv) = Returned (Some (fst (do_freeze sh num kv)), ck, freeze_state sh num kv, e)"
    unfolding freeze_call_def GClerk_FreezeShard_def
    by (subst grp_loop_answered [OF assms, where r = "GFreezeShardResponse (freeze_state sh num kv) k e"])
      (auto simp: grp_DoOp_def grp_FreezeShard_def)
  then show "\<exists>e. freeze_call sh num grp_answered ck (Some kv) = Returned (Some (fst (do_freeze sh num kv)), ck, freeze_state sh num kv, e)
      \<and> e \<noteq> ErrorNoResponse" using f(2) by auto
  obtain ie where i: "do_install sh b num kv = (fst (do_install sh b num kv), GInstallShardResponse ie)" "ie = OK \<or> ie = ErrVersion"
    using install_response by blast
  then have "install_call sh b num grp_answered ck (Some kv) = Returned (Some (fst (do_install sh b num kv)), ck, (), ie)"
    unfolding install_call_def GClerk_InstallShard_def
    by (subst grp_loop_answered [OF assms, where r = "GInstallShardResponse ie"]) (auto simp: grp_DoOp_def grp_InstallShard_def)
  then show "\<exists>e. install_call sh b num grp_answered ck (Some kv) = Returned (Some (fst (do_install sh b num kv)), ck, (), e)
      \<and> e \<noteq> ErrorNoResponse" using i(2) by auto
  obtain de where d: "do_delete sh num kv = (fst (do_delete sh num kv), GDeleteShardResponse de)" "de = OK \<or> de = ErrVersion"
    using delete_response by blast
  then have "delete_call sh num grp_answered ck (Some kv) = Returned (Some (fst (do_delete sh num kv)), ck, (), de)"
    unfolding delete_call_def GClerk_DeleteShard_def
    by (subst grp_loop_answered [OF assms, where r = "GDeleteShardResponse de"]) (auto simp: grp_DoOp_def grp_DeleteShard_def)
  then show "\<exists>e. delete_call sh num grp_answered ck (Some kv) = Returned (Some (fst (do_delete sh num kv)), ck, (), e)
      \<and> e \<noteq> ErrorNoResponse" using d(2) by auto
qed

text \<open>A move whose three calls return at the first entry, whatever happens inside.\<close>

lemma move_returned:
  assumes "w_grpnet w = evs1 # evs2 # evs3 # rest" and "oldServers \<noteq> newServers"
    and "freeze_call sh num evs1 (MakeGClerk oldServers) (w_grps w oldServers) = Returned (old1, ck1, b, e1)"
    and "install_call sh b num evs2 (MakeGClerk newServers) (w_grps w newServers) = Returned (new1, ck2, (), e2)"
    and "delete_call sh num evs3 ck1 old1 = Returned (old2, ck3, (), e3)" and "gc_servers ck1 = oldServers"
    and "e1 \<noteq> ErrorNoResponse" and "e2 \<noteq> ErrorNoResponse" and "e3 \<noteq> ErrorNoResponse"
  shows "moveShardToGroup sh num oldServers newServers sck w =
      Some (w\<lparr>w_grps := (w_grps w)(oldServers := old2, newServers := new1), w_grpnet := rest\<rparr>, sck)
    \<and> move_others sh num oldServers newServers sck w =
        (entry_ok (freeze_others sh num) evs1 \<and> entry_ok (install_others sh b num) evs2 \<and> entry_ok (delete_others sh num) evs3)"
proof -
  let ?w1 = "w\<lparr>w_grps := (w_grps w)(oldServers := old1), w_grpnet := evs2 # evs3 # rest\<rparr>"
  let ?w2 = "?w1\<lparr>w_grps := (w_grps ?w1)(newServers := new1), w_grpnet := evs3 # rest\<rparr>"
  let ?w3 = "?w2\<lparr>w_grps := (w_grps ?w2)(oldServers := old2), w_grpnet := rest\<rparr>"
  have ck: "gc_servers (MakeGClerk s) = s" for s by (simp add: MakeGClerk_def)
  have 1: "retry (freeze_call sh num) (MakeGClerk oldServers) sck w = Some (?w1, ck1, sck, Some b)"
    using retry_returned [OF assms(1), of "freeze_call sh num" "MakeGClerk oldServers"] assms(3,7) by (simp add: ck)
  have 2: "retry (install_call sh b num) (MakeGClerk newServers) sck ?w1 = Some (?w2, ck2, sck, Some ())"
    using retry_returned [of ?w1 evs2 "evs3 # rest" "install_call sh b num" "MakeGClerk newServers"] assms(2,4,8) by (simp add: ck)
  have 3: "retry (delete_call sh num) ck1 sck ?w2 = Some (?w3, ck3, sck, Some ())"
    using retry_returned [of ?w2 evs3 rest "delete_call sh num" ck1] assms(2,5,6,9) by simp
  have "moveShardToGroup sh num oldServers newServers sck w = Some (?w3, sck)"
    unfolding moveShardToGroup_def by (simp only: 1 2 3 option.simps case_prod_conv bind.simps)
  moreover have "?w3 = w\<lparr>w_grps := (w_grps w)(oldServers := old2, newServers := new1), w_grpnet := rest\<rparr>"
    using assms(2) by (simp add: fun_upd_twist)
  moreover have "served ok w ?w1 = entry_ok ok evs1" "served ok ?w1 ?w2 = entry_ok ok evs2" "served ok ?w2 ?w3 = entry_ok ok evs3" for ok
    using assms(1) by (simp_all add: served_def)
  ultimately show ?thesis
    unfolding move_others_def by (simp only: 1 2 3 option.simps case_prod_conv)
qed

lemma move_answered:
  assumes "w_grpnet w = grp_answered # grp_answered # grp_answered # rest" and "oldServers \<noteq> newServers"
    and "oldServers \<noteq> []" and "newServers \<noteq> []"
    and "w_grps w oldServers = Some old" and "w_grps w newServers = Some new"
  shows "moveShardToGroup sh num oldServers newServers sck w =
    Some (w\<lparr>w_grps := (w_grps w)(oldServers := Some (fst (do_delete sh num (fst (do_freeze sh num old)))),
               newServers := Some (fst (do_install sh (freeze_state sh num old) num new))),
            w_grpnet := rest\<rparr>, sck)"
proof -
  let ?o = "MakeGClerk oldServers" and ?n = "MakeGClerk newServers"
  have "go_nth (gc_servers ?o) (gc_leader ?o) \<noteq> None" "go_nth (gc_servers ?n) (gc_leader ?n) \<noteq> None"
    using go_nth_zero [OF assms(3)] go_nth_zero [OF assms(4)] by (simp_all add: MakeGClerk_def)
  note c = calls_answered(1,3) [OF this(1)] calls_answered(2) [OF this(2)]
  obtain e1 where 1: "freeze_call sh num grp_answered ?o (w_grps w oldServers) =
      Returned (Some (fst (do_freeze sh num old)), ?o, freeze_state sh num old, e1)" "e1 \<noteq> ErrorNoResponse"
    using c(1) assms(5) by metis
  obtain e2 where 2: "install_call sh (freeze_state sh num old) num grp_answered ?n (w_grps w newServers) =
      Returned (Some (fst (do_install sh (freeze_state sh num old) num new)), ?n, (), e2)" "e2 \<noteq> ErrorNoResponse"
    using c(3) assms(6) by metis
  obtain e3 where 3: "delete_call sh num grp_answered ?o (Some (fst (do_freeze sh num old))) =
      Returned (Some (fst (do_delete sh num (fst (do_freeze sh num old)))), ?o, (), e3)" "e3 \<noteq> ErrorNoResponse"
    using c(2) by metis
  have "gc_servers ?o = oldServers" by (simp add: MakeGClerk_def)
  from move_returned [OF assms(1,2) 1(1) 2(1) 3(1) this 1(2) 2(2) 3(2)] show ?thesis by blast
qed

section \<open>Properties\<close>

text \<open>The loops of a move, one after the other. The first from the start, the others from what the one before left.\<close>

lemma freeze_loop:
  assumes "retry (freeze_call sh num) (MakeGClerk oldServers) sck w = Some (w1, o1, sck1, fr)"
    and "served (freeze_others sh num) w w1" and "w_grps w oldServers = Some old"
  shows "gc_servers o1 = oldServers \<and> (\<forall>s. s \<noteq> oldServers \<longrightarrow> w_grps w1 s = w_grps w s)
    \<and> run_old sh num (move_start old new) (\<lambda>m. True) new (w_grps w1 oldServers)
    \<and> (\<forall>b. fr = Some b \<longrightarrow> (\<exists>m. move_reach sh num (move_start old new) m \<and> b \<in> m_states m
         \<and> w_grps w1 oldServers = Some (m_old m) \<and> m_new m = new))"
proof -
  let ?o = "MakeGClerk oldServers"
  have ck: "gc_servers ?o = oldServers" by (simp add: MakeGClerk_def)
  have "run_old sh num (move_start old new) (\<lambda>m. True) new (w_grps w (gc_servers ?o))"
    using move_reach.start assms(3) unfolding run_old_def ck
    by (intro disjI2 exI [of _ "move_start old new"]) (simp add: move_start_def)
  from retry_keeps [OF assms(1) freeze_runs assms(2) this] show ?thesis unfolding ck by blast
qed

lemma install_loop:
  assumes "retry (install_call sh b num) (MakeGClerk newServers) sck1 w1 = Some (w2, n2, sck2, ins)"
    and "served (install_others sh b num) w1 w2"
    and "move_reach sh num m0 m" and "b \<in> m_states m" and "w_grps w1 newServers = Some (m_new m)"
  shows "(\<forall>s. s \<noteq> newServers \<longrightarrow> w_grps w2 s = w_grps w1 s)
    \<and> run_new sh num m0 (\<lambda>m. b \<in> m_states m) (m_old m) (w_grps w2 newServers)
    \<and> (ins \<noteq> None \<longrightarrow> (\<exists>m'. move_reach sh num m0 m' \<and> m_installed m' \<and> m_old m' = m_old m
         \<and> w_grps w2 newServers = Some (m_new m')))"
proof -
  let ?n = "MakeGClerk newServers"
  have ck: "gc_servers ?n = newServers" by (simp add: MakeGClerk_def)
  have "run_new sh num m0 (\<lambda>m. b \<in> m_states m) (m_old m) (w_grps w1 (gc_servers ?n))"
    using assms(3-5) unfolding run_new_def ck by blast
  from retry_keeps [OF assms(1) install_runs assms(2) this] show ?thesis unfolding ck by blast
qed

lemma delete_loop:
  assumes "retry (delete_call sh num) o1 sck2 w2 = Some (w3, o3, sck3, del)" and "served (delete_others sh num) w2 w3"
    and "move_reach sh num m0 m" and "m_installed m" and "w_grps w2 (gc_servers o1) = Some (m_old m)"
  shows "run_old sh num m0 m_installed (m_new m) (w_grps w3 (gc_servers o1))
    \<and> (\<forall>s. s \<noteq> gc_servers o1 \<longrightarrow> w_grps w3 s = w_grps w2 s)"
proof -
  have "run_old sh num m0 m_installed (m_new m) (w_grps w2 (gc_servers o1))"
    using assms(3-5) unfolding run_old_def by blast
  from retry_keeps [OF assms(1) delete_runs assms(2) this] show ?thesis by blast
qed

text \<open>C32. The controller's move is a run of the protocol: whatever the network loses of its calls and of the answers,
  however late requests it sent earlier in this move and gave up are executed after all, and whatever clients and
  operations on other shards do meanwhile, when \<^verbatim>\<open>moveShardToGroup\<close> returns, having finished or having lost its lease,
  the two groups are in a state the protocol of the move reaches (unless one of them crashed on a request of
  others), and every other group is untouched. Not covered: requests for this shard from other controllers or
  under another configuration number that are executed during the move.\<close>

theorem move_runs_protocol:
  assumes "oldServers \<noteq> newServers" and "w_grps w oldServers = Some old" and "w_grps w newServers = Some new"
    and "move_others sh num oldServers newServers sck w"
    and "moveShardToGroup sh num oldServers newServers sck w = Some (w', sck')"
  shows "(w_grps w' oldServers = None \<or> w_grps w' newServers = None
      \<or> (\<exists>m. move_reach sh num (move_start old new) m \<and> w_grps w' oldServers = Some (m_old m)
           \<and> w_grps w' newServers = Some (m_new m)))
    \<and> (\<forall>s. s \<noteq> oldServers \<and> s \<noteq> newServers \<longrightarrow> w_grps w' s = w_grps w s)"
proof -
  let ?m0 = "move_start old new" and ?o = "MakeGClerk oldServers" and ?n = "MakeGClerk newServers"
  obtain w1 o1 sck1 fr where 1: "retry (freeze_call sh num) ?o sck w = Some (w1, o1, sck1, fr)"
    using assms(5) by (auto simp: moveShardToGroup_def bind_Some_iff)
  have "served (freeze_others sh num) w w1" using assms(4) 1 by (simp add: move_others_def)
  note r1 = freeze_loop [OF 1 this assms(2), of new]
  have n1: "w_grps w1 newServers = Some new" using r1 assms(1,3) by auto
  show ?thesis
  proof (cases fr)
    case None
    then have "w' = w1" using assms(5) 1 by (simp add: moveShardToGroup_def)
    then show ?thesis using r1 n1 unfolding run_old_def by auto
  next
    case (Some b)
    then obtain m where m: "move_reach sh num ?m0 m" "b \<in> m_states m" "w_grps w1 oldServers = Some (m_old m)"
      "w_grps w1 newServers = Some (m_new m)" using r1 n1 by blast
    obtain w2 n2 sck2 ins where 2: "retry (install_call sh b num) ?n sck1 w1 = Some (w2, n2, sck2, ins)"
      using assms(5) 1 Some by (auto simp: moveShardToGroup_def bind_Some_iff)
    have "served (install_others sh b num) w1 w2" using assms(4) 1 2 Some by (simp add: move_others_def)
    note r2 = install_loop [OF 2 this m(1,2,4)]
    have o2: "w_grps w2 oldServers = Some (m_old m)" using r2 assms(1) m(3) by auto
    show ?thesis
    proof (cases ins)
      case None
      then have "w' = w2" using assms(5) 1 2 Some by (simp add: moveShardToGroup_def)
      then show ?thesis using r1 r2 o2 unfolding run_new_def by auto
    next
      case ins: (Some u)
      then obtain m' where m': "move_reach sh num ?m0 m'" "m_installed m'" "w_grps w2 (gc_servers o1) = Some (m_old m')"
        "w_grps w2 newServers = Some (m_new m')" using r1 r2 o2 by auto
      obtain o3 sck3 del where 3: "retry (delete_call sh num) o1 sck2 w2 = Some (w', o3, sck3, del)"
        using assms(5) 1 2 Some ins by (auto simp: moveShardToGroup_def bind_Some_iff)
      have "served (delete_others sh num) w2 w'" using assms(4) 1 2 3 Some ins by (simp add: move_others_def)
      note r3 = delete_loop [OF 3 this m'(1-3)]
      then have "w_grps w' newServers = Some (m_new m')" using m'(4) r1 assms(1) by auto
      then show ?thesis using r1 r2 r3 unfolding run_old_def by auto
    qed
  qed
qed

definition demo_world :: cworld where
  "demo_world = \<lparr>w_kv = MakeKVServer,
     w_grps = (\<lambda>s. if s = [''a''] then Some (NewGKVServer 1) else if s = [''b''] then Some (NewGKVServer 2) else None),
     w_kvnet = [], w_grpnet = replicate 3 grp_answered\<rparr>"

text \<open>The first leader asked to freeze is deposed, and its request is executed before the second attempt and once more
  before the deletion.\<close>

definition late_freeze :: "(grp_event \<times> bool) list" where
  "late_freeze = [(([], GNotLeader), False), (([GFreezeShard 3 2], GAnswered), False)]"

definition late_delete :: "(grp_event \<times> bool) list" where
  "late_delete = [(([GFreezeShard 3 2, GPut ''x'' ''v'' 0], GAnswered), False)]"

theorem move_runs_protocol_witness:
  "\<exists>w' sck'. moveShardToGroup 3 2 [''a''] [''b''] (MakeShardCtrler ''c'')
        (demo_world\<lparr>w_grpnet := [late_freeze, grp_answered, late_delete]\<rparr>) = Some (w', sck')
    \<and> (\<forall>s. s \<noteq> [''a''] \<and> s \<noteq> [''b''] \<longrightarrow> w_grps w' s = w_grps demo_world s)"
proof -
  let ?w = "demo_world\<lparr>w_grpnet := [late_freeze, grp_answered, late_delete]\<rparr>" and ?a = "MakeGClerk [''a'']" and ?b = "MakeGClerk [''b'']"
  have g: "w_grps ?w [''a''] = Some (NewGKVServer 1)" "w_grps ?w [''b''] = Some (NewGKVServer 2)" "[''a''] \<noteq> [''b'']"
    "w_grpnet ?w = [late_freeze, grp_answered, late_delete]" by (simp_all add: demo_world_def)
  have "case freeze_call 3 2 late_freeze ?a (Some (NewGKVServer 1)) of
      Returned (g, ck, b, e) \<Rightarrow> e = OK \<and> gc_servers ck = [''a''] \<and>
        (case delete_call 3 2 late_delete ck g of Returned (g', ck', u, e') \<Rightarrow> e' = OK | _ \<Rightarrow> False)
    | _ \<Rightarrow> False" by code_simp
  then obtain g1 ck b g2 ck3 where c: "freeze_call 3 2 late_freeze ?a (w_grps ?w [''a'']) = Returned (g1, ck, b, OK)"
    "delete_call 3 2 late_delete ck g1 = Returned (g2, ck3, (), OK)" "gc_servers ck = [''a'']"
    using g(1) by (auto split: outcome.splits prod.splits)
  obtain e where i: "install_call 3 b 2 grp_answered ?b (w_grps ?w [''b'']) =
      Returned (Some (fst (do_install 3 b 2 (NewGKVServer 2))), ?b, (), e)" "e \<noteq> ErrorNoResponse"
    using calls_answered(2) [of ?b 3 b 2 "NewGKVServer 2"] g(2) by (auto simp: MakeGClerk_def go_nth_def go_len_def)
  have o: "entry_ok (freeze_others 3 2) late_freeze \<and> entry_ok (install_others 3 b 2) grp_answered \<and> entry_ok (delete_others 3 2) late_delete"
    by (simp add: entry_ok_def late_freeze_def grp_answered_def late_delete_def freeze_others_def delete_others_def client_req_def)
  have m: "moveShardToGroup 3 2 [''a''] [''b''] (MakeShardCtrler ''c'') ?w = Some (?w\<lparr>w_grps := (w_grps ?w)([''a''] := g2,
      [''b''] := Some (fst (do_install 3 b 2 (NewGKVServer 2)))), w_grpnet := []\<rparr>, MakeShardCtrler ''c'')"
    "move_others 3 2 [''a''] [''b''] (MakeShardCtrler ''c'') ?w"
    using move_returned [OF g(4,3) c(1) i(1) c(2,3) _ i(2)] o by simp_all
  show ?thesis using move_runs_protocol [OF g(3,1,2) m(2,1)] m(1) by auto
qed

text \<open>C33. A move whose old group does not own the shard. The controller ignores that freezing was refused and
  installs the missing state: the new group then works the shard with a nil map although the shard's pairs
  are elsewhere, every get says \<^verbatim>\<open>ErrNoKey\<close>, and the first put that creates a key makes the group crash.\<close>

theorem stale_move_installs_nil_map:
  assumes "w_grpnet w = grp_answered # grp_answered # grp_answered # rest" and "oldServers \<noteq> newServers"
    and "oldServers \<noteq> []" and "newServers \<noteq> []"
    and "w_grps w oldServers = Some old" and "w_grps w newServers = Some new"
    and "c_State (config_of old sh) = DontOwnState" and "c_Num (config_of new sh) < num" and "Key2Shard key = sh"
  shows "\<exists>w' kv. moveShardToGroup sh num oldServers newServers sck w = Some (w', sck) \<and> w_grps w' newServers = Some kv
    \<and> config_of kv sh = \<lparr>c_State = WorkingState, c_Num = num\<rparr>
    \<and> do_get key kv = GGetResponse '''' 0 ErrNoKey \<and> grp_DoOp (GPut key val 0) kv = None"
proof -
  have "freeze_state sh num old = None" using assms(7) by (simp add: freeze_state_def do_freeze_def Let_def)
  then have kv: "fst (do_install sh (freeze_state sh num old) num new)
      = (set_config sh WorkingState num new)\<lparr>g_keyValue := (g_keyValue new)(sh \<mapsto> None)\<rparr>" (is "_ = ?kv")
    using assms(8) by (simp add: do_install_def decode_map_def Let_def)
  have "do_get key ?kv = GGetResponse '''' 0 ErrNoKey" "grp_DoOp (GPut key val 0) ?kv = None"
    using assms(9) by (simp_all add: do_get_def grp_DoOp_def do_put_def serving_iff Let_def)
  then show ?thesis
    using move_answered [OF assms(1-6), of sh num sck] kv by (intro exI conjI) (assumption | simp)+
qed

theorem stale_move_installs_nil_map_witness:
  "\<exists>w' kv. moveShardToGroup (Key2Shard ''x'') 2 [''b''] [''a''] (MakeShardCtrler ''c'') demo_world
      = Some (w', MakeShardCtrler ''c'')
    \<and> w_grps w' [''a''] = Some kv \<and> grp_DoOp (GPut ''x'' ''v'' 0) kv = None"
proof -
  have n: "w_grpnet demo_world = grp_answered # grp_answered # grp_answered # []"
    by (simp add: demo_world_def numeral_3_eq_3)
  have g: "w_grps demo_world [''b''] = Some (NewGKVServer 2)" "w_grps demo_world [''a''] = Some (NewGKVServer 1)"
    "[''b''] \<noteq> [''a'']" "[''b''] \<noteq> []" "[''a''] \<noteq> []"
    by (simp_all add: demo_world_def)
  have c: "c_State (config_of (NewGKVServer 2) (Key2Shard ''x'')) = DontOwnState"
    "c_Num (config_of (NewGKVServer 1) (Key2Shard ''x'')) < 2" by code_simp+
  show ?thesis using stale_move_installs_nil_map [OF n g(3-5,1,2) c refl, of "MakeShardCtrler ''c''" "''v''"] by blast
qed

section \<open>The configuration server\<close>

definition kv_answered :: schedule where
  "kv_answered = [([], Answered)]"

lemma cput_answered:
  assumes "w_kvnet w = kv_answered # rest"
  shows "cput k v ver w = Some (w\<lparr>w_kv := fst (Put \<lparr>p_Key = k, p_Value = v, p_Version = ver\<rparr> (w_kv w)), w_kvnet := rest\<rparr>,
    snd (Put \<lparr>p_Key = k, p_Value = v, p_Version = ver\<rparr> (w_kv w)))"
proof -
  obtain kv e where "Put \<lparr>p_Key = k, p_Value = v, p_Version = ver\<rparr> (w_kv w) = (kv, e)" by fastforce
  then show ?thesis using assms by (simp add: cput_def Clerk_Put_def kv_answered_def)
qed

lemma cget_answered:
  assumes "w_kvnet w = kv_answered # rest" and "kv_view (w_kv w) k = Some (v, ver)"
  shows "cget k w = Some (w\<lparr>w_kvnet := rest\<rparr>, v, ver, OK)"
  using assms by (auto simp: cget_def kv_answered_def Get_def kv_view_def)

text \<open>A put at the current version succeeds.\<close>

lemma cput_current:
  assumes "w_kvnet w = kv_answered # rest" and "vnum (kv_view (w_kv w) k) = unat ver"
  shows "\<exists>kv. cput k v ver w = Some (w\<lparr>w_kv := kv, w_kvnet := rest\<rparr>, OK)
    \<and> kv_view kv = (kv_view (w_kv w))(k \<mapsto> (v, ver + 1))"
proof -
  let ?a = "\<lparr>p_Key = k, p_Value = v, p_Version = ver\<rparr>"
  have "snd (Put ?a (w_kv w)) = OK" using kvsrv.put_OK_iff [of ?a "w_kv w"] assms(2) by simp
  then show ?thesis using cput_answered [OF assms(1)] kvsrv.put_cases [of ?a "w_kv w"] by auto
qed

text \<open>A controller whose lock version is current can renew.\<close>

definition current_lease :: "ShardCtrler \<Rightarrow> cworld \<Rightarrow> bool" where
  "current_lease sck w \<longleftrightarrow> vnum (kv_view (w_kv w) LockKey) = unat (sc_lockVersion sck)"

lemma acquireLock_current:
  assumes "w_kvnet w = kv_answered # rest" and "current_lease sck w"
  shows "\<exists>kv. acquireLock sck w = Some (w\<lparr>w_kv := kv, w_kvnet := rest\<rparr>,
      sck\<lparr>sc_lockVersion := sc_lockVersion sck + 1, sc_wasLeader := True\<rparr>, True, True)
    \<and> kv_view kv = (kv_view (w_kv w))(LockKey \<mapsto> (sc_id sck, sc_lockVersion sck + 1))"
proof -
  obtain kv where kv: "cput LockKey (sc_id sck) (sc_lockVersion sck) w = Some (w\<lparr>w_kv := kv, w_kvnet := rest\<rparr>, OK)"
    "kv_view kv = (kv_view (w_kv w))(LockKey \<mapsto> (sc_id sck, sc_lockVersion sck + 1))"
    using cput_current [OF assms(1)] assms(2) unfolding current_lease_def by blast
  then show ?thesis by (subst acquireLock.simps) (intro exI [of _ kv], simp)
qed

definition storable :: "ShardConfig \<Rightarrow> bool" where
  "storable c \<longleftrightarrow> length (Shards c) = NShards \<and> distinct (map fst (Groups c))
     \<and> (\<forall>g \<in> set (Groups c). \<forall>s \<in> set (snd g). ascii s)"

definition canonical :: "ShardConfig \<Rightarrow> ShardConfig" where
  "canonical c = c\<lparr>Groups := sort_key group_order (Groups c)\<rparr>"

lemma canonical_simps [simp]:
  "Num (canonical c) = Num c" "Shards (canonical c) = Shards c"
  "storable c \<Longrightarrow> group_servers (canonical c) = group_servers c"
  by (simp_all add: canonical_def group_servers_def storable_def map_of_sort_key fun_eq_iff)

lemma FromString_canonical: "storable c \<Longrightarrow> cfg_FromString (cfg_String c) = Some (canonical c)"
  unfolding storable_def canonical_def using FromString_String by blast

lemma Query_answered:
  assumes "w_kvnet w = kv_answered # rest" and "kv_view (w_kv w) ConfigKey = Some (cfg_String c, ver)" and "storable c"
  shows "Query sck w = Some (w\<lparr>w_kvnet := rest\<rparr>, sck\<lparr>sc_currentVersion := ver\<rparr>, canonical c)"
  using cget_answered [OF assms(1,2)] FromString_canonical [OF assms(3)] by (simp add: Query_def)

lemma GetConfigToApply_answered:
  assumes "w_kvnet w = kv_answered # rest" and "kv_view (w_kv w) ApplyConfigKey = Some (cfg_String c, ver)" and "storable c"
  shows "GetConfigToApply sck w = Some (w\<lparr>w_kvnet := rest\<rparr>, sck\<lparr>sc_currentVersion := ver\<rparr>, canonical c)"
  using cget_answered [OF assms(1,2)] FromString_canonical [OF assms(3)] by (simp add: GetConfigToApply_def)

section \<open>Moving all shards\<close>

definition same_shard :: "int \<Rightarrow> GKVServer \<Rightarrow> GKVServer \<Rightarrow> bool" where
  "same_shard sh kv kv' \<longleftrightarrow> config_of kv' sh = config_of kv sh \<and> g_keyValue kv' sh = g_keyValue kv sh"

lemma same_shard_refl [simp]: "same_shard sh kv kv"
  by (simp add: same_shard_def)

lemma same_shard_trans: "same_shard sh a b \<Longrightarrow> same_shard sh b c \<Longrightarrow> same_shard sh a c"
  by (simp add: same_shard_def)

lemma same_shard_view: "same_shard (Key2Shard key) kv kv' \<Longrightarrow> grp_view kv' key = grp_view kv key"
  by (simp add: same_shard_def grp_view_def)

lemma same_shard_ready:
  "same_shard sh old old' \<Longrightarrow> same_shard sh new new' \<Longrightarrow> move_ready sh num old new \<Longrightarrow> move_ready sh num old' new'"
  by (simp add: same_shard_def move_ready_def)

lemma move_frame:
  assumes "sh' \<noteq> sh"
  shows "same_shard sh' old (fst (do_delete sh num (fst (do_freeze sh num old))))"
    and "same_shard sh' new (fst (do_install sh b num new))"
  using assms by (auto simp: same_shard_def do_freeze_def do_delete_def do_install_def Let_def)

text \<open>The shard after its move: gone from the old group, working at the new one, with the same pairs.\<close>

lemma move_effect:
  assumes "move_ready sh num old new"
  shows "c_State (config_of (fst (do_delete sh num (fst (do_freeze sh num old)))) sh) = DontOwnState"
    and "config_of (fst (do_install sh (freeze_state sh num old) num new)) sh = \<lparr>c_State = WorkingState, c_Num = num\<rparr>"
    and "Key2Shard key = sh \<Longrightarrow> grp_view (fst (do_install sh (freeze_state sh num old) num new)) key = grp_view old key"
  using assms
  by (auto simp: move_ready_def do_freeze_def do_delete_def do_install_def freeze_state_def grp_view_def encode_map_def
      decode_map_def Let_def split: option.splits)

text \<open>What is needed to move a shard of group \<open>gid\<close> in groups \<open>G\<close>, and what has happened when it has moved.\<close>

definition old_grp :: "ShardConfig \<Rightarrow> int \<times> int \<Rightarrow> string list" where
  "old_grp oldCfg x = group_servers oldCfg (snd x)"

definition new_grp :: "ShardConfig \<Rightarrow> int \<times> int \<Rightarrow> string list" where
  "new_grp newCfg x = group_servers newCfg (Shards newCfg ! nat (fst x))"

definition to_move :: "ShardConfig \<Rightarrow> int \<times> int \<Rightarrow> bool" where
  "to_move newCfg x \<longleftrightarrow> snd x \<noteq> Shards newCfg ! nat (fst x)"

definition can_move :: "ShardConfig \<Rightarrow> ShardConfig \<Rightarrow> grps \<Rightarrow> int \<times> int \<Rightarrow> bool" where
  "can_move oldCfg newCfg G x \<longleftrightarrow>
     old_grp oldCfg x \<noteq> new_grp newCfg x \<and> old_grp oldCfg x \<noteq> [] \<and> new_grp newCfg x \<noteq> []
     \<and> (\<exists>old new. G (old_grp oldCfg x) = Some old \<and> G (new_grp newCfg x) = Some new
          \<and> move_ready (fst x) (Num newCfg) old new)"

definition has_moved :: "ShardConfig \<Rightarrow> ShardConfig \<Rightarrow> grps \<Rightarrow> grps \<Rightarrow> int \<times> int \<Rightarrow> bool" where
  "has_moved oldCfg newCfg G G' x \<longleftrightarrow>
     (\<exists>old old' new'. G (old_grp oldCfg x) = Some old \<and> G' (old_grp oldCfg x) = Some old' \<and> G' (new_grp newCfg x) = Some new'
        \<and> c_State (config_of old' (fst x)) = DontOwnState
        \<and> config_of new' (fst x) = \<lparr>c_State = WorkingState, c_Num = Num newCfg\<rparr>
        \<and> (\<forall>key. Key2Shard key = fst x \<longrightarrow> grp_view new' key = grp_view old key))"

definition only_shards :: "int set \<Rightarrow> grps \<Rightarrow> grps \<Rightarrow> bool" where
  "only_shards S G G' \<longleftrightarrow> (\<forall>s kv. G s = Some kv \<longrightarrow> (\<exists>kv'. G' s = Some kv' \<and> (\<forall>sh. sh \<notin> S \<longrightarrow> same_shard sh kv kv')))"

lemma only_shardsE:
  assumes "only_shards S G G'" and "G s = Some kv"
  obtains kv' where "G' s = Some kv'" and "\<And>sh. sh \<notin> S \<Longrightarrow> same_shard sh kv kv'"
  using assms unfolding only_shards_def by blast

lemma only_shards_trans:
  assumes "only_shards S G G'" and "only_shards T G' G''"
  shows "only_shards (S \<union> T) G G''"
  unfolding only_shards_def
proof (intro allI impI)
  fix s kv
  assume "G s = Some kv"
  from only_shardsE [OF assms(1) this] obtain kv' where 1: "G' s = Some kv'" "\<And>sh. sh \<notin> S \<Longrightarrow> same_shard sh kv kv'" by blast
  from only_shardsE [OF assms(2) 1(1)] obtain kv'' where 2: "G'' s = Some kv''" "\<And>sh. sh \<notin> T \<Longrightarrow> same_shard sh kv' kv''" by blast
  show "\<exists>kv'. G'' s = Some kv' \<and> (\<forall>sh. sh \<notin> S \<union> T \<longrightarrow> same_shard sh kv kv')"
    using 1(2) 2 same_shard_trans by blast
qed

lemma can_move_later:
  assumes "can_move oldCfg newCfg G x" and "only_shards S G G'" and "fst x \<notin> S"
  shows "can_move oldCfg newCfg G' x"
proof -
  obtain old new where c: "G (old_grp oldCfg x) = Some old" "G (new_grp newCfg x) = Some new"
    "move_ready (fst x) (Num newCfg) old new" using assms(1) unfolding can_move_def by blast
  from only_shardsE [OF assms(2) c(1)] obtain old' where o: "G' (old_grp oldCfg x) = Some old'" "same_shard (fst x) old old'"
    using assms(3) by blast
  from only_shardsE [OF assms(2) c(2)] obtain new' where n: "G' (new_grp newCfg x) = Some new'" "same_shard (fst x) new new'"
    using assms(3) by blast
  have "move_ready (fst x) (Num newCfg) old' new'" using same_shard_ready [OF o(2) n(2) c(3)] .
  then show ?thesis using assms(1) o(1) n(1) unfolding can_move_def by blast
qed

lemma has_moved_later:
  assumes "has_moved oldCfg newCfg G G' x" and "only_shards S G' G''" and "fst x \<notin> S"
  shows "has_moved oldCfg newCfg G G'' x"
proof -
  obtain old old' new' where c: "G (old_grp oldCfg x) = Some old" "G' (old_grp oldCfg x) = Some old'"
    "G' (new_grp newCfg x) = Some new'" "c_State (config_of old' (fst x)) = DontOwnState"
    "config_of new' (fst x) = \<lparr>c_State = WorkingState, c_Num = Num newCfg\<rparr>"
    "\<forall>key. Key2Shard key = fst x \<longrightarrow> grp_view new' key = grp_view old key"
    using assms(1) unfolding has_moved_def by blast
  from only_shardsE [OF assms(2) c(2)] obtain old'' where o: "G'' (old_grp oldCfg x) = Some old''" "same_shard (fst x) old' old''"
    using assms(3) by blast
  from only_shardsE [OF assms(2) c(3)] obtain new'' where n: "G'' (new_grp newCfg x) = Some new''" "same_shard (fst x) new' new''"
    using assms(3) by blast
  have "c_State (config_of old'' (fst x)) = DontOwnState"
    "config_of new'' (fst x) = \<lparr>c_State = WorkingState, c_Num = Num newCfg\<rparr>"
    using c(4,5) o(2) n(2) by (simp_all add: same_shard_def)
  moreover have "\<forall>key. Key2Shard key = fst x \<longrightarrow> grp_view new'' key = grp_view old key"
    using c(6) n(2) same_shard_view by metis
  ultimately show ?thesis using c(1) o(1) n(1) unfolding has_moved_def by blast
qed

lemma has_moved_earlier:
  assumes "has_moved oldCfg newCfg G' G'' x" and "only_shards S G G'" and "fst x \<notin> S" and "can_move oldCfg newCfg G x"
  shows "has_moved oldCfg newCfg G G'' x"
proof -
  obtain old where g: "G (old_grp oldCfg x) = Some old" using assms(4) unfolding can_move_def by blast
  from only_shardsE [OF assms(2) g] obtain old' where o: "G' (old_grp oldCfg x) = Some old'" "same_shard (fst x) old old'"
    using assms(3) by blast
  have "grp_view old' key = grp_view old key" if "Key2Shard key = fst x" for key
    using same_shard_view o(2) that by metis
  then show ?thesis using assms(1) g o(1) unfolding has_moved_def by auto
qed

lemma move_one_shard:
  assumes "can_move oldCfg newCfg (w_grps w) x" and "w_grpnet w = grp_answered # grp_answered # grp_answered # rest"
  shows "\<exists>w'. moveShardToGroup (fst x) (Num newCfg) (old_grp oldCfg x) (new_grp newCfg x) sck w = Some (w', sck)
    \<and> w_kv w' = w_kv w \<and> w_kvnet w' = w_kvnet w \<and> w_grpnet w' = rest
    \<and> only_shards {fst x} (w_grps w) (w_grps w') \<and> has_moved oldCfg newCfg (w_grps w) (w_grps w') x"
proof -
  let ?o = "old_grp oldCfg x" and ?n = "new_grp newCfg x" and ?sh = "fst x" and ?num = "Num newCfg"
  obtain old new where c: "?o \<noteq> ?n" "?o \<noteq> []" "?n \<noteq> []" "w_grps w ?o = Some old" "w_grps w ?n = Some new"
    "move_ready ?sh ?num old new" using assms(1) unfolding can_move_def by blast
  let ?old' = "fst (do_delete ?sh ?num (fst (do_freeze ?sh ?num old)))"
    and ?new' = "fst (do_install ?sh (freeze_state ?sh ?num old) ?num new)"
  let ?w' = "w\<lparr>w_grps := (w_grps w)(?o := Some ?old', ?n := Some ?new'), w_grpnet := rest\<rparr>"
  have "only_shards {?sh} (w_grps w) (w_grps ?w')"
    using move_frame [of _ ?sh] c(4,5) unfolding only_shards_def by auto
  moreover have "has_moved oldCfg newCfg (w_grps w) (w_grps ?w') x"
    unfolding has_moved_def
    by (rule exI [of _ old], rule exI [of _ ?old'], rule exI [of _ ?new']) (use move_effect [OF c(6)] c(1,4) in simp)
  ultimately show ?thesis using move_answered [OF assms(2) c(1-5), of ?sh ?num sck] by (intro exI [of _ ?w']) simp
qed

text \<open>The state of the controller and the configuration server that a renewed lease leaves.\<close>

definition still_leading :: "ShardCtrler \<Rightarrow> cworld \<Rightarrow> ShardCtrler \<Rightarrow> cworld \<Rightarrow> bool" where
  "still_leading sck w sck' w' \<longleftrightarrow> current_lease sck' w' \<and> sc_id sck' = sc_id sck
     \<and> (\<forall>key. key \<noteq> LockKey \<longrightarrow> kv_view (w_kv w') key = kv_view (w_kv w) key)"

lemma still_leading_trans:
  "still_leading sck w sck1 w1 \<Longrightarrow> still_leading sck1 w1 sck2 w2 \<Longrightarrow> still_leading sck w sck2 w2"
  by (simp add: still_leading_def)

lemma renew:
  assumes "w_kvnet w = kv_answered # rest" and "current_lease sck w"
  shows "\<exists>w' sck'. acquireLock sck w = Some (w', sck', True, True) \<and> still_leading sck w sck' w'
    \<and> w_kvnet w' = rest \<and> w_grps w' = w_grps w \<and> w_grpnet w' = w_grpnet w"
proof -
  obtain kv where kv: "acquireLock sck w = Some (w\<lparr>w_kv := kv, w_kvnet := rest\<rparr>,
      sck\<lparr>sc_lockVersion := sc_lockVersion sck + 1, sc_wasLeader := True\<rparr>, True, True)"
    "kv_view kv = (kv_view (w_kv w))(LockKey \<mapsto> (sc_id sck, sc_lockVersion sck + 1))"
    using acquireLock_current [OF assms] by blast
  then show ?thesis by (auto simp: still_leading_def current_lease_def vnum_def)
qed

definition moved_shards :: "ShardConfig \<Rightarrow> (int \<times> int) list \<Rightarrow> int set" where
  "moved_shards newCfg L = fst ` {x \<in> set L. to_move newCfg x}"

lemma moveShards_answered:
  assumes "w_kvnet w = replicate k kv_answered" and "length L \<le> k"
    and "w_grpnet w = replicate g grp_answered" and "3 * length L \<le> g" and "current_lease sck w"
    and "distinct (map fst L)" and "\<forall>x \<in> set L. 0 \<le> fst x \<and> fst x < go_len (Shards newCfg)"
    and "\<forall>x \<in> set L. to_move newCfg x \<longrightarrow> can_move oldCfg newCfg (w_grps w) x"
  shows "\<exists>w' sck'. moveShards oldCfg newCfg L sck w = Some (w', sck', True) \<and> still_leading sck w sck' w'
    \<and> w_kvnet w' = replicate (k - length L) kv_answered
    \<and> only_shards (moved_shards newCfg L) (w_grps w) (w_grps w')
    \<and> (\<forall>x \<in> set L. to_move newCfg x \<longrightarrow> has_moved oldCfg newCfg (w_grps w) (w_grps w') x)"
  using assms
proof (induction L arbitrary: w sck k g)
  case Nil
  then show ?case by (auto simp: still_leading_def only_shards_def)
next
  case (Cons x L)
  obtain k' where k: "k = Suc k'" using Cons.prems(2) by (cases k) simp_all
  have g3: "w_grpnet w = grp_answered # grp_answered # grp_answered # replicate (g - 3) grp_answered"
    using Cons.prems(3,4) by (simp add: numeral_3_eq_3 flip: replicate_Suc)
  have n: "go_nth (Shards newCfg) (fst x) = Some (Shards newCfg ! nat (fst x))"
    using Cons.prems(7) by (simp add: go_nth_def)
  have "\<exists>w1. (if snd x \<noteq> Shards newCfg ! nat (fst x)
        then moveShardToGroup (fst x) (Num newCfg) (group_servers oldCfg (snd x))
               (group_servers newCfg (Shards newCfg ! nat (fst x))) sck w
        else Some (w, sck)) = Some (w1, sck)
      \<and> w_kv w1 = w_kv w \<and> w_kvnet w1 = w_kvnet w \<and> (\<exists>g' \<ge> g - 3. w_grpnet w1 = replicate g' grp_answered)
      \<and> only_shards (moved_shards newCfg [x]) (w_grps w) (w_grps w1)
      \<and> (to_move newCfg x \<longrightarrow> has_moved oldCfg newCfg (w_grps w) (w_grps w1) x)"
  proof (cases "to_move newCfg x")
    case True
    then have "moved_shards newCfg [x] = {fst x}" by (auto simp: moved_shards_def)
    then show ?thesis using move_one_shard [of oldCfg newCfg w x _ sck] g3 True Cons.prems(8)
      by (fastforce simp: to_move_def old_grp_def new_grp_def)
  next
    case False
    then show ?thesis using Cons.prems(3) by (auto simp: to_move_def only_shards_def)
  qed
  then obtain w1 g' where 1: "(if snd x \<noteq> Shards newCfg ! nat (fst x)
        then moveShardToGroup (fst x) (Num newCfg) (group_servers oldCfg (snd x))
               (group_servers newCfg (Shards newCfg ! nat (fst x))) sck w
        else Some (w, sck)) = Some (w1, sck)" "w_kv w1 = w_kv w" "w_kvnet w1 = w_kvnet w" "g - 3 \<le> g'"
      "w_grpnet w1 = replicate g' grp_answered" "only_shards (moved_shards newCfg [x]) (w_grps w) (w_grps w1)"
      "to_move newCfg x \<longrightarrow> has_moved oldCfg newCfg (w_grps w) (w_grps w1) x"
    by blast
  have "w_kvnet w1 = kv_answered # replicate k' kv_answered" "current_lease sck w1"
    using 1(2,3) Cons.prems(1,5) k by (simp_all add: current_lease_def)
  from renew [OF this] obtain w2 sck2 where 2: "acquireLock sck w1 = Some (w2, sck2, True, True)" "still_leading sck w1 sck2 w2"
    "w_kvnet w2 = replicate k' kv_answered" "w_grps w2 = w_grps w1" "w_grpnet w2 = w_grpnet w1" by blast
  have sh: "fst x \<notin> fst ` set L" using Cons.prems(6) by simp
  have later: "fst y \<notin> moved_shards newCfg [x]" if "y \<in> set L" for y
    using that sh by (auto simp: moved_shards_def)
  have can: "\<forall>y \<in> set L. to_move newCfg y \<longrightarrow> can_move oldCfg newCfg (w_grps w2) y"
    using can_move_later [OF _ 1(6)] later Cons.prems(8) 2(4) by simp
  have pre: "length L \<le> k'" "3 * length L \<le> g'" "current_lease sck2 w2" "distinct (map fst L)"
    "\<forall>x \<in> set L. 0 \<le> fst x \<and> fst x < go_len (Shards newCfg)"
    using Cons.prems(2,4,6,7) 1(4) 2(2) k by (simp_all add: still_leading_def)
  obtain w' sck' where 3: "moveShards oldCfg newCfg L sck2 w2 = Some (w', sck', True)" "still_leading sck2 w2 sck' w'"
    "w_kvnet w' = replicate (k' - length L) kv_answered" "only_shards (moved_shards newCfg L) (w_grps w2) (w_grps w')"
    "\<forall>y \<in> set L. to_move newCfg y \<longrightarrow> has_moved oldCfg newCfg (w_grps w2) (w_grps w') y"
    using Cons.IH [OF 2(3) pre(1) 2(5) [unfolded 1(5)] pre(2-5) can] by blast
  have "moveShards oldCfg newCfg (x # L) sck w = Some (w', sck', True)"
    using 1(1) 2(1) 3(1) n by (cases "snd x = Shards newCfg ! nat (fst x)"; cases x) simp_all
  moreover have "still_leading sck w sck' w'"
    using still_leading_trans [OF _ 3(2), of sck w] 2(2) 1(2) by (simp add: still_leading_def)
  moreover have "only_shards (moved_shards newCfg (x # L)) (w_grps w) (w_grps w')"
  proof -
    have "moved_shards newCfg (x # L) = moved_shards newCfg [x] \<union> moved_shards newCfg L" by (auto simp: moved_shards_def)
    then show ?thesis using only_shards_trans [OF 1(6)] 3(4) 2(4) by simp
  qed
  moreover have "\<forall>y \<in> set (x # L). to_move newCfg y \<longrightarrow> has_moved oldCfg newCfg (w_grps w) (w_grps w') y"
  proof -
    have "fst x \<notin> moved_shards newCfg L" using sh by (auto simp: moved_shards_def)
    then have "to_move newCfg x \<longrightarrow> has_moved oldCfg newCfg (w_grps w) (w_grps w') x"
      using has_moved_later 1(7) 3(4) 2(4) by metis
    moreover have "has_moved oldCfg newCfg (w_grps w) (w_grps w') y" if y: "y \<in> set L" "to_move newCfg y" for y
      using has_moved_earlier [OF _ 1(6) later [OF y(1)]] 3(5) y Cons.prems(8) 2(4) by simp
    ultimately show ?thesis by simp
  qed
  ultimately show ?case using 3(3) k by auto
qed

section \<open>A whole change of configuration\<close>

lemma canonical_plan:
  assumes "storable oldCfg" and "storable newCfg"
  shows "to_move (canonical newCfg) = to_move newCfg"
    and "can_move (canonical oldCfg) (canonical newCfg) = can_move oldCfg newCfg"
    and "has_moved (canonical oldCfg) (canonical newCfg) = has_moved oldCfg newCfg"
  using assms by (simp_all add: fun_eq_iff to_move_def can_move_def has_moved_def old_grp_def new_grp_def)

lemma storable_canonical: "storable c \<Longrightarrow> storable (canonical c)"
proof -
  assume c: "storable c"
  have "mset (map fst (sort_key group_order (Groups c))) = mset (map fst (Groups c))" by simp
  then have "distinct (map fst (sort_key group_order (Groups c)))"
    using c by (metis mset_eq_imp_distinct_iff storable_def)
  then show ?thesis using c by (simp add: storable_def canonical_def)
qed

lemma keys_distinct [simp]: "ConfigKey \<noteq> LockKey" "ApplyConfigKey \<noteq> LockKey" "ConfigKey \<noteq> ApplyConfigKey"
  "LockKey \<noteq> ConfigKey" "LockKey \<noteq> ApplyConfigKey" "ApplyConfigKey \<noteq> ConfigKey"
  by (simp_all add: ConfigKey_def ApplyConfigKey_def LockKey_def)

lemma saveConfig_answered:
  assumes "w_kvnet w = kv_answered # kv_answered # rest" and "kv_view (w_kv w) ConfigKey = Some (cfg_String oldCfg, ver)"
    and "storable oldCfg" and "Num oldCfg < Num newCfg"
  shows "\<exists>w' sck'. saveConfig newCfg sck w = Some (w', sck') \<and> w_kvnet w' = rest \<and> w_grps w' = w_grps w
    \<and> kv_view (w_kv w') = (kv_view (w_kv w))(ConfigKey \<mapsto> (cfg_String newCfg, ver + 1))
    \<and> sc_lockVersion sck' = sc_lockVersion sck"
proof -
  let ?w1 = "w\<lparr>w_kvnet := kv_answered # rest\<rparr>" and ?sck = "sck\<lparr>sc_currentVersion := ver\<rparr>"
  have q: "Query sck w = Some (?w1, ?sck, canonical oldCfg)" using Query_answered [OF assms(1-3)] .
  have "vnum (kv_view (w_kv ?w1) ConfigKey) = unat ver" using assms(2) by (simp add: vnum_def)
  then obtain kv where kv: "cput ConfigKey (cfg_String newCfg) ver ?w1 = Some (?w1\<lparr>w_kv := kv, w_kvnet := rest\<rparr>, OK)"
    "kv_view kv = (kv_view (w_kv ?w1))(ConfigKey \<mapsto> (cfg_String newCfg, ver + 1))"
    using cput_current [of ?w1 rest ConfigKey ver "cfg_String newCfg"] by auto
  have "saveConfig newCfg sck w = Some (?w1\<lparr>w_kv := kv, w_kvnet := rest\<rparr>, ?sck\<lparr>sc_currentVersion := ver + 1\<rparr>)"
    using q kv(1) assms(4) by (subst saveConfig.simps) simp
  then show ?thesis using kv(2) by auto
qed

lemma releaseLock_current:
  assumes "w_kvnet w = kv_answered # rest" and "current_lease sck w"
  shows "\<exists>w' sck'. releaseLock sck w = Some (w', sck') \<and> w_grps w' = w_grps w
    \<and> kv_view (w_kv w') = (kv_view (w_kv w))(LockKey \<mapsto> (LockAvailable, sc_lockVersion sck + 1))"
proof -
  obtain kv where "cput LockKey LockAvailable (sc_lockVersion sck) w = Some (w\<lparr>w_kv := kv, w_kvnet := rest\<rparr>, OK)"
    "kv_view kv = (kv_view (w_kv w))(LockKey \<mapsto> (LockAvailable, sc_lockVersion sck + 1))"
    using cput_current [OF assms(1)] assms(2) unfolding current_lease_def by blast
  then show ?thesis by (auto simp: releaseLock_def)
qed

definition shard_list :: "ShardConfig \<Rightarrow> (int \<times> int) list" where
  "shard_list cfg = zip (go_range (length (Shards cfg))) (Shards cfg)"

lemma go_range_props [simp]: "distinct (go_range n)" "length (go_range n) = n"
  by (simp_all add: go_range_def distinct_map inj_on_def)

lemma shard_list_props:
  "distinct (map fst (shard_list cfg))" "length (shard_list cfg) = length (Shards cfg)"
  by (simp_all add: shard_list_def)

lemma shard_list_iff:
  "x \<in> set (shard_list cfg) \<longleftrightarrow> 0 \<le> fst x \<and> fst x < go_len (Shards cfg) \<and> snd x = Shards cfg ! nat (fst x)"
proof -
  have "x \<in> set (shard_list cfg) \<longleftrightarrow> (\<exists>n < length (Shards cfg). fst x = int n \<and> snd x = Shards cfg ! n)"
  proof -
    have "go_range (length (Shards cfg)) ! n = int n" if "n < length (Shards cfg)" for n
      using that by (simp add: go_range_def)
    then show ?thesis unfolding shard_list_def in_set_zip by (metis go_range_props(2))
  qed
  also have "\<dots> \<longleftrightarrow> 0 \<le> fst x \<and> fst x < go_len (Shards cfg) \<and> snd x = Shards cfg ! nat (fst x)"
    by (auto simp: go_len_def intro!: exI [of _ "nat (fst x)"])
  finally show ?thesis .
qed

text \<open>Everything up to saving the new configuration.\<close>

lemma changeConfiguration_answered:
  assumes st: "storable oldCfg" "storable newCfg" and num: "Num oldCfg < Num newCfg"
    and kvs: "kv_view (w_kv w) ConfigKey = Some (cfg_String oldCfg, v1)"
      "kv_view (w_kv w) ApplyConfigKey = Some (cfg_String newCfg, v2)"
    and lease: "current_lease sck w"
    and net: "w_kvnet w = replicate 18 kv_answered" "w_grpnet w = replicate 36 grp_answered"
    and can: "\<forall>x \<in> set (shard_list oldCfg). to_move newCfg x \<longrightarrow> can_move oldCfg newCfg (w_grps w) x"
  shows "\<exists>w' sck' lv. changeConfiguration sck w = Some (w', sck')
    \<and> kv_view (w_kv w') ConfigKey = Some (cfg_String (canonical newCfg), v1 + 1)
    \<and> kv_view (w_kv w') LockKey = Some (LockAvailable, lv)
    \<and> only_shards (moved_shards newCfg (shard_list oldCfg)) (w_grps w) (w_grps w')
    \<and> (\<forall>x \<in> set (shard_list oldCfg). to_move newCfg x \<longrightarrow> has_moved oldCfg newCfg (w_grps w) (w_grps w') x)"
proof -
  let ?o = "canonical oldCfg" and ?n = "canonical newCfg" and ?L = "shard_list oldCfg"
  have len: "length ?L = 12" "length (Shards newCfg) = 12" using shard_list_props(2) st by (simp_all add: storable_def NShards_def)
  have "w_kvnet w = kv_answered # replicate 17 kv_answered" using net(1) by (simp add: numeral_eq_Suc)
  from renew [OF this lease] obtain w1 sck1 where 1: "acquireLock sck w = Some (w1, sck1, True, True)"
    "still_leading sck w sck1 w1" "w_kvnet w1 = replicate 17 kv_answered" "w_grps w1 = w_grps w" "w_grpnet w1 = w_grpnet w"
    by blast
  have b: "becomeController sck w = Some (w1, sck1, True)" using 1(1) by (subst becomeController.simps) simp
  let ?w2 = "w1\<lparr>w_kvnet := replicate 16 kv_answered\<rparr>" and ?sck2 = "sck1\<lparr>sc_currentVersion := v1\<rparr>"
  have q: "Query sck1 w1 = Some (?w2, ?sck2, ?o)"
    using 1(2,3) kvs(1) st(1) by (intro Query_answered) (simp_all add: still_leading_def numeral_eq_Suc)
  let ?w3 = "w1\<lparr>w_kvnet := replicate 15 kv_answered\<rparr>" and ?sck3 = "sck1\<lparr>sc_currentVersion := v2\<rparr>"
  have a: "GetConfigToApply ?sck2 ?w2 = Some (?w3, ?sck3, ?n)"
    using GetConfigToApply_answered [of ?w2 "replicate 15 kv_answered" newCfg v2 ?sck2] 1(2) kvs(2) st(2)
    by (simp add: still_leading_def numeral_eq_Suc)
  have l3: "current_lease ?sck3 ?w3" using 1(2) by (simp add: still_leading_def current_lease_def)
  have in_range: "\<forall>x \<in> set ?L. 0 \<le> fst x \<and> fst x < go_len (Shards ?n)"
    using shard_list_iff [of _ oldCfg] st by (auto simp: storable_def go_len_def)
  have can3: "\<forall>x \<in> set ?L. to_move ?n x \<longrightarrow> can_move ?o ?n (w_grps ?w3) x"
    using can 1(4) canonical_plan [OF st] by simp
  obtain w4 sck4 where 4: "moveShards ?o ?n ?L ?sck3 ?w3 = Some (w4, sck4, True)" "still_leading ?sck3 ?w3 sck4 w4"
    "w_kvnet w4 = replicate 3 kv_answered" "only_shards (moved_shards ?n ?L) (w_grps ?w3) (w_grps w4)"
    "\<forall>x \<in> set ?L. to_move ?n x \<longrightarrow> has_moved ?o ?n (w_grps ?w3) (w_grps w4) x"
    using moveShards_answered [of ?w3 15 ?L 36 ?sck3 ?n ?o] l3 in_range can3 len 1(5) net(2) shard_list_props(1) by auto
  have "w_kvnet w4 = kv_answered # kv_answered # [kv_answered]" using 4(3) by (simp add: numeral_eq_Suc)
  moreover have "kv_view (w_kv w4) ConfigKey = Some (cfg_String oldCfg, v1)"
    using 1(2) 4(2) kvs(1) by (simp add: still_leading_def)
  ultimately obtain w5 sck5 where 5: "saveConfig ?n sck4 w4 = Some (w5, sck5)" "w_kvnet w5 = [kv_answered]"
    "w_grps w5 = w_grps w4" "kv_view (w_kv w5) = (kv_view (w_kv w4))(ConfigKey \<mapsto> (cfg_String ?n, v1 + 1))"
    "sc_lockVersion sck5 = sc_lockVersion sck4"
    using saveConfig_answered [of w4 "[kv_answered]" oldCfg v1 ?n sck4] st(1) num by auto
  have "current_lease sck5 w5" using 4(2) 5(4,5) by (simp add: still_leading_def current_lease_def)
  from releaseLock_current [OF 5(2) this] obtain w6 sck6 where 6: "releaseLock sck5 w5 = Some (w6, sck6)" "w_grps w6 = w_grps w5"
    "kv_view (w_kv w6) = (kv_view (w_kv w5))(LockKey \<mapsto> (LockAvailable, sc_lockVersion sck5 + 1))" by blast
  have L: "zip (go_range (length (Shards oldCfg))) (Shards oldCfg) = ?L" by (simp add: shard_list_def)
  have "changeConfiguration sck w = Some (w6, sck6)"
    using b q a 4(1) 5(1) 6(1) num by (simp add: changeConfiguration_def L)
  moreover have "moved_shards ?n ?L = moved_shards newCfg ?L" using canonical_plan(1) [OF st] by (simp add: moved_shards_def)
  ultimately show ?thesis
    using 4(4,5) 5(3,4) 6(2,3) 1(4) canonical_plan [OF st] by simp
qed

lemma GidServers_group:
  assumes "length (Shards cfg) = NShards"
  shows "\<exists>known. GidServers cfg (Key2Shard key) = Some (Shards cfg ! nat (Key2Shard key),
    group_servers cfg (Shards cfg ! nat (Key2Shard key)), known)"
  using assms Key2Shard_range [of key] by (simp add: GidServers_def go_nth_def go_len_def group_servers_def)

lemma saveApplyConfig_answered:
  assumes "w_kvnet w = kv_answered # kv_answered # rest" and "kv_view (w_kv w) ApplyConfigKey = Some (cfg_String saved, ver)"
    and "storable saved" and "Num saved < Num new"
  shows "\<exists>kv. saveApplyConfig new w = Some (w\<lparr>w_kv := kv, w_kvnet := rest\<rparr>, new)
    \<and> kv_view kv = (kv_view (w_kv w))(ApplyConfigKey \<mapsto> (cfg_String new, ver + 1))"
proof -
  let ?w1 = "w\<lparr>w_kvnet := kv_answered # rest\<rparr>"
  have g: "cget ApplyConfigKey w = Some (?w1, cfg_String saved, ver, OK)" using cget_answered [OF assms(1,2)] .
  have "vnum (kv_view (w_kv ?w1) ApplyConfigKey) = unat ver" using assms(2) by (simp add: vnum_def)
  then obtain kv where kv: "cput ApplyConfigKey (cfg_String new) ver ?w1 = Some (?w1\<lparr>w_kv := kv, w_kvnet := rest\<rparr>, OK)"
    "kv_view kv = (kv_view (w_kv ?w1))(ApplyConfigKey \<mapsto> (cfg_String new, ver + 1))"
    using cput_current [of ?w1 rest ApplyConfigKey ver "cfg_String new"] by auto
  have "saveApplyConfig new w = Some (w\<lparr>w_kv := kv, w_kvnet := rest\<rparr>, new)"
    using g kv(1) FromString_canonical [OF assms(3)] assms(4) by (subst saveApplyConfig.simps) simp
  then show ?thesis using kv(2) by auto
qed

text \<open>Where a shard is before a change, and what the change leaves of a key's pairs.\<close>

definition placed :: "ShardConfig \<Rightarrow> ShardConfig \<Rightarrow> grps \<Rightarrow> int \<times> int \<Rightarrow> bool" where
  "placed oldCfg newCfg G x \<longleftrightarrow> (if to_move newCfg x then can_move oldCfg newCfg G x
     else new_grp newCfg x = old_grp oldCfg x \<and> (\<exists>kv. G (old_grp oldCfg x) = Some kv
            \<and> c_State (config_of kv (fst x)) = WorkingState))"

lemma shard_kept:
  assumes "x \<in> set (shard_list oldCfg)" and "placed oldCfg newCfg G x" and "Key2Shard key = fst x"
    and "only_shards (moved_shards newCfg (shard_list oldCfg)) G G'"
    and "to_move newCfg x \<longrightarrow> has_moved oldCfg newCfg G G' x"
  shows "\<exists>kv kv'. G (old_grp oldCfg x) = Some kv \<and> G' (new_grp newCfg x) = Some kv'
    \<and> c_State (config_of kv' (fst x)) = WorkingState \<and> grp_view kv' key = grp_view kv key"
proof (cases "to_move newCfg x")
  case True
  then show ?thesis using assms(3,5) unfolding has_moved_def by fastforce
next
  case False
  then obtain kv where kv: "new_grp newCfg x = old_grp oldCfg x" "G (old_grp oldCfg x) = Some kv"
    "c_State (config_of kv (fst x)) = WorkingState" using assms(2) by (auto simp: placed_def)
  have "fst x \<notin> moved_shards newCfg (shard_list oldCfg)"
  proof
    assume "fst x \<in> moved_shards newCfg (shard_list oldCfg)"
    then obtain y where "y \<in> set (shard_list oldCfg)" "fst y = fst x" "to_move newCfg y" by (auto simp: moved_shards_def)
    moreover then have "y = x" using assms(1) by (auto simp: shard_list_iff prod_eq_iff)
    ultimately show False using False by simp
  qed
  then obtain kv' where kv': "G' (old_grp oldCfg x) = Some kv'" "same_shard (fst x) kv kv'"
    using only_shardsE [OF assms(4) kv(2)] by blast
  have "c_State (config_of kv' (fst x)) = WorkingState" using kv(3) kv'(2) by (simp add: same_shard_def)
  moreover have "grp_view kv' key = grp_view kv key" by (rule same_shard_view) (simp add: assms(3) kv'(2))
  ultimately show ?thesis using kv(1,2) kv'(1) by (intro exI conjI) (assumption | simp only:)+
qed

lemma key_kept:
  assumes "storable oldCfg" and "length (Shards c) = NShards" and "Shards c = Shards newCfg"
    and "group_servers c = group_servers newCfg" and "\<forall>x \<in> set (shard_list oldCfg). placed oldCfg newCfg G x"
    and "only_shards (moved_shards newCfg (shard_list oldCfg)) G G'"
    and "\<forall>x \<in> set (shard_list oldCfg). to_move newCfg x \<longrightarrow> has_moved oldCfg newCfg G G' x"
  shows "\<exists>g srv known kv g' srv' known' kv'.
      GidServers oldCfg (Key2Shard key) = Some (g, srv, known) \<and> G srv = Some kv
      \<and> GidServers c (Key2Shard key) = Some (g', srv', known') \<and> G' srv' = Some kv'
      \<and> c_State (config_of kv' (Key2Shard key)) = WorkingState \<and> grp_view kv' key = grp_view kv key"
proof -
  let ?sh = "Key2Shard key" let ?x = "(?sh, Shards oldCfg ! nat ?sh)"
  have x: "?x \<in> set (shard_list oldCfg)"
    using Key2Shard_range [of key] assms(1) by (simp add: shard_list_iff storable_def go_len_def)
  obtain kv kv' where "G (old_grp oldCfg ?x) = Some kv" "G' (new_grp newCfg ?x) = Some kv'"
    "c_State (config_of kv' ?sh) = WorkingState" "grp_view kv' key = grp_view kv key"
    using shard_kept [OF x _ _ assms(6), of key] assms(5,7) x by auto
  moreover obtain k1 where "GidServers oldCfg ?sh = Some (Shards oldCfg ! nat ?sh, old_grp oldCfg ?x, k1)"
    using GidServers_group [of oldCfg key] assms(1) by (auto simp: storable_def old_grp_def)
  moreover obtain k2 where "GidServers c ?sh = Some (Shards newCfg ! nat ?sh, new_grp newCfg ?x, k2)"
    using GidServers_group [of c key] assms(2-4) by (auto simp: new_grp_def)
  ultimately show ?thesis by blast
qed

text \<open>C31. An undisturbed change of configuration, from saving the new one to releasing the lease, keeps every key.
  Suppose that the configuration server and the groups answer each call at the first attempt and nobody else sends
  requests meanwhile, that the controller's lock version is current and no earlier change is pending, and that each
  shard is worked by the group the old configuration names, and, if it changes groups, not by its new one, whose
  number for it is smaller. Then \<^verbatim>\<open>ChangeConfigTo\<close> returns, the new configuration is stored, the lock is free again, and
  for every key the group the new configuration names works the key's shard and holds for the key what the group
  named by the old configuration held.\<close>

theorem change_config_keeps_data:
  assumes "storable oldCfg" and "storable newCfg" and "Num oldCfg < Num newCfg"
    and "kv_view (w_kv w) ConfigKey = Some (cfg_String oldCfg, v1)"
    and "kv_view (w_kv w) ApplyConfigKey = Some (cfg_String oldCfg, v2)"
    and "current_lease sck w" and "w_kvnet w = replicate 20 kv_answered" and "w_grpnet w = replicate 36 grp_answered"
    and "\<forall>x \<in> set (shard_list oldCfg). placed oldCfg newCfg (w_grps w) x"
  shows "\<exists>w' sck' str ver lv c. ChangeConfigTo newCfg sck w = Some (w', sck')
    \<and> kv_view (w_kv w') ConfigKey = Some (str, ver) \<and> cfg_FromString str = Some c
    \<and> Num c = Num newCfg \<and> Shards c = Shards newCfg \<and> group_servers c = group_servers newCfg
    \<and> kv_view (w_kv w') LockKey = Some (LockAvailable, lv)
    \<and> (\<forall>key. \<exists>g srv known kv g' srv' known' kv'.
         GidServers oldCfg (Key2Shard key) = Some (g, srv, known) \<and> w_grps w srv = Some kv
         \<and> GidServers c (Key2Shard key) = Some (g', srv', known') \<and> w_grps w' srv' = Some kv'
         \<and> c_State (config_of kv' (Key2Shard key)) = WorkingState \<and> grp_view kv' key = grp_view kv key)"
proof -
  let ?L = "shard_list oldCfg" and ?c = "canonical (canonical newCfg)"
  have "w_kvnet w = kv_answered # kv_answered # replicate 18 kv_answered" using assms(7) by (simp add: numeral_eq_Suc)
  from saveApplyConfig_answered [OF this assms(5,1,3)] obtain kv0 where
    s0: "saveApplyConfig newCfg w = Some (w\<lparr>w_kv := kv0, w_kvnet := replicate 18 kv_answered\<rparr>, newCfg)"
      "kv_view kv0 = (kv_view (w_kv w))(ApplyConfigKey \<mapsto> (cfg_String newCfg, v2 + 1))" by blast
  let ?w = "w\<lparr>w_kv := kv0, w_kvnet := replicate 18 kv_answered\<rparr>"
  have pre: "kv_view (w_kv ?w) ConfigKey = Some (cfg_String oldCfg, v1)"
    "kv_view (w_kv ?w) ApplyConfigKey = Some (cfg_String newCfg, v2 + 1)" "current_lease sck ?w"
    "w_kvnet ?w = replicate 18 kv_answered" "w_grpnet ?w = replicate 36 grp_answered"
    using s0(2) assms(4,6,8) by (simp_all add: current_lease_def)
  have can: "\<forall>x \<in> set ?L. to_move newCfg x \<longrightarrow> can_move oldCfg newCfg (w_grps ?w) x"
    using assms(9) by (auto simp: placed_def)
  obtain w' sck' lv where r0: "changeConfiguration sck ?w = Some (w', sck')"
    and r: "kv_view (w_kv w') ConfigKey = Some (cfg_String (canonical newCfg), v1 + 1)"
    "kv_view (w_kv w') LockKey = Some (LockAvailable, lv)"
    "only_shards (moved_shards newCfg ?L) (w_grps w) (w_grps w')"
    "\<forall>x \<in> set ?L. to_move newCfg x \<longrightarrow> has_moved oldCfg newCfg (w_grps w) (w_grps w') x"
    using changeConfiguration_answered [OF assms(1-3) pre can] by auto
  have cc: "ChangeConfigTo newCfg sck w = Some (w', sck')" using s0(1) r0 by (simp add: ChangeConfigTo_def)
  note sc = storable_canonical [OF assms(2)]
  have c: "Num ?c = Num newCfg" "Shards ?c = Shards newCfg" "group_servers ?c = group_servers newCfg" "length (Shards ?c) = NShards"
    using sc assms(2) by (simp_all add: storable_def)
  note keys = key_kept [OF assms(1) c(4,2,3) assms(9) r(3,4)]
  show ?thesis
    by (intro exI [of _ w'] exI [of _ sck'] exI [of _ "cfg_String (canonical newCfg)"] exI [of _ "v1 + 1"]
        exI [of _ lv] exI [of _ ?c] conjI allI cc r(1,2) c(1-3) keys FromString_canonical [OF sc])
qed

definition demo_old_cfg :: ShardConfig where
  "demo_old_cfg = \<lparr>Num = 1, Shards = replicate 12 1, Groups = [(1, [''a''])]\<rparr>"

definition demo_new_cfg :: ShardConfig where
  "demo_new_cfg = \<lparr>Num = 2, Shards = replicate 6 1 @ replicate 6 2, Groups = [(1, [''a'']), (2, [''b''])]\<rparr>"

definition demo_change :: cworld where
  "demo_change = demo_world\<lparr>
     w_kv := \<lparr>keyValue = [ConfigKey \<mapsto> \<lparr>d_version = 1, d_value = cfg_String demo_old_cfg\<rparr>,
       ApplyConfigKey \<mapsto> \<lparr>d_version = 1, d_value = cfg_String demo_old_cfg\<rparr>]\<rparr>,
     w_kvnet := replicate 20 kv_answered, w_grpnet := replicate 36 grp_answered\<rparr>"

theorem change_config_keeps_data_witness:
  "\<exists>w' sck' str ver c. ChangeConfigTo demo_new_cfg (MakeShardCtrler ''c'') demo_change = Some (w', sck')
    \<and> kv_view (w_kv w') ConfigKey = Some (str, ver) \<and> cfg_FromString str = Some c \<and> Num c = 2"
proof -
  let ?o = demo_old_cfg and ?n = demo_new_cfg and ?sck = "MakeShardCtrler ''c''" and ?w = demo_change
  have st: "storable ?o" "storable ?n" "Num ?o < Num ?n" by code_simp+
  have kv: "kv_view (w_kv ?w) ConfigKey = Some (cfg_String ?o, 1)" "kv_view (w_kv ?w) ApplyConfigKey = Some (cfg_String ?o, 1)"
    "current_lease ?sck ?w" "w_kvnet ?w = replicate 20 kv_answered" "w_grpnet ?w = replicate 36 grp_answered"
    by (simp_all add: demo_change_def kv_view_def current_lease_def vnum_def MakeShardCtrler_def)
  have g: "w_grps ?w [''a''] = Some (NewGKVServer 1)" "w_grps ?w [''b''] = Some (NewGKVServer 2)"
    by (simp_all add: demo_change_def demo_world_def)
  have mv: "\<forall>x \<in> set (shard_list ?o). to_move ?n x \<longrightarrow> old_grp ?o x = [''a''] \<and> new_grp ?n x = [''b'']
      \<and> move_ready (fst x) (Num ?n) (NewGKVServer 1) (NewGKVServer 2)" by code_simp
  have st': "\<forall>x \<in> set (shard_list ?o). \<not> to_move ?n x \<longrightarrow> old_grp ?o x = [''a''] \<and> new_grp ?n x = [''a'']
      \<and> c_State (config_of (NewGKVServer 1) (fst x)) = WorkingState" by code_simp
  have all: "\<forall>x \<in> set (shard_list ?o). placed ?o ?n (w_grps ?w) x"
  proof
    fix x
    assume x: "x \<in> set (shard_list ?o)"
    show "placed ?o ?n (w_grps ?w) x"
      using bspec [OF mv x] bspec [OF st' x] g by (auto simp: placed_def can_move_def)
  qed
  have "Num ?n = 2" by (simp add: demo_new_cfg_def)
  then show ?thesis using change_config_keeps_data [OF st kv all] by metis
qed

end
