(* ===== verification/Mr_Coordinator.thy ===== *)
theory Mr_Coordinator
  imports Go_Prelude
begin

text \<open>
  The MapReduce coordinator (\<^verbatim>\<open>mr/coordinator.go\<close>, \<^verbatim>\<open>mr/rpc.go\<close>): handing out tasks, counting finished ones and
  requeueing those whose timer fires. A channel is the list of its elements; a send on a full channel
  blocks while the mutex is held, which is \<open>None\<close>, as is an index out of range. A task is shown never to be
  lost; the counts are shown to be right when no worker reports a task after its timer fired, and wrong
  otherwise.
\<close>

section \<open>Definitions\<close>

datatype TaskState = IdleState | InProgressState | MDoneState

text \<open>\<^verbatim>\<open>timer\<close>: whether the task has a timer that is still running.\<close>

record Task =
  t_state :: TaskState
  t_taskNumber :: int
  t_file :: string
  t_timer :: bool

datatype FunctionType = MapTask | ReduceTask | SleepTask

record GetJobResponse =
  j_TaskType :: FunctionType
  j_TaskNumber :: int
  j_Buckets :: int
  j_Maps :: int
  j_Input :: string

record FinishJobRequest =
  f_TaskNumber :: int
  f_TaskType :: FunctionType

record Coordinator =
  mapQueue :: "int list"
  reduceQueue :: "int list"
  mapTasks :: "Task list"
  reduceTasks :: "Task list"
  totalMaps :: int
  totalReduces :: int
  finishedMaps :: int
  finishedReduces :: int

definition MDone :: "Coordinator \<Rightarrow> bool" where
  "MDone c \<longleftrightarrow> finishedReduces c = totalReduces c"

definition new_task :: "int \<Rightarrow> string \<Rightarrow> Task" where
  "new_task i file = \<lparr>t_state = IdleState, t_taskNumber = i, t_file = file, t_timer = False\<rparr>"

fun map_tasks :: "int \<Rightarrow> string list \<Rightarrow> Task list" where
  "map_tasks i [] = []"
| "map_tasks i (file # files) = new_task i file # map_tasks (i + 1) files"

definition MakeCoordinator :: "string list \<Rightarrow> nat \<Rightarrow> Coordinator" where
  "MakeCoordinator files nReduce =
     \<lparr>mapQueue = go_range (length files), reduceQueue = go_range nReduce,
      mapTasks = map_tasks 0 files, reduceTasks = map (\<lambda>i. new_task i '''') (go_range nReduce),
      totalMaps = go_len files, totalReduces = int nReduce, finishedMaps = 0, finishedReduces = 0\<rparr>"

text \<open>Stopping the old timer, if any, and starting a new one.\<close>

definition scheduleRequeueLocked :: "Task \<Rightarrow> Task" where
  "scheduleRequeueLocked task = task\<lparr>t_timer := True\<rparr>"

definition sleep_reply :: GetJobResponse where
  "sleep_reply = \<lparr>j_TaskType = SleepTask, j_TaskNumber = 0, j_Buckets = 0, j_Maps = 0, j_Input = ''''\<rparr>"

definition GetJob :: "Coordinator \<Rightarrow> (Coordinator \<times> GetJobResponse) option" where
  "GetJob c =
     (if finishedMaps c \<noteq> totalMaps c then
        (case mapQueue c of
           [] \<Rightarrow> Some (c, sleep_reply)
         | taskIndex # queue \<Rightarrow> do {
             task \<leftarrow> go_nth (mapTasks c) taskIndex;
             tasks \<leftarrow> go_upd (mapTasks c) taskIndex (scheduleRequeueLocked (task\<lparr>t_state := InProgressState\<rparr>));
             Some (c\<lparr>mapQueue := queue, mapTasks := tasks\<rparr>,
               \<lparr>j_TaskType = MapTask, j_TaskNumber = t_taskNumber task, j_Buckets = totalReduces c, j_Maps = 0,
                j_Input = t_file task\<rparr>)
           })
      else
        (case reduceQueue c of
           [] \<Rightarrow> Some (c, sleep_reply)
         | taskIndex # queue \<Rightarrow> do {
             task \<leftarrow> go_nth (reduceTasks c) taskIndex;
             tasks \<leftarrow> go_upd (reduceTasks c) taskIndex (scheduleRequeueLocked (task\<lparr>t_state := InProgressState\<rparr>));
             Some (c\<lparr>reduceQueue := queue, reduceTasks := tasks\<rparr>,
               \<lparr>j_TaskType = ReduceTask, j_TaskNumber = t_taskNumber task, j_Buckets = totalReduces c, j_Maps = totalMaps c,
                j_Input = ''''\<rparr>)
           }))"

definition OnJobFinish :: "FinishJobRequest \<Rightarrow> Coordinator \<Rightarrow> Coordinator option" where
  "OnJobFinish args c =
     (case f_TaskType args of
        MapTask \<Rightarrow> do {
          task \<leftarrow> go_nth (mapTasks c) (f_TaskNumber args);
          tasks \<leftarrow> go_upd (mapTasks c) (f_TaskNumber args) (task\<lparr>t_state := MDoneState\<rparr>);
          Some (c\<lparr>mapTasks := tasks,
            finishedMaps := (if t_state task \<noteq> MDoneState then finishedMaps c + 1 else finishedMaps c)\<rparr>)
        }
      | ReduceTask \<Rightarrow> do {
          task \<leftarrow> go_nth (reduceTasks c) (f_TaskNumber args);
          tasks \<leftarrow> go_upd (reduceTasks c) (f_TaskNumber args) (task\<lparr>t_state := MDoneState\<rparr>);
          Some (c\<lparr>reduceTasks := tasks,
            finishedReduces := (if t_state task \<noteq> MDoneState then finishedReduces c + 1 else finishedReduces c)\<rparr>)
        }
      | SleepTask \<Rightarrow> Some c)"

text \<open>The goroutine of a timer that fires: the task and its queue, of capacity \<open>cap\<close>, afterwards.\<close>

definition requeue :: "int \<Rightarrow> int \<Rightarrow> Task \<Rightarrow> int list \<Rightarrow> (Task \<times> int list) option" where
  "requeue cap taskIndex task queue =
     (if t_state task \<noteq> MDoneState then
        (if cap \<le> go_len queue then None
         else Some (task\<lparr>t_state := IdleState, t_timer := False\<rparr>, queue @ [taskIndex]))
      else Some (task\<lparr>t_timer := False\<rparr>, queue))"

text \<open>Only a running timer can fire.\<close>

definition timer_fires :: "FunctionType \<Rightarrow> int \<Rightarrow> Coordinator \<Rightarrow> Coordinator option" where
  "timer_fires kind i c =
     (case kind of
        MapTask \<Rightarrow> do {
          task \<leftarrow> go_nth (mapTasks c) i;
          (task', queue) \<leftarrow> requeue (totalMaps c) i task (mapQueue c);
          tasks \<leftarrow> go_upd (mapTasks c) i task';
          Some (c\<lparr>mapTasks := tasks, mapQueue := queue\<rparr>)
        }
      | ReduceTask \<Rightarrow> do {
          task \<leftarrow> go_nth (reduceTasks c) i;
          (task', queue) \<leftarrow> requeue (totalReduces c) i task (reduceQueue c);
          tasks \<leftarrow> go_upd (reduceTasks c) i task';
          Some (c\<lparr>reduceTasks := tasks, reduceQueue := queue\<rparr>)
        }
      | SleepTask \<Rightarrow> Some c)"

subsection \<open>Runs\<close>

datatype mr_event = AskJob | Finished FunctionType int | Fires FunctionType int

definition tasks_of :: "FunctionType \<Rightarrow> Coordinator \<Rightarrow> Task list" where
  "tasks_of kind c = (case kind of MapTask \<Rightarrow> mapTasks c | ReduceTask \<Rightarrow> reduceTasks c | SleepTask \<Rightarrow> [])"

definition queue_of :: "FunctionType \<Rightarrow> Coordinator \<Rightarrow> int list" where
  "queue_of kind c = (case kind of MapTask \<Rightarrow> mapQueue c | ReduceTask \<Rightarrow> reduceQueue c | SleepTask \<Rightarrow> [])"

definition is_task :: "FunctionType \<Rightarrow> int \<Rightarrow> Coordinator \<Rightarrow> bool" where
  "is_task kind i c \<longleftrightarrow> 0 \<le> i \<and> i < go_len (tasks_of kind c)"

text \<open>Events that can happen: workers report tasks that exist, and only running timers fire.\<close>

definition possible :: "mr_event \<Rightarrow> Coordinator \<Rightarrow> bool" where
  "possible e c = (case e of
     AskJob \<Rightarrow> True
   | Finished kind i \<Rightarrow> is_task kind i c
   | Fires kind i \<Rightarrow> is_task kind i c \<and> t_timer (tasks_of kind c ! nat i))"

definition mr_apply :: "mr_event \<Rightarrow> Coordinator \<Rightarrow> Coordinator option" where
  "mr_apply e c = (case e of
     AskJob \<Rightarrow> map_option fst (GetJob c)
   | Finished kind i \<Rightarrow> OnJobFinish \<lparr>f_TaskNumber = i, f_TaskType = kind\<rparr> c
   | Fires kind i \<Rightarrow> timer_fires kind i c)"

fun mr_run :: "mr_event list \<Rightarrow> Coordinator \<Rightarrow> Coordinator option" where
  "mr_run [] c = Some c"
| "mr_run (e # es) c = do { c1 \<leftarrow> mr_apply e c; mr_run es c1 }"

text \<open>Whether all events of a run are possible, and whether no task is reported while it is queued again.\<close>

fun possible_run :: "mr_event list \<Rightarrow> Coordinator \<Rightarrow> bool" where
  "possible_run [] c \<longleftrightarrow> True"
| "possible_run (e # es) c \<longleftrightarrow> possible e c \<and> (case mr_apply e c of None \<Rightarrow> True | Some c1 \<Rightarrow> possible_run es c1)"

definition prompt :: "mr_event \<Rightarrow> Coordinator \<Rightarrow> bool" where
  "prompt e c = (case e of Finished kind i \<Rightarrow> i \<notin> set (queue_of kind c) | _ \<Rightarrow> True)"

fun prompt_run :: "mr_event list \<Rightarrow> Coordinator \<Rightarrow> bool" where
  "prompt_run [] c \<longleftrightarrow> True"
| "prompt_run (e # es) c \<longleftrightarrow> prompt e c \<and> (case mr_apply e c of None \<Rightarrow> True | Some c1 \<Rightarrow> prompt_run es c1)"

section \<open>No task is lost\<close>

text \<open>The invariant of one phase: its queue, its tasks and its number of tasks.\<close>

definition task_ok :: "int list \<Rightarrow> int \<Rightarrow> Task \<Rightarrow> bool" where
  "task_ok q i t \<longleftrightarrow> (i \<in> set q \<longrightarrow> \<not> t_timer t) \<and> (t_state t = MDoneState \<or> i \<in> set q \<or> t_timer t)"

definition phase_ok :: "int list \<Rightarrow> Task list \<Rightarrow> int \<Rightarrow> bool" where
  "phase_ok q ts n \<longleftrightarrow> distinct q \<and> n = go_len ts \<and> set q \<subseteq> {0..<n}
     \<and> (\<forall>i. 0 \<le> i \<and> i < n \<longrightarrow> task_ok q i (ts ! nat i))"

lemma upd_nth:
  "0 \<le> i \<Longrightarrow> i < go_len ts \<Longrightarrow> 0 \<le> j \<Longrightarrow> ts[nat i := v] ! nat j = (if j = i then v else ts ! nat j)"
  by (auto simp: go_len_def nth_list_update eq_nat_nat_iff)

lemma phase_ok_upd:
  assumes "phase_ok q ts n" and "0 \<le> i" and "i < n" and "distinct q'" and "set q' \<subseteq> insert i (set q)"
    and "\<And>j. j \<noteq> i \<Longrightarrow> j \<in> set q' \<longleftrightarrow> j \<in> set q" and "task_ok q' i t"
  shows "phase_ok q' (ts[nat i := t]) n"
proof -
  have n: "n = go_len ts" using assms(1) by (simp add: phase_ok_def)
  have "task_ok q' j (ts[nat i := t] ! nat j)" if "0 \<le> j" "j < n" for j
    using assms that n upd_nth [of i ts j t] by (auto simp: phase_ok_def task_ok_def)
  then show ?thesis using assms(1-5) unfolding phase_ok_def by auto
qed

lemma phase_ok_room:
  assumes "phase_ok q ts n" and "0 \<le> i" and "i < n" and "i \<notin> set q"
  shows "go_len q < n"
proof -
  have "set q \<subseteq> {0..<n} - {i}" using assms unfolding phase_ok_def by auto
  then have "card (set q) \<le> card ({0..<n} - {i})" by (rule card_mono [rotated]) simp
  also have "\<dots> < nat n" using assms(2,3) by simp
  finally show ?thesis using assms(1) by (simp add: phase_ok_def distinct_card go_len_def)
qed

lemma phase_ok_pop:
  assumes "phase_ok (i # q) ts n"
  shows "phase_ok q (ts[nat i := scheduleRequeueLocked (t\<lparr>t_state := InProgressState\<rparr>)]) n"
    and "go_nth ts i = Some (ts ! nat i)" and "go_upd ts i v = Some (ts[nat i := v])"
proof -
  have i: "0 \<le> i" "i < n" "distinct q" "i \<notin> set q" "n = go_len ts" using assms by (auto simp: phase_ok_def)
  show "phase_ok q (ts[nat i := scheduleRequeueLocked (t\<lparr>t_state := InProgressState\<rparr>)]) n"
    by (rule phase_ok_upd [OF assms i(1,2,3)]) (use i in \<open>auto simp: task_ok_def scheduleRequeueLocked_def\<close>)
  show "go_nth ts i = Some (ts ! nat i)" "go_upd ts i v = Some (ts[nat i := v])"
    using i by (simp_all add: go_nth_def go_upd_def)
qed

lemma phase_ok_done:
  assumes "phase_ok q ts n" and "0 \<le> i" and "i < n"
  shows "phase_ok q (ts[nat i := (ts ! nat i)\<lparr>t_state := MDoneState\<rparr>]) n"
  by (rule phase_ok_upd [OF assms]) (use assms in \<open>auto simp: phase_ok_def task_ok_def\<close>)

lemma phase_ok_fire:
  assumes "phase_ok q ts n" and "0 \<le> i" and "i < n" and "t_timer (ts ! nat i)"
  shows "\<exists>task' q'. requeue n i (ts ! nat i) q = Some (task', q') \<and> phase_ok q' (ts[nat i := task']) n"
proof -
  have q: "i \<notin> set q" "distinct q" using assms unfolding phase_ok_def task_ok_def by blast+
  note room = phase_ok_room [OF assms(1-3) q(1)]
  show ?thesis
  proof (cases "t_state (ts ! nat i) = MDoneState")
    case True
    have "phase_ok q (ts[nat i := (ts ! nat i)\<lparr>t_timer := False\<rparr>]) n"
      by (rule phase_ok_upd [OF assms(1-3)]) (use q True in \<open>auto simp: task_ok_def\<close>)
    then show ?thesis using True by (simp add: requeue_def)
  next
    case False
    have "phase_ok (q @ [i]) (ts[nat i := (ts ! nat i)\<lparr>t_state := IdleState, t_timer := False\<rparr>]) n"
      by (rule phase_ok_upd [OF assms(1-3)]) (use q in \<open>auto simp: task_ok_def\<close>)
    then show ?thesis using False room by (simp add: requeue_def)
  qed
qed

definition mr_ok :: "Coordinator \<Rightarrow> bool" where
  "mr_ok c \<longleftrightarrow> phase_ok (mapQueue c) (mapTasks c) (totalMaps c) \<and> phase_ok (reduceQueue c) (reduceTasks c) (totalReduces c)"

lemma map_tasks_length [simp]: "length (map_tasks i files) = length files"
  by (induction files arbitrary: i) auto

lemma map_tasks_nth: "k < length files \<Longrightarrow> map_tasks i files ! k = new_task (i + int k) (files ! k)"
  by (induction files arbitrary: i k) (auto simp: nth_Cons add.assoc split: nat.splits)

lemma start_phase:
  assumes "length ts = n" and "\<And>k. k < n \<Longrightarrow> \<not> t_timer (ts ! k)"
  shows "phase_ok (go_range n) ts (int n)"
  using assms by (auto simp: phase_ok_def go_len_def task_ok_def nat_less_iff go_range_def distinct_map inj_on_def image_iff)
    (metis atLeastLessThan_iff int_nat_eq le0 nat_less_iff)

lemma make_ok: "mr_ok (MakeCoordinator files nReduce)"
  unfolding mr_ok_def MakeCoordinator_def
  by (auto simp: go_len_def map_tasks_nth new_task_def go_range_def intro!: start_phase [unfolded go_range_def])

lemma apply_ok:
  assumes "mr_ok c" and "possible e c"
  shows "\<exists>c'. mr_apply e c = Some c' \<and> mr_ok c'"
proof (cases e)
  case AskJob
  show ?thesis
  proof (cases "finishedMaps c \<noteq> totalMaps c")
    case True
    then show ?thesis using assms(1) AskJob phase_ok_pop [of _ _ "mapTasks c" "totalMaps c"]
      by (cases "mapQueue c") (auto simp: mr_apply_def GetJob_def mr_ok_def)
  next
    case False
    then show ?thesis using assms(1) AskJob phase_ok_pop [of _ _ "reduceTasks c" "totalReduces c"]
      by (cases "reduceQueue c") (auto simp: mr_apply_def GetJob_def mr_ok_def)
  qed
next
  case (Finished kind i)
  have n: "totalMaps c = go_len (mapTasks c)" "totalReduces c = go_len (reduceTasks c)"
    using assms(1) by (simp_all add: mr_ok_def phase_ok_def)
  show ?thesis using assms Finished n phase_ok_done [of "mapQueue c" "mapTasks c" "totalMaps c" i]
      phase_ok_done [of "reduceQueue c" "reduceTasks c" "totalReduces c" i]
    by (cases kind) (auto simp: possible_def is_task_def tasks_of_def mr_apply_def OnJobFinish_def mr_ok_def go_nth_def go_upd_def)
next
  case (Fires kind i)
  have n: "totalMaps c = go_len (mapTasks c)" "totalReduces c = go_len (reduceTasks c)"
    using assms(1) by (simp_all add: mr_ok_def phase_ok_def)
  show ?thesis
  proof (cases kind)
    case MapTask
    then obtain task' q' where "requeue (totalMaps c) i (mapTasks c ! nat i) (mapQueue c) = Some (task', q')"
      "phase_ok q' ((mapTasks c)[nat i := task']) (totalMaps c)" "0 \<le> i" "i < go_len (mapTasks c)"
      using phase_ok_fire [of "mapQueue c" "mapTasks c" "totalMaps c" i] assms Fires n
      by (auto simp: possible_def is_task_def tasks_of_def mr_ok_def)
    then show ?thesis using MapTask Fires assms(1) n
      by (simp add: mr_apply_def timer_fires_def mr_ok_def go_nth_def go_upd_def)
  next
    case ReduceTask
    then obtain task' q' where "requeue (totalReduces c) i (reduceTasks c ! nat i) (reduceQueue c) = Some (task', q')"
      "phase_ok q' ((reduceTasks c)[nat i := task']) (totalReduces c)" "0 \<le> i" "i < go_len (reduceTasks c)"
      using phase_ok_fire [of "reduceQueue c" "reduceTasks c" "totalReduces c" i] assms Fires n
      by (auto simp: possible_def is_task_def tasks_of_def mr_ok_def)
    then show ?thesis using ReduceTask Fires assms(1) n
      by (simp add: mr_apply_def timer_fires_def mr_ok_def go_nth_def go_upd_def)
  next
    case SleepTask
    then show ?thesis using Fires assms by (auto simp: possible_def is_task_def tasks_of_def)
  qed
qed

lemma run_ok:
  assumes "mr_ok c" and "possible_run es c"
  shows "\<exists>c'. mr_run es c = Some c' \<and> mr_ok c'"
  using assms
proof (induction es arbitrary: c)
  case (Cons e es)
  then obtain c1 where "mr_apply e c = Some c1" "mr_ok c1" using apply_ok by fastforce
  then show ?case using Cons by auto
qed simp

section \<open>Counting\<close>

definition count_done :: "Task list \<Rightarrow> int" where
  "count_done ts = int (length (filter (\<lambda>t. t_state t = MDoneState) ts))"

text \<open>No finished task is queued, and the counters count the finished tasks.\<close>

definition counts_ok :: "Coordinator \<Rightarrow> bool" where
  "counts_ok c \<longleftrightarrow> finishedMaps c = count_done (mapTasks c) \<and> finishedReduces c = count_done (reduceTasks c)
     \<and> (\<forall>i \<in> set (mapQueue c). t_state (mapTasks c ! nat i) \<noteq> MDoneState)
     \<and> (\<forall>i \<in> set (reduceQueue c). t_state (reduceTasks c ! nat i) \<noteq> MDoneState)"

lemma count_done_upd:
  assumes "k < length ts"
  shows "count_done (ts[k := t]) = count_done ts
    - (if t_state (ts ! k) = MDoneState then 1 else 0) + (if t_state t = MDoneState then 1 else 0)"
proof -
  have "count_done (take k ts @ ts ! k # drop (Suc k) ts)
      = count_done (take k ts) + (if t_state (ts ! k) = MDoneState then 1 else 0) + count_done (drop (Suc k) ts)"
    by (simp add: count_done_def)
  then have "count_done ts = count_done (take k ts) + (if t_state (ts ! k) = MDoneState then 1 else 0) + count_done (drop (Suc k) ts)"
    using id_take_nth_drop [OF assms] by simp
  moreover have "count_done (ts[k := t]) = count_done (take k ts) + (if t_state t = MDoneState then 1 else 0) + count_done (drop (Suc k) ts)"
    using assms by (simp add: upd_conv_take_nth_drop count_done_def)
  ultimately show ?thesis by simp
qed

text \<open>The count of one phase, as the events change it.\<close>

definition phase_counts :: "int list \<Rightarrow> Task list \<Rightarrow> int \<Rightarrow> bool" where
  "phase_counts q ts fin \<longleftrightarrow> fin = count_done ts \<and> (\<forall>i \<in> set q. t_state (ts ! nat i) \<noteq> MDoneState)"

lemma counts_iff: "counts_ok c \<longleftrightarrow> phase_counts (mapQueue c) (mapTasks c) (finishedMaps c)
    \<and> phase_counts (reduceQueue c) (reduceTasks c) (finishedReduces c)"
  by (auto simp: counts_ok_def phase_counts_def)

lemma phase_counts_upd:
  assumes "phase_counts q ts fin" and "phase_ok q ts n" and "0 \<le> i" and "i < n" and "set q' \<subseteq> insert i (set q)"
    and "i \<in> set q' \<Longrightarrow> t_state t \<noteq> MDoneState"
    and "fin' = fin - (if t_state (ts ! nat i) = MDoneState then 1 else 0) + (if t_state t = MDoneState then 1 else 0)"
  shows "phase_counts q' (ts[nat i := t]) fin'"
proof -
  have n: "n = go_len ts" "set q \<subseteq> {0..<n}" using assms(2) unfolding phase_ok_def by blast+
  have "nat i < length ts" using assms(3,4) n by (simp add: go_len_def nat_less_iff)
  from count_done_upd [OF this, of t] have "fin' = count_done (ts[nat i := t])"
    using assms(1,7) by (simp add: phase_counts_def)
  moreover have "t_state (ts[nat i := t] ! nat j) \<noteq> MDoneState" if j: "j \<in> set q'" for j
  proof -
    have "0 \<le> j" using j assms(3,5) n(2) by auto
    then show ?thesis using upd_nth [of i ts j t] assms(1,3-6) n(1) j by (auto simp: phase_counts_def)
  qed
  ultimately show ?thesis by (simp add: phase_counts_def)
qed

lemma phase_counts_pop:
  assumes "phase_counts (i # q) ts fin" and "phase_ok (i # q) ts n"
  shows "phase_counts q (ts[nat i := scheduleRequeueLocked (t\<lparr>t_state := InProgressState\<rparr>)]) fin"
proof -
  have i: "0 \<le> i" "i < n" "i \<notin> set q" using assms(2) by (auto simp: phase_ok_def)
  show ?thesis
    by (rule phase_counts_upd [OF assms i(1,2)]) (use assms(1) i in \<open>auto simp: phase_counts_def scheduleRequeueLocked_def\<close>)
qed

lemma phase_counts_fire:
  assumes "phase_counts q ts fin" and "phase_ok q ts n" and "0 \<le> i" and "i < n"
    and "requeue n i (ts ! nat i) q = Some (task', q')"
  shows "phase_counts q' (ts[nat i := task']) fin"
  by (rule phase_counts_upd [OF assms(1-4)]) (use assms(1,5) in \<open>auto simp: requeue_def phase_counts_def split: if_splits\<close>)

lemma apply_counts:
  assumes "mr_ok c" and "counts_ok c" and "possible e c" and "prompt e c" and "mr_apply e c = Some c'"
  shows "counts_ok c'"
proof -
  have ok: "phase_ok (mapQueue c) (mapTasks c) (totalMaps c)" "phase_ok (reduceQueue c) (reduceTasks c) (totalReduces c)"
    and cn: "phase_counts (mapQueue c) (mapTasks c) (finishedMaps c)" "phase_counts (reduceQueue c) (reduceTasks c) (finishedReduces c)"
    using assms(1,2) by (simp_all add: mr_ok_def counts_iff)
  then have n: "totalMaps c = go_len (mapTasks c)" "totalReduces c = go_len (reduceTasks c)"
    unfolding phase_ok_def by blast+
  show ?thesis
  proof (cases e)
    case AskJob
    show ?thesis
    proof (cases "finishedMaps c \<noteq> totalMaps c")
      case True
      then show ?thesis using AskJob assms(5) ok cn phase_ok_pop(2,3) [of _ _ "mapTasks c" "totalMaps c"]
          phase_counts_pop [of _ _ "mapTasks c" "finishedMaps c" "totalMaps c"]
        by (cases "mapQueue c") (auto simp: mr_apply_def GetJob_def counts_iff)
    next
      case False
      then show ?thesis using AskJob assms(5) ok cn phase_ok_pop(2,3) [of _ _ "reduceTasks c" "totalReduces c"]
          phase_counts_pop [of _ _ "reduceTasks c" "finishedReduces c" "totalReduces c"]
        by (cases "reduceQueue c") (auto simp: mr_apply_def GetJob_def counts_iff)
    qed
  next
    case (Finished kind i)
    show ?thesis
    proof (cases kind)
      case MapTask
      then have i: "0 \<le> i" "i < totalMaps c" "i \<notin> set (mapQueue c)"
        using assms(3,4) Finished n by (simp_all add: possible_def prompt_def is_task_def tasks_of_def queue_of_def)
      have "phase_counts (mapQueue c) ((mapTasks c)[nat i := (mapTasks c ! nat i)\<lparr>t_state := MDoneState\<rparr>])
          (if t_state (mapTasks c ! nat i) \<noteq> MDoneState then finishedMaps c + 1 else finishedMaps c)"
        by (rule phase_counts_upd [OF cn(1) ok(1) i(1,2)]) (use i(3) in auto)
      then show ?thesis using MapTask Finished assms(5) cn i(1,2) n
        by (auto simp: mr_apply_def OnJobFinish_def go_nth_def go_upd_def counts_iff)
    next
      case ReduceTask
      then have i: "0 \<le> i" "i < totalReduces c" "i \<notin> set (reduceQueue c)"
        using assms(3,4) Finished n by (simp_all add: possible_def prompt_def is_task_def tasks_of_def queue_of_def)
      have "phase_counts (reduceQueue c) ((reduceTasks c)[nat i := (reduceTasks c ! nat i)\<lparr>t_state := MDoneState\<rparr>])
          (if t_state (reduceTasks c ! nat i) \<noteq> MDoneState then finishedReduces c + 1 else finishedReduces c)"
        by (rule phase_counts_upd [OF cn(2) ok(2) i(1,2)]) (use i(3) in auto)
      then show ?thesis using ReduceTask Finished assms(5) cn i(1,2) n
        by (auto simp: mr_apply_def OnJobFinish_def go_nth_def go_upd_def counts_iff)
    next
      case SleepTask
      then show ?thesis using Finished assms(2,5) by (simp add: mr_apply_def OnJobFinish_def)
    qed
  next
    case (Fires kind i)
    show ?thesis
    proof (cases kind)
      case MapTask
      then have "0 \<le> i" "i < totalMaps c" using assms(3) Fires n by (simp_all add: possible_def is_task_def tasks_of_def)
      then show ?thesis using MapTask Fires assms(5) cn phase_counts_fire [OF cn(1) ok(1)] n
        by (auto simp: mr_apply_def timer_fires_def go_nth_def go_upd_def counts_iff bind_Some_iff)
    next
      case ReduceTask
      then have "0 \<le> i" "i < totalReduces c" using assms(3) Fires n by (simp_all add: possible_def is_task_def tasks_of_def)
      then show ?thesis using ReduceTask Fires assms(5) cn phase_counts_fire [OF cn(2) ok(2)] n
        by (auto simp: mr_apply_def timer_fires_def go_nth_def go_upd_def counts_iff bind_Some_iff)
    next
      case SleepTask
      then show ?thesis using Fires assms(2,5) by (simp add: mr_apply_def timer_fires_def)
    qed
  qed
qed

lemma run_counts:
  assumes "mr_ok c" and "counts_ok c" and "possible_run es c" and "prompt_run es c" and "mr_run es c = Some c'"
  shows "counts_ok c'"
  using assms
proof (induction es arbitrary: c)
  case (Cons e es)
  then obtain c1 where 1: "mr_apply e c = Some c1" "mr_run es c1 = Some c'" by (auto simp: bind_Some_iff)
  have "mr_ok c1" "counts_ok c1" using apply_ok [of c e] apply_counts [of c e c1] 1(1) Cons.prems by auto
  then show ?case using Cons 1 by simp
qed simp

lemma make_counts: "counts_ok (MakeCoordinator files nReduce)"
proof -
  have "count_done (map_tasks i files) = 0" for i
    by (induction files arbitrary: i) (simp_all add: count_done_def new_task_def)
  moreover have "t_state (map_tasks 0 files ! k) = IdleState" if "k < length files" for k
    using that by (simp add: map_tasks_nth new_task_def)
  ultimately show ?thesis
    by (auto simp: counts_ok_def MakeCoordinator_def new_task_def go_range_def) (simp_all add: count_done_def comp_def)
qed

lemma all_done_iff: "count_done ts = go_len ts \<longleftrightarrow> (\<forall>t \<in> set ts. t_state t = MDoneState)"
proof
  assume a: "count_done ts = go_len ts"
  show "\<forall>t \<in> set ts. t_state t = MDoneState"
  proof (rule ccontr)
    assume "\<not> (\<forall>t \<in> set ts. t_state t = MDoneState)"
    then obtain t where "t \<in> set ts" "t_state t \<noteq> MDoneState" by blast
    then have "length (filter (\<lambda>t. t_state t = MDoneState) ts) < length ts" by (rule length_filter_less)
    then show False using a by (simp add: count_done_def go_len_def)
  qed
qed (simp add: count_done_def go_len_def)

section \<open>Properties\<close>

text \<open>C37. No task is lost and the coordinator never stops: whatever requests, reports and timers do, in any
  order, no handler panics and no requeueing goroutine blocks on its channel while holding the mutex, and
  every task is finished, in its queue, or has a running timer that will queue it again.\<close>

theorem mr_no_task_lost:
  assumes "possible_run es (MakeCoordinator files nReduce)"
  shows "\<exists>c. mr_run es (MakeCoordinator files nReduce) = Some c \<and>
    (\<forall>kind i. is_task kind i c \<longrightarrow> t_state (tasks_of kind c ! nat i) = MDoneState \<or> i \<in> set (queue_of kind c)
       \<or> t_timer (tasks_of kind c ! nat i))"
proof -
  obtain c where c: "mr_run es (MakeCoordinator files nReduce) = Some c" "mr_ok c"
    using run_ok [OF make_ok assms] by blast
  have "t_state (tasks_of kind c ! nat i) = MDoneState \<or> i \<in> set (queue_of kind c) \<or> t_timer (tasks_of kind c ! nat i)"
    if "is_task kind i c" for kind i
    using that c(2)
    by (cases kind) (auto simp: is_task_def tasks_of_def queue_of_def mr_ok_def phase_ok_def task_ok_def)
  then show ?thesis using c(1) by blast
qed

definition demo_run :: "mr_event list" where
  "demo_run = [AskJob, AskJob, Fires MapTask 0, Finished MapTask 1]"

theorem mr_no_task_lost_witness:
  "\<exists>c. mr_run demo_run (MakeCoordinator [''a'', ''b''] 1) = Some c
    \<and> (is_task MapTask 0 c \<longrightarrow> t_state (mapTasks c ! 0) = MDoneState \<or> 0 \<in> set (mapQueue c) \<or> t_timer (mapTasks c ! 0))"
proof -
  have "possible_run demo_run (MakeCoordinator [''a'', ''b''] 1)" by code_simp
  from mr_no_task_lost [OF this] obtain c where c: "mr_run demo_run (MakeCoordinator [''a'', ''b''] 1) = Some c"
    "\<forall>kind i. is_task kind i c \<longrightarrow> t_state (tasks_of kind c ! nat i) = MDoneState \<or> i \<in> set (queue_of kind c)
       \<or> t_timer (tasks_of kind c ! nat i)" by blast
  from c(2) [rule_format, of MapTask 0] c(1) show ?thesis by (auto simp: tasks_of_def queue_of_def)
qed

text \<open>When no task is reported finished while it is queued again, the counters count the finished tasks:
  reduce tasks are handed out only after every map task has finished, and \<^verbatim>\<open>Done\<close> holds exactly when every
  reduce task has finished.\<close>

lemma mr_counts_finished_tasks:
  assumes "possible_run es (MakeCoordinator files nReduce)" and "prompt_run es (MakeCoordinator files nReduce)"
    and "mr_run es (MakeCoordinator files nReduce) = Some c"
  shows "finishedMaps c = count_done (mapTasks c) \<and> finishedReduces c = count_done (reduceTasks c)
    \<and> (MDone c \<longleftrightarrow> (\<forall>t \<in> set (reduceTasks c). t_state t = MDoneState))
    \<and> (\<forall>c' reply. GetJob c = Some (c', reply) \<longrightarrow> j_TaskType reply = ReduceTask \<longrightarrow>
         (\<forall>t \<in> set (mapTasks c). t_state t = MDoneState))"
proof -
  have ok: "mr_ok c" using run_ok [OF make_ok assms(1)] assms(3) by simp
  have cn: "counts_ok c" using run_counts [OF make_ok make_counts assms] .
  have n: "totalMaps c = go_len (mapTasks c)" "totalReduces c = go_len (reduceTasks c)"
    using ok unfolding mr_ok_def phase_ok_def by blast+
  have f: "finishedMaps c = count_done (mapTasks c)" "finishedReduces c = count_done (reduceTasks c)"
    using cn unfolding counts_ok_def by blast+
  have "\<forall>t \<in> set (mapTasks c). t_state t = MDoneState"
    if "GetJob c = Some (c', reply)" "j_TaskType reply = ReduceTask" for c' reply
  proof -
    have "finishedMaps c = totalMaps c"
      using that by (auto simp: GetJob_def sleep_reply_def bind_Some_iff split: if_splits list.splits)
    then show ?thesis using f(1) n(1) all_done_iff by simp
  qed
  moreover have "MDone c \<longleftrightarrow> (\<forall>t \<in> set (reduceTasks c). t_state t = MDoneState)"
    using f(2) n(2) all_done_iff by (simp add: MDone_def)
  ultimately show ?thesis using f by blast
qed

text \<open>A late report is counted twice. A worker that reports its map task after the timer has queued it
  again leaves a finished task in the queue; \<^verbatim>\<open>GetJob\<close> does not look at its state, hands it out and marks it in
  progress, and the second report counts it once more: with two files the coordinator then hands out a
  reduce task although the second map task has not finished. The same happens to reduce tasks, after which
  the count exceeds the total and \<^verbatim>\<open>Done\<close>, which held after the first report, is false although every task has
  finished.\<close>

lemma mr_late_report_counted_twice:
  "(case mr_run [AskJob, AskJob, Fires MapTask 0, Finished MapTask 0, AskJob, Finished MapTask 0]
        (MakeCoordinator [''a'', ''b''] 1) of
      None \<Rightarrow> False
    | Some c \<Rightarrow> map_option (j_TaskType \<circ> snd) (GetJob c) = Some ReduceTask
        \<and> t_state (mapTasks c ! 1) = InProgressState)
   \<and> (case mr_run [AskJob, Finished MapTask 0, AskJob, Fires ReduceTask 0, Finished ReduceTask 0, AskJob,
             Finished ReduceTask 0, Finished ReduceTask 0] (MakeCoordinator [''a''] 1) of
      None \<Rightarrow> False
    | Some c \<Rightarrow> \<not> MDone c \<and> list_all (\<lambda>t. t_state t = MDoneState) (mapTasks c @ reduceTasks c))"
  by code_simp

end
