(* ===== verification/Mr_Worker.thy ===== *)
theory Mr_Worker
  imports Mr_Coordinator Go_Fmt "HOL-Library.List_Lexorder" "HOL-Library.Char_ord"
begin

text \<open>
  The MapReduce worker (\<^verbatim>\<open>mr/worker.go\<close>), the sequential program (\<^verbatim>\<open>main/mrsequential.go\<close>) and the word count
  application (\<^verbatim>\<open>mrapps/wc/wc.go\<close>, on ASCII text). The working directory is a map from file names to contents,
  and writing a temporary file and renaming it is one update. A Go map that is iterated over is an
  association list in the order its keys were first seen; what is claimed of an iteration is the
  multiset of what it produces. The distributed run is shown to compute what the sequential program does.
\<close>

section \<open>Definitions\<close>

unbundle bit_operations_syntax

record KeyValue =
  kv_Key :: string
  kv_Value :: string

type_synonym directory = "string \<rightharpoonup> string"
type_synonym map_function = "string \<Rightarrow> string \<Rightarrow> KeyValue list"
type_synonym reduce_function = "string \<Rightarrow> string list \<Rightarrow> string"

definition ihash :: "string \<Rightarrow> int" where
  "ihash key = uint (fnv32a (bytes_of_string key) AND 0x7fffffff)"

definition newline :: char where
  "newline = CHR 0x0A"

definition iname :: "int \<Rightarrow> int \<Rightarrow> string" where
  "iname m r = ''mr-'' @ show_int m @ ''-'' @ show_int r"

definition oname :: "int \<Rightarrow> string" where
  "oname r = ''mr-out-'' @ show_int r"

text \<open>\<^verbatim>\<open>fmt.Fprintf(file, "%v %v\n", key, value)\<close>.\<close>

definition out_line :: "string \<Rightarrow> string \<Rightarrow> string" where
  "out_line key val = key @ '' '' @ val @ [newline]"

text \<open>Appending to the slice a map has for a key.\<close>

fun append_to :: "('k \<times> 'v list) list \<Rightarrow> 'k \<Rightarrow> 'v \<Rightarrow> ('k \<times> 'v list) list" where
  "append_to [] k v = [(k, [v])]"
| "append_to ((k', vs) # m) k v = (if k' = k then (k', vs @ [v]) # m else (k', vs) # append_to m k v)"

subsection \<open>Map tasks\<close>

text \<open>Division by zero panics.\<close>

fun bucket_loop :: "int \<Rightarrow> KeyValue list \<Rightarrow> (int \<times> KeyValue list) list \<Rightarrow> (int \<times> KeyValue list) list option" where
  "bucket_loop buckets [] m = Some m"
| "bucket_loop buckets (kv # kvs) m =
     (if buckets = 0 then None else bucket_loop buckets kvs (append_to m (ihash (kv_Key kv) mod buckets) kv))"

fun write_buckets :: "int \<Rightarrow> (int \<times> KeyValue list) list \<Rightarrow> directory \<Rightarrow> directory" where
  "write_buckets task [] fs = fs"
| "write_buckets task ((bucket, pairs) # m) fs =
     write_buckets task m (fs(iname task bucket \<mapsto> concat (map (\<lambda>kv. out_line (kv_Key kv) (kv_Value kv)) pairs)))"

definition runMapFunction ::
  "map_function \<Rightarrow> GetJobResponse \<Rightarrow> directory \<Rightarrow> (directory \<times> FinishJobRequest) option" where
  "runMapFunction mapf response fs = do {
     content \<leftarrow> fs (j_Input response);
     fileToPairs \<leftarrow> bucket_loop (j_Buckets response) (mapf (j_Input response) content) [];
     Some (write_buckets (j_TaskNumber response) fileToPairs fs,
       \<lparr>f_TaskNumber = j_TaskNumber response, f_TaskType = j_TaskType response\<rparr>)
   }"

subsection \<open>Reduce tasks\<close>

text \<open>\<^verbatim>\<open>strings.Split\<close> with a separator of one character, and \<^verbatim>\<open>strings.SplitN(s, sep, 2)\<close>.\<close>

fun split_on :: "char \<Rightarrow> string \<Rightarrow> string list" where
  "split_on c [] = [[]]"
| "split_on c (x # xs) =
     (if x = c then [] # split_on c xs
      else case split_on c xs of [] \<Rightarrow> [[x]] | y # ys \<Rightarrow> (x # y) # ys)"

fun split_first :: "char \<Rightarrow> string \<Rightarrow> string list" where
  "split_first c [] = [[]]"
| "split_first c (x # xs) =
     (if x = c then [[], xs] else case split_first c xs of [] \<Rightarrow> [[x]] | y # ys \<Rightarrow> (x # y) # ys)"

fun read_pairs :: "string list \<Rightarrow> (string \<times> string list) list \<Rightarrow> (string \<times> string list) list option" where
  "read_pairs [] kva = Some kva"
| "read_pairs (pair # pairs) kva =
     (if pair = '''' then read_pairs pairs kva
      else do {
        let parts = split_first (CHR '' '') pair;
        key \<leftarrow> go_nth parts 0;
        val \<leftarrow> go_nth parts 1;
        read_pairs pairs (append_to kva key val)
      })"

fun read_files :: "int list \<Rightarrow> int \<Rightarrow> directory \<Rightarrow> (string \<times> string list) list \<Rightarrow> (string \<times> string list) list option" where
  "read_files [] task fs kva = Some kva"
| "read_files (index # rest) task fs kva =
     (case fs (iname index task) of
        None \<Rightarrow> read_files rest task fs kva
      | Some content \<Rightarrow> do { kva1 \<leftarrow> read_pairs (split_on newline content) kva; read_files rest task fs kva1 })"

definition runReduceFunction ::
  "reduce_function \<Rightarrow> GetJobResponse \<Rightarrow> directory \<Rightarrow> (directory \<times> FinishJobRequest) option" where
  "runReduceFunction reducef response fs = do {
     kva \<leftarrow> read_files (go_range (nat (j_Maps response))) (j_TaskNumber response) fs [];
     Some (fs(oname (j_TaskNumber response) \<mapsto> concat (map (\<lambda>(key, vals). out_line key (reducef key vals)) kva)),
       \<lparr>f_TaskNumber = j_TaskNumber response, f_TaskType = j_TaskType response\<rparr>)
   }"

text \<open>One turn of the worker's loop, once it has a job: the directory and the report it sends.\<close>

definition run_job ::
  "map_function \<Rightarrow> reduce_function \<Rightarrow> GetJobResponse \<Rightarrow> directory \<Rightarrow> (directory \<times> FinishJobRequest option) option" where
  "run_job mapf reducef response fs =
     (case j_TaskType response of
        MapTask \<Rightarrow> map_option (\<lambda>(fs1, result). (fs1, Some result)) (runMapFunction mapf response fs)
      | ReduceTask \<Rightarrow> map_option (\<lambda>(fs1, result). (fs1, Some result)) (runReduceFunction reducef response fs)
      | SleepTask \<Rightarrow> Some (fs, None))"

text \<open>
  A worker that runs alone: it asks for a job, does it and reports it, until the jobs it is given are used
  up (\<open>fuel\<close> turns).
\<close>

fun Worker_Run ::
  "nat \<Rightarrow> map_function \<Rightarrow> reduce_function \<Rightarrow> Coordinator \<Rightarrow> directory \<Rightarrow> (Coordinator \<times> directory) option" where
  "Worker_Run 0 mapf reducef c fs = Some (c, fs)"
| "Worker_Run (Suc fuel) mapf reducef c fs = do {
     (c1, response) \<leftarrow> GetJob c;
     (fs1, result) \<leftarrow> run_job mapf reducef response fs;
     c2 \<leftarrow> (case result of None \<Rightarrow> Some c1 | Some req \<Rightarrow> OnJobFinish req c1);
     Worker_Run fuel mapf reducef c2 fs1
   }"

subsection \<open>The sequential program\<close>

fun seq_map :: "map_function \<Rightarrow> string list \<Rightarrow> directory \<Rightarrow> KeyValue list option" where
  "seq_map mapf [] fs = Some []"
| "seq_map mapf (file # files) fs = do {
     content \<leftarrow> fs file;
     rest \<leftarrow> seq_map mapf files fs;
     Some (mapf file content @ rest)
   }"

function seq_reduce :: "reduce_function \<Rightarrow> KeyValue list \<Rightarrow> (string \<times> string) list" where
  "seq_reduce reducef [] = []"
| "seq_reduce reducef (kv # kvs) =
     (let same = takeWhile (\<lambda>x. kv_Key x = kv_Key kv) kvs
      in (kv_Key kv, reducef (kv_Key kv) (map kv_Value (kv # same)))
         # seq_reduce reducef (dropWhile (\<lambda>x. kv_Key x = kv_Key kv) kvs))"
  by pat_completeness auto
termination
  by (relation "measure (\<lambda>(_, kvs). length kvs)") (auto simp: le_imp_less_Suc length_dropWhile_le)

text \<open>\<open>sortf\<close> is \<^verbatim>\<open>sort.Sort(ByKey(...))\<close>, which need not be stable.\<close>

definition mrsequential ::
  "(KeyValue list \<Rightarrow> KeyValue list) \<Rightarrow> map_function \<Rightarrow> reduce_function \<Rightarrow> string list \<Rightarrow> directory \<Rightarrow> directory option" where
  "mrsequential sortf mapf reducef files fs = do {
     intermediate \<leftarrow> seq_map mapf files fs;
     Some (fs(''mr-out-0'' \<mapsto> concat (map (\<lambda>(key, output). out_line key output) (seq_reduce reducef (sortf intermediate)))))
   }"

definition ByKey_Less :: "KeyValue \<Rightarrow> KeyValue \<Rightarrow> bool" where
  "ByKey_Less a b \<longleftrightarrow> kv_Key a < kv_Key b"

subsection \<open>Word count\<close>

text \<open>\<^verbatim>\<open>unicode.IsLetter\<close> on the characters of ASCII text.\<close>

definition is_letter :: "char \<Rightarrow> bool" where
  "is_letter c \<longleftrightarrow> (let n = of_char c :: nat in 65 \<le> n \<and> n \<le> 90 \<or> 97 \<le> n \<and> n \<le> 122)"

text \<open>\<^verbatim>\<open>strings.FieldsFunc\<close>: the maximal non-empty runs of letters.\<close>

fun fields :: "string \<Rightarrow> string \<Rightarrow> string list" where
  "fields w [] = (if w = [] then [] else [w])"
| "fields w (c # cs) =
     (if is_letter c then fields (w @ [c]) cs else if w = [] then fields [] cs else w # fields [] cs)"

definition wc_Map :: map_function where
  "wc_Map filename contents = map (\<lambda>w. \<lparr>kv_Key = w, kv_Value = ''1''\<rparr>) (fields [] contents)"

definition wc_Reduce :: reduce_function where
  "wc_Reduce key vals = show_int (go_len vals)"

subsection \<open>The indexer\<close>

fun join :: "string \<Rightarrow> string list \<Rightarrow> string" where
  "join sep [] = []"
| "join sep [s] = s"
| "join sep (s # ss) = s @ sep @ join sep ss"

definition indexer_Map :: map_function where
  "indexer_Map document val = map (\<lambda>w. \<lparr>kv_Key = w, kv_Value = document\<rparr>) (remdups (fields [] val))"

definition indexer_Reduce :: reduce_function where
  "indexer_Reduce key vals = show_int (go_len vals) @ '' '' @ join '','' (sort vals)"

section \<open>Files\<close>

lemma show_nonneg: "0 \<le> i \<Longrightarrow> show_int i = show_nat (nat i)"
  by (simp add: show_int_def)

lemma digits_prefix:
  assumes "\<forall>c \<in> set xs. is_digit c" and "\<forall>c \<in> set xs'. is_digit c"
    and "xs @ CHR ''-'' # ys = xs' @ CHR ''-'' # ys'"
  shows "xs = xs' \<and> ys = ys'"
proof -
  have t: "takeWhile is_digit (zs @ CHR ''-'' # us) = zs" if "\<forall>c \<in> set zs. is_digit c" for zs us
    using that by (simp add: takeWhile_append2)
  have "xs = xs'" using t [OF assms(1), of ys] t [OF assms(2), of ys'] assms(3) by simp
  then show ?thesis using assms(3) by simp
qed

lemma iname_inject:
  assumes "0 \<le> m" and "0 \<le> m'"
  shows "iname m r = iname m' r' \<longleftrightarrow> m = m' \<and> r = r'"
proof
  assume "iname m r = iname m' r'"
  then have "show_nat (nat m) @ CHR ''-'' # show_int r = show_nat (nat m') @ CHR ''-'' # show_int r'"
    using assms by (simp add: iname_def show_nonneg)
  from digits_prefix [OF _ _ this] have "show_nat (nat m) = show_nat (nat m') \<and> show_int r = show_int r'"
    using show_nat_digits by blast
  then show "m = m' \<and> r = r'" using assms by (simp add: show_nat_inject show_int_inject eq_nat_nat_iff)
qed simp

lemma iname_oname: "0 \<le> m \<Longrightarrow> iname m r \<noteq> oname r'"
proof
  assume m: "0 \<le> m" and "iname m r = oname r'"
  then have "show_nat (nat m) @ ''-'' @ show_int r = ''out-'' @ show_int r'"
    by (simp add: iname_def oname_def show_nonneg)
  moreover obtain c cs where "show_nat (nat m) = c # cs" "is_digit c" using show_nat_hd by blast
  ultimately show False by (simp add: is_digit_def)
qed

section \<open>Grouping\<close>

definition vals :: "('a \<Rightarrow> 'k) \<Rightarrow> 'a list \<Rightarrow> 'k \<Rightarrow> 'a list" where
  "vals key xs k = filter (\<lambda>x. key x = k) xs"

text \<open>\<open>m\<close> groups \<open>xs\<close> by \<open>key\<close>.\<close>

definition groups :: "('a \<Rightarrow> 'k) \<Rightarrow> ('a \<Rightarrow> 'v) \<Rightarrow> 'a list \<Rightarrow> ('k \<times> 'v list) list \<Rightarrow> bool" where
  "groups key val xs m \<longleftrightarrow> distinct (map fst m) \<and> set (map fst m) = key ` set xs
     \<and> (\<forall>(k, vs) \<in> set m. vs = map val (vals key xs k))"

lemma append_to_keys:
  "set (map fst (append_to m k v)) = insert k (set (map fst m))"
  "distinct (map fst m) \<Longrightarrow> distinct (map fst (append_to m k v))"
  by (induction m k v rule: append_to.induct) auto

lemma append_to_entries:
  assumes "distinct (map fst m)" and "(k', vs') \<in> set (append_to m k v)"
  shows "if k' = k then (\<exists>vs. (k, vs) \<in> set m \<and> vs' = vs @ [v]) \<or> k \<notin> set (map fst m) \<and> vs' = [v] else (k', vs') \<in> set m"
  using assms by (induction m k v rule: append_to.induct) (force split: if_splits)+

lemma groups_append:
  assumes "groups key val xs m"
  shows "groups key val (xs @ [x]) (append_to m (key x) (val x))"
proof -
  have d: "distinct (map fst m)" "set (map fst m) = key ` set xs" using assms by (simp_all add: groups_def)
  have "vs' = map val (vals key (xs @ [x]) k')" if "(k', vs') \<in> set (append_to m (key x) (val x))" for k' vs'
  proof (cases "k' = key x")
    case True
    then have "(\<exists>vs. (key x, vs) \<in> set m \<and> vs' = vs @ [val x]) \<or> key x \<notin> set (map fst m) \<and> vs' = [val x]"
      using append_to_entries [OF d(1) that] by simp
    then show ?thesis
    proof
      assume "key x \<notin> set (map fst m) \<and> vs' = [val x]"
      moreover from this have "\<forall>y \<in> set xs. key y \<noteq> key x" using d(2) by (metis image_eqI)
      then have "vals key xs (key x) = []" by (simp add: vals_def filter_empty_conv)
      ultimately show ?thesis using True by (simp add: vals_def)
    qed (use assms True in \<open>auto simp: groups_def vals_def\<close>)
  next
    case False
    then show ?thesis using append_to_entries [OF d(1) that] assms by (auto simp: groups_def vals_def)
  qed
  then show ?thesis using append_to_keys [of m "key x" "val x"] d unfolding groups_def by auto
qed

lemma groups_Nil: "groups key val [] []"
  by (simp add: groups_def)

lemma bucket_loop_groups:
  assumes "0 < n" and "groups (\<lambda>kv. ihash (kv_Key kv) mod n) (\<lambda>kv. kv) xs m"
  shows "\<exists>m'. bucket_loop n kvs m = Some m' \<and> groups (\<lambda>kv. ihash (kv_Key kv) mod n) (\<lambda>kv. kv) (xs @ kvs) m'"
  using assms
proof (induction kvs arbitrary: xs m)
  case (Cons kv kvs)
  from Cons.IH [OF Cons.prems(1) groups_append [OF Cons.prems(2), of kv]] Cons.prems(1) show ?case by simp
qed simp

text \<open>What the files of a map task hold.\<close>

lemma write_buckets_other:
  assumes "\<forall>b \<in> set (map fst m). name \<noteq> iname t b"
  shows "write_buckets t m fs name = fs name"
  using assms by (induction m arbitrary: fs) auto

lemma write_buckets_file:
  assumes "0 \<le> t" and "distinct (map fst m)" and "(b, ps) \<in> set m"
  shows "write_buckets t m fs (iname t b) = Some (concat (map (\<lambda>kv. out_line (kv_Key kv) (kv_Value kv)) ps))"
  using assms(2,3)
proof (induction m arbitrary: fs)
  case (Cons x m)
  obtain b' ps' where x: "x = (b', ps')" by fastforce
  show ?case
  proof (cases "b' = b")
    case True
    then have "\<forall>b'' \<in> set (map fst m). iname t b \<noteq> iname t b''" using Cons.prems x by (auto simp: iname_def show_int_inject)
    then show ?thesis using Cons.prems True x write_buckets_other by (auto simp: image_iff)
  qed (use Cons x in auto)
qed simp

section \<open>Reading the pairs back\<close>

text \<open>Pairs that survive the text format: no space or newline in keys, no newline in values.\<close>

definition textual :: "KeyValue \<Rightarrow> bool" where
  "textual kv \<longleftrightarrow> CHR '' '' \<notin> set (kv_Key kv) \<and> newline \<notin> set (kv_Key kv) \<and> newline \<notin> set (kv_Value kv)"

lemma split_first_line: "CHR '' '' \<notin> set key \<Longrightarrow> split_first (CHR '' '') (key @ CHR '' '' # val) = [key, val]"
  by (induction key) auto

lemma split_on_line: "c \<notin> set s \<Longrightarrow> split_on c (s @ c # rest) = s # split_on c rest"
  by (induction s) auto

lemma read_pairs_lines:
  assumes "\<forall>kv \<in> set kvs. textual kv" and "groups kv_Key kv_Value xs m"
  shows "\<exists>m'. read_pairs (split_on newline (concat (map (\<lambda>kv. out_line (kv_Key kv) (kv_Value kv)) kvs))) m = Some m'
    \<and> groups kv_Key kv_Value (xs @ kvs) m'"
  using assms
proof (induction kvs arbitrary: xs m)
  case (Cons kv kvs)
  let ?line = "kv_Key kv @ CHR '' '' # kv_Value kv"
  let ?rest = "concat (map (\<lambda>kv. out_line (kv_Key kv) (kv_Value kv)) kvs)"
  have t: "textual kv" using Cons.prems(1) by simp
  then have "newline \<notin> set ?line" by (auto simp: textual_def newline_def)
  then have s: "split_on newline (?line @ newline # ?rest) = ?line # split_on newline ?rest" by (rule split_on_line)
  have f: "split_first (CHR '' '') ?line = [kv_Key kv, kv_Value kv]" using t by (simp add: textual_def split_first_line)
  from Cons.IH [OF _ groups_append [OF Cons.prems(2), of kv]] Cons.prems(1) show ?case
    using s f by (simp add: out_line_def go_nth_def)
qed simp

section \<open>Map tasks\<close>

definition pair_lines :: "KeyValue list \<Rightarrow> string" where
  "pair_lines kvs = concat (map (\<lambda>kv. out_line (kv_Key kv) (kv_Value kv)) kvs)"

definition in_bucket :: "int \<Rightarrow> int \<Rightarrow> KeyValue list \<Rightarrow> KeyValue list" where
  "in_bucket n r kvs = vals (\<lambda>kv. ihash (kv_Key kv) mod n) kvs r"

text \<open>The intermediate file for pairs: none when there are no pairs.\<close>

definition file_of :: "KeyValue list \<Rightarrow> string option" where
  "file_of kvs = (if kvs = [] then None else Some (pair_lines kvs))"

lemma runMap_files:
  assumes "fs file = Some content" and "0 < n" and "0 \<le> t" and "\<forall>r. fs (iname t r) = None"
  shows "\<exists>fs'. runMapFunction mapf \<lparr>j_TaskType = MapTask, j_TaskNumber = t, j_Buckets = n, j_Maps = k, j_Input = file\<rparr> fs
      = Some (fs', \<lparr>f_TaskNumber = t, f_TaskType = MapTask\<rparr>)
    \<and> (\<forall>name. (\<forall>r. name \<noteq> iname t r) \<longrightarrow> fs' name = fs name)
    \<and> (\<forall>r. fs' (iname t r) = file_of (in_bucket n r (mapf file content)))"
proof -
  let ?key = "\<lambda>kv. ihash (kv_Key kv) mod n" and ?kvs = "mapf file content"
  obtain m where m: "bucket_loop n ?kvs [] = Some m" "groups ?key (\<lambda>kv. kv) ?kvs m"
    using bucket_loop_groups [OF assms(2) groups_Nil, of ?kvs] by auto
  have "write_buckets t m fs (iname t r) = file_of (in_bucket n r ?kvs)" for r
  proof (cases "r \<in> set (map fst m)")
    case True
    then obtain ps where ps: "(r, ps) \<in> set m" by auto
    then have "ps = vals ?key ?kvs r" using m(2) by (auto simp: groups_def)
    moreover have "vals ?key ?kvs r \<noteq> []" using True m(2) by (auto simp: groups_def vals_def filter_empty_conv)
    moreover have "distinct (map fst m)" using m(2) by (simp add: groups_def)
    ultimately show ?thesis using write_buckets_file [OF assms(3) _ ps] by (simp add: file_of_def in_bucket_def pair_lines_def)
  next
    case False
    then have "\<forall>b \<in> set (map fst m). iname t r \<noteq> iname t b" by (auto simp: iname_def show_int_inject)
    then have "write_buckets t m fs (iname t r) = None" using write_buckets_other assms(4) by metis
    moreover have "vals ?key ?kvs r = []" using False m(2) by (auto simp: groups_def vals_def filter_empty_conv image_iff)
    ultimately show ?thesis by (simp add: file_of_def in_bucket_def)
  qed
  moreover have "write_buckets t m fs name = fs name" if "\<forall>r. name \<noteq> iname t r" for name
    using that by (intro write_buckets_other) simp
  ultimately show ?thesis using assms(1) m(1) by (simp add: runMapFunction_def)
qed

section \<open>Reduce tasks\<close>

lemma read_files_groups:
  assumes "\<forall>t \<in> set ts. fs (iname t r) = file_of (in_bucket n r (pairs t))"
    and "\<forall>t \<in> set ts. \<forall>kv \<in> set (pairs t). textual kv" and "groups kv_Key kv_Value xs m"
  shows "\<exists>m'. read_files ts r fs m = Some m'
    \<and> groups kv_Key kv_Value (xs @ concat (map (\<lambda>t. in_bucket n r (pairs t)) ts)) m'"
  using assms
proof (induction ts arbitrary: xs m)
  case (Cons t ts)
  show ?case
  proof (cases "in_bucket n r (pairs t) = []")
    case True
    then show ?thesis using Cons by (simp add: file_of_def)
  next
    case False
    have "\<forall>kv \<in> set (in_bucket n r (pairs t)). textual kv" using Cons.prems(2) by (simp add: in_bucket_def vals_def)
    from read_pairs_lines [OF this Cons.prems(3)] obtain m1 where
      m1: "read_pairs (split_on newline (pair_lines (in_bucket n r (pairs t)))) m = Some m1"
        "groups kv_Key kv_Value (xs @ in_bucket n r (pairs t)) m1" unfolding pair_lines_def by blast
    from Cons.IH [OF _ _ m1(2)] show ?thesis using Cons.prems(1,2) m1(1) False by (simp add: file_of_def)
  qed
qed simp

definition recs :: "(string \<times> string) list \<Rightarrow> string" where
  "recs S = concat (map (\<lambda>(key, output). out_line key output) S)"

text \<open>What the records for the keys of some pairs are.\<close>

definition records :: "reduce_function \<Rightarrow> KeyValue list \<Rightarrow> string set \<Rightarrow> (string \<times> string) list \<Rightarrow> bool" where
  "records reducef kvs K S \<longleftrightarrow> distinct (map fst S) \<and> set (map fst S) = K
     \<and> (\<forall>x \<in> set S. snd x = reducef (fst x) (map kv_Value (vals kv_Key kvs (fst x))))"

lemma records_unique:
  assumes "records reducef kvs K S" and "records reducef kvs K S'"
  shows "mset S = mset S'"
proof -
  let ?g = "\<lambda>k. (k, reducef k (map kv_Value (vals kv_Key kvs k)))"
  have s: "set T = ?g ` K \<and> distinct T" if T: "records reducef kvs K T" for T
  proof -
    have "x = ?g (fst x)" if "x \<in> set T" for x using T that by (cases x) (auto simp: records_def)
    then have "set T = ?g ` fst ` set T" by force
    then show ?thesis using T unfolding records_def by (metis distinct_map list.set_map)
  qed
  show ?thesis using s [OF assms(1)] s [OF assms(2)] by (metis set_eq_iff_mset_eq_distinct)
qed

lemma runReduce_records:
  assumes "\<forall>t \<in> set (go_range k). fs (iname t r) = file_of (in_bucket n r (pairs t))"
    and "\<forall>t \<in> set (go_range k). \<forall>kv \<in> set (pairs t). textual kv"
  defines "kvs \<equiv> concat (map pairs (go_range k))"
  shows "\<exists>S. runReduceFunction reducef \<lparr>j_TaskType = ReduceTask, j_TaskNumber = r, j_Buckets = n, j_Maps = int k, j_Input = ''''\<rparr> fs
      = Some (fs(oname r \<mapsto> recs S), \<lparr>f_TaskNumber = r, f_TaskType = ReduceTask\<rparr>)
    \<and> records reducef kvs {kv_Key kv |kv. kv \<in> set kvs \<and> ihash (kv_Key kv) mod n = r} S"
proof -
  have c: "concat (map (\<lambda>t. in_bucket n r (pairs t)) ts) = in_bucket n r (concat (map pairs ts))" for ts
    by (induction ts) (simp_all add: in_bucket_def vals_def)
  obtain m where m: "read_files (go_range k) r fs [] = Some m" "groups kv_Key kv_Value (in_bucket n r kvs) m"
    using read_files_groups [OF assms(1,2) groups_Nil] unfolding c kvs_def by auto
  let ?S = "map (\<lambda>(key, vs). (key, reducef key vs)) m"
  have v: "vals kv_Key (in_bucket n r kvs) key = vals kv_Key kvs key" if "ihash key mod n = r" for key
    using that by (auto simp: in_bucket_def vals_def intro!: filter_cong)
  have "records reducef kvs {kv_Key kv |kv. kv \<in> set kvs \<and> ihash (kv_Key kv) mod n = r} ?S"
    unfolding records_def
  proof (intro conjI ballI)
    have f: "map fst ?S = map fst m" by (simp add: case_prod_unfold comp_def)
    show "distinct (map fst ?S)" unfolding f using m(2) by (simp add: groups_def)
    have "set (map fst m) = kv_Key ` set (in_bucket n r kvs)" using m(2) by (simp add: groups_def)
    then show keys: "set (map fst ?S) = {kv_Key kv |kv. kv \<in> set kvs \<and> ihash (kv_Key kv) mod n = r}"
      unfolding f by (auto simp: in_bucket_def vals_def)
    fix x
    assume x: "x \<in> set ?S"
    then obtain vs where vs: "(fst x, vs) \<in> set m" "snd x = reducef (fst x) vs" by auto
    have "fst x \<in> set (map fst ?S)" using imageI [OF x, of fst] by (simp only: set_map)
    then have "ihash (fst x) mod n = r" unfolding keys by auto
    moreover have "vs = map kv_Value (vals kv_Key (in_bucket n r kvs) (fst x))" using m(2) vs(1) by (auto simp: groups_def)
    ultimately show "snd x = reducef (fst x) (map kv_Value (vals kv_Key kvs (fst x)))" using vs(2) v by simp
  qed
  then show ?thesis using m(1)
    by (intro exI [of _ ?S]) (simp add: runReduceFunction_def recs_def case_prod_unfold comp_def)
qed

section \<open>The sequential program\<close>

lemma dropWhile_sorted:
  assumes "sorted (map kv_Key (kv # kvs))"
  shows "takeWhile (\<lambda>x. kv_Key x = kv_Key kv) kvs = vals kv_Key kvs (kv_Key kv)
    \<and> (\<forall>x \<in> set (dropWhile (\<lambda>x. kv_Key x = kv_Key kv) kvs). kv_Key x \<noteq> kv_Key kv)"
  using assms
proof (induction kvs)
  case (Cons x kvs)
  show ?case
  proof (cases "kv_Key x = kv_Key kv")
    case True
    have s: "sorted (map kv_Key (kv # kvs))" using Cons.prems by simp
    have t: "takeWhile (\<lambda>x. kv_Key x = kv_Key kv) (x # kvs) = x # takeWhile (\<lambda>x. kv_Key x = kv_Key kv) kvs"
      "dropWhile (\<lambda>x. kv_Key x = kv_Key kv) (x # kvs) = dropWhile (\<lambda>x. kv_Key x = kv_Key kv) kvs"
      "vals kv_Key (x # kvs) (kv_Key kv) = x # vals kv_Key kvs (kv_Key kv)"
      using True by (simp_all add: vals_def)
    show ?thesis unfolding t using Cons.IH [OF s] by blast
  next
    case False
    have "kv_Key y \<noteq> kv_Key kv" if y: "y \<in> set kvs" for y
    proof
      assume e: "kv_Key y = kv_Key kv"
      have "kv_Key kv \<le> kv_Key x" "kv_Key x \<le> kv_Key y" using Cons.prems y by simp_all
      then show False using False e by (simp add: order_antisym)
    qed
    then show ?thesis using False by (simp add: vals_def filter_empty_conv)
  qed
qed (simp add: vals_def)

text \<open>A sorted list that starts with \<open>kv\<close>: the pairs with its key, and the others.\<close>

lemma sorted_groups:
  assumes "sorted (map kv_Key (kv # kvs))"
  obtains V R where "takeWhile (\<lambda>x. kv_Key x = kv_Key kv) kvs = V" and "dropWhile (\<lambda>x. kv_Key x = kv_Key kv) kvs = R"
    and "kvs = V @ R" and "\<forall>x \<in> set V. kv_Key x = kv_Key kv" and "\<forall>x \<in> set R. kv_Key x \<noteq> kv_Key kv"
    and "sorted (map kv_Key R)"
proof -
  let ?P = "\<lambda>x. kv_Key x = kv_Key kv"
  have R: "\<forall>x \<in> set (dropWhile ?P kvs). kv_Key x \<noteq> kv_Key kv" using dropWhile_sorted [OF assms] by blast
  have s: "kvs = takeWhile ?P kvs @ dropWhile ?P kvs" by (rule takeWhile_dropWhile_id [symmetric])
  have "sorted (map kv_Key kvs)" using assms by simp
  then have "sorted (map kv_Key (takeWhile ?P kvs) @ map kv_Key (dropWhile ?P kvs))"
    by (simp only: map_append [symmetric] s [symmetric])
  then have sd: "sorted (map kv_Key (dropWhile ?P kvs))" by (simp only: sorted_append)
  have V: "\<forall>x \<in> set (takeWhile ?P kvs). kv_Key x = kv_Key kv" by (blast dest: set_takeWhileD)
  show ?thesis by (rule that [OF refl refl s V R sd])
qed

lemma seq_reduce_records:
  assumes "sorted (map kv_Key kvs)"
  shows "records reducef kvs (kv_Key ` set kvs) (seq_reduce reducef kvs)"
  using assms
proof (induction reducef kvs rule: seq_reduce.induct)
  case (2 reducef kv kvs)
  let ?k = "kv_Key kv"
  obtain V R where vr: "takeWhile (\<lambda>x. kv_Key x = ?k) kvs = V" "dropWhile (\<lambda>x. kv_Key x = ?k) kvs = R"
    "kvs = V @ R" "\<forall>x \<in> set V. kv_Key x = ?k" "\<forall>x \<in> set R. kv_Key x \<noteq> ?k" "sorted (map kv_Key R)"
    using sorted_groups [OF 2(2)] by blast
  have IH: "records reducef R (kv_Key ` set R) (seq_reduce reducef R)" using 2(1) vr(1,2,6) by simp
  have eq: "seq_reduce reducef (kv # kvs) = (?k, reducef ?k (map kv_Value (kv # V))) # seq_reduce reducef R"
    by (simp only: seq_reduce.simps Let_def vr(1,2))
  have v: "vals kv_Key (kv # kvs) ?k = kv # V"
    unfolding vals_def vr(3) using vr(4,5) by (simp add: filter_id_conv filter_empty_conv)
  have o: "vals kv_Key (kv # kvs) key = vals kv_Key R key" if "key \<noteq> ?k" for key
    unfolding vals_def vr(3) using vr(4) that by (auto simp: filter_empty_conv)
  have keys: "kv_Key ` set (kv # kvs) = insert ?k (kv_Key ` set R)"
    unfolding vr(3) using vr(4) by auto
  have k0: "?k \<notin> kv_Key ` set R" using vr(5) by auto
  show ?case unfolding records_def eq keys
  proof (intro conjI ballI)
    show "distinct (map fst ((?k, reducef ?k (map kv_Value (kv # V))) # seq_reduce reducef R))"
      "set (map fst ((?k, reducef ?k (map kv_Value (kv # V))) # seq_reduce reducef R)) = insert ?k (kv_Key ` set R)"
      using IH k0 by (simp_all add: records_def)
    fix x
    assume x: "x \<in> set ((?k, reducef ?k (map kv_Value (kv # V))) # seq_reduce reducef R)"
    show "snd x = reducef (fst x) (map kv_Value (vals kv_Key (kv # kvs) (fst x)))"
    proof (cases "x = (?k, reducef ?k (map kv_Value (kv # V)))")
      case True
      then show ?thesis using v by simp
    next
      case False
      then have "x \<in> set (seq_reduce reducef R)" using x by simp
      moreover from this have "fst x \<noteq> ?k" using IH k0 unfolding records_def by (metis image_eqI list.set_map)
      ultimately show ?thesis using IH o unfolding records_def by simp
    qed
  qed
qed (simp add: records_def)

lemma records_mset:
  assumes "records reducef kvs K S" and "mset kvs = mset kvs'"
    and "\<forall>k xs ys. mset xs = mset ys \<longrightarrow> reducef k xs = reducef k ys"
  shows "records reducef kvs' K S"
proof -
  have "reducef k (map kv_Value (vals kv_Key kvs k)) = reducef k (map kv_Value (vals kv_Key kvs' k))" for k
    using assms(2,3) by (simp add: vals_def mset_filter mset_map)
  then show ?thesis using assms(1) by (simp add: records_def)
qed

section \<open>A worker and the coordinator\<close>

definition tasks_fresh :: "nat \<Rightarrow> Task list \<Rightarrow> bool" where
  \<comment> \<open>numbered, and from \<open>i\<close> on not finished\<close>
  "tasks_fresh i ts \<longleftrightarrow> (\<forall>j < length ts. t_taskNumber (ts ! j) = int j \<and> (i \<le> j \<longrightarrow> t_state (ts ! j) \<noteq> MDoneState))"

lemma tasks_fresh_upd:
  assumes "tasks_fresh i ts" and "i < length ts" and "t_taskNumber t = int i"
  shows "tasks_fresh (Suc i) (ts[i := t])"
  using assms by (auto simp: tasks_fresh_def nth_list_update)

definition map_phase :: "string list \<Rightarrow> nat \<Rightarrow> nat \<Rightarrow> Coordinator \<Rightarrow> bool" where
  "map_phase files nR i c \<longleftrightarrow> mapQueue c = map int [i..<length files] \<and> finishedMaps c = int i \<and> totalMaps c = go_len files
     \<and> map t_file (mapTasks c) = files \<and> tasks_fresh i (mapTasks c)
     \<and> reduceQueue c = map int [0..<nR] \<and> finishedReduces c = 0 \<and> totalReduces c = int nR
     \<and> length (reduceTasks c) = nR \<and> tasks_fresh 0 (reduceTasks c)"

definition reduce_phase :: "nat \<Rightarrow> nat \<Rightarrow> nat \<Rightarrow> Coordinator \<Rightarrow> bool" where
  "reduce_phase nM nR r c \<longleftrightarrow> finishedMaps c = int nM \<and> totalMaps c = int nM \<and> reduceQueue c = map int [r..<nR]
     \<and> finishedReduces c = int r \<and> totalReduces c = int nR \<and> length (reduceTasks c) = nR \<and> tasks_fresh r (reduceTasks c)"

lemma map_turn:
  assumes "map_phase files nR i c" and "i < length files"
  shows "\<exists>c1 c2. GetJob c = Some (c1, \<lparr>j_TaskType = MapTask, j_TaskNumber = int i, j_Buckets = int nR, j_Maps = 0,
        j_Input = files ! i\<rparr>)
    \<and> OnJobFinish \<lparr>f_TaskNumber = int i, f_TaskType = MapTask\<rparr> c1 = Some c2 \<and> map_phase files nR (Suc i) c2"
proof -
  let ?ts = "mapTasks c" and ?q = "map int [Suc i..<length files]"
  have m: "mapQueue c = int i # ?q" "finishedMaps c = int i" "totalMaps c = go_len files" "map t_file ?ts = files"
    "tasks_fresh i ?ts" "totalReduces c = int nR"
    using assms by (simp_all add: map_phase_def upt_conv_Cons)
  have l: "length ?ts = length files" using m(4) by (metis length_map)
  let ?t = "(?ts ! i)\<lparr>t_state := InProgressState, t_timer := True\<rparr>"
  let ?c1 = "c\<lparr>mapQueue := ?q, mapTasks := ?ts[i := ?t]\<rparr>"
  let ?c2 = "?c1\<lparr>mapTasks := ?ts[i := ?t\<lparr>t_state := MDoneState\<rparr>], finishedMaps := int i + 1\<rparr>"
  have t1: "t_taskNumber (?ts ! i) = int i" using m(5) assms(2) l unfolding tasks_fresh_def by simp
  have "t_file (?ts ! i) = map t_file ?ts ! i" using assms(2) l by simp
  then have t: "t_taskNumber (?ts ! i) = int i" "t_file (?ts ! i) = files ! i" using t1 unfolding m(4) by blast+
  have "GetJob c = Some (?c1, \<lparr>j_TaskType = MapTask, j_TaskNumber = int i, j_Buckets = int nR, j_Maps = 0, j_Input = files ! i\<rparr>)"
    using m(1-3,6) assms(2) l t by (simp add: GetJob_def go_nth_def go_upd_def go_len_def scheduleRequeueLocked_def)
  moreover have "OnJobFinish \<lparr>f_TaskNumber = int i, f_TaskType = MapTask\<rparr> ?c1 = Some ?c2"
    using m(2) assms(2) l by (simp add: OnJobFinish_def go_nth_def go_upd_def go_len_def)
  moreover have "map_phase files nR (Suc i) ?c2"
  proof -
    have "tasks_fresh (Suc i) (?ts[i := ?t\<lparr>t_state := MDoneState\<rparr>])"
      using tasks_fresh_upd [OF m(5), of "?t\<lparr>t_state := MDoneState\<rparr>"] assms(2) l t(1) by simp
    moreover have "map t_file (?ts[i := ?t\<lparr>t_state := MDoneState\<rparr>]) = files"
      using m(4) t(2) by (simp add: map_update list_update_id)
    ultimately show ?thesis using assms(1) by (simp add: map_phase_def)
  qed
  ultimately show ?thesis by blast
qed

lemma reduce_turn:
  assumes "reduce_phase nM nR r c" and "r < nR"
  shows "\<exists>c1 c2. GetJob c = Some (c1, \<lparr>j_TaskType = ReduceTask, j_TaskNumber = int r, j_Buckets = int nR, j_Maps = int nM,
        j_Input = ''''\<rparr>)
    \<and> OnJobFinish \<lparr>f_TaskNumber = int r, f_TaskType = ReduceTask\<rparr> c1 = Some c2 \<and> reduce_phase nM nR (Suc r) c2"
proof -
  let ?ts = "reduceTasks c" and ?q = "map int [Suc r..<nR]"
  have m: "reduceQueue c = int r # ?q" "finishedMaps c = totalMaps c" "totalMaps c = int nM" "length ?ts = nR"
    "tasks_fresh r ?ts" "totalReduces c = int nR" "finishedReduces c = int r"
    using assms by (simp_all add: reduce_phase_def upt_conv_Cons)
  let ?t = "(?ts ! r)\<lparr>t_state := InProgressState, t_timer := True\<rparr>"
  let ?c1 = "c\<lparr>reduceQueue := ?q, reduceTasks := ?ts[r := ?t]\<rparr>"
  let ?c2 = "?c1\<lparr>reduceTasks := ?ts[r := ?t\<lparr>t_state := MDoneState\<rparr>], finishedReduces := int r + 1\<rparr>"
  have t: "t_taskNumber (?ts ! r) = int r" using m(4,5) assms(2) by (auto simp: tasks_fresh_def)
  have "GetJob c = Some (?c1, \<lparr>j_TaskType = ReduceTask, j_TaskNumber = int r, j_Buckets = int nR, j_Maps = int nM, j_Input = ''''\<rparr>)"
    using m assms(2) t by (simp add: GetJob_def go_nth_def go_upd_def go_len_def scheduleRequeueLocked_def)
  moreover have "OnJobFinish \<lparr>f_TaskNumber = int r, f_TaskType = ReduceTask\<rparr> ?c1 = Some ?c2"
    using m(4,7) assms(2) by (simp add: OnJobFinish_def go_nth_def go_upd_def go_len_def)
  moreover have "reduce_phase nM nR (Suc r) ?c2"
    using tasks_fresh_upd [OF m(5), of "?t\<lparr>t_state := MDoneState\<rparr>"] assms m(4) t by (simp add: reduce_phase_def)
  ultimately show ?thesis by blast
qed

text \<open>The directory after \<open>i\<close> map tasks.\<close>

definition pairs_of :: "map_function \<Rightarrow> string list \<Rightarrow> directory \<Rightarrow> int \<Rightarrow> KeyValue list" where
  "pairs_of mapf files fs t = mapf (files ! nat t) (the (fs (files ! nat t)))"

definition mapped :: "map_function \<Rightarrow> string list \<Rightarrow> int \<Rightarrow> directory \<Rightarrow> nat \<Rightarrow> directory \<Rightarrow> bool" where
  "mapped mapf files n fs0 i fs \<longleftrightarrow> (\<forall>file \<in> set files. fs file = fs0 file)
     \<and> (\<forall>t r. 0 \<le> t \<longrightarrow> fs (iname t r) = (if t < int i then file_of (in_bucket n r (pairs_of mapf files fs0 t)) else None))"

lemma run_maps:
  assumes "0 < nR" and "\<forall>file \<in> set files. fs0 file \<noteq> None" and "\<forall>file \<in> set files. \<forall>t r. file \<noteq> iname t r"
  shows "map_phase files nR i c \<Longrightarrow> mapped mapf files (int nR) fs0 i fs \<Longrightarrow> i + k = length files \<Longrightarrow>
    \<exists>c' fs'. map_phase files nR (length files) c' \<and> mapped mapf files (int nR) fs0 (length files) fs'
      \<and> Worker_Run (k + fuel) mapf reducef c fs = Worker_Run fuel mapf reducef c' fs'"
proof (induction k arbitrary: i c fs)
  case 0
  then show ?case by auto
next
  case (Suc k)
  then have i: "i < length files" by simp
  then have f: "files ! i \<in> set files" by simp
  obtain c1 c2 where c: "GetJob c = Some (c1, \<lparr>j_TaskType = MapTask, j_TaskNumber = int i, j_Buckets = int nR, j_Maps = 0,
        j_Input = files ! i\<rparr>)"
    "OnJobFinish \<lparr>f_TaskNumber = int i, f_TaskType = MapTask\<rparr> c1 = Some c2" "map_phase files nR (Suc i) c2"
    using map_turn [OF Suc.prems(1) i] by blast
  obtain content where content: "fs0 (files ! i) = Some content" using assms(2) f by blast
  have m: "fs (files ! i) = Some content" "\<forall>r. fs (iname (int i) r) = None"
    using Suc.prems(2) f content by (simp_all add: mapped_def)
  obtain fs1 where fs1: "runMapFunction mapf \<lparr>j_TaskType = MapTask, j_TaskNumber = int i, j_Buckets = int nR, j_Maps = 0,
        j_Input = files ! i\<rparr> fs = Some (fs1, \<lparr>f_TaskNumber = int i, f_TaskType = MapTask\<rparr>)"
    "\<forall>name. (\<forall>r. name \<noteq> iname (int i) r) \<longrightarrow> fs1 name = fs name"
    "\<forall>r. fs1 (iname (int i) r) = file_of (in_bucket (int nR) r (mapf (files ! i) content))"
    using runMap_files [OF m(1) _ _ m(2), of "int nR" mapf 0] assms(1) by auto
  have "mapped mapf files (int nR) fs0 (Suc i) fs1"
    unfolding mapped_def
  proof (intro conjI ballI allI impI)
    show "fs1 f = fs0 f" if "f \<in> set files" for f
      using fs1(2) assms(3) that Suc.prems(2) by (simp add: mapped_def)
    show "fs1 (iname t r) = (if t < int (Suc i) then file_of (in_bucket (int nR) r (pairs_of mapf files fs0 t)) else None)"
      if t: "0 \<le> t" for t r
    proof (cases "t = int i")
      case True
      then show ?thesis using fs1(3) content by (simp add: pairs_of_def)
    next
      case False
      then have "fs1 (iname t r) = fs (iname t r)" using fs1(2) iname_inject t by simp
      then show ?thesis using Suc.prems(2) t False by (auto simp: mapped_def)
    qed
  qed
  from Suc.IH [OF c(3) this] Suc.prems(3) show ?case using c(1,2) fs1(1) by (simp add: run_job_def)
qed

definition bucket_keys :: "nat \<Rightarrow> nat \<Rightarrow> KeyValue list \<Rightarrow> string set" where
  "bucket_keys nR r kvs = {kv_Key kv |kv. kv \<in> set kvs \<and> ihash (kv_Key kv) mod int nR = int r}"

lemma oname_inject: "oname r = oname r' \<longleftrightarrow> r = r'"
  by (simp add: oname_def show_int_inject)

lemma run_reduces:
  assumes "\<forall>t \<in> set (go_range nM). \<forall>kv \<in> set (pairs t). textual kv"
  defines "kvs \<equiv> concat (map pairs (go_range nM))"
  shows "reduce_phase nM nR r c \<Longrightarrow> \<forall>t \<in> set (go_range nM). \<forall>r. fs (iname t r) = file_of (in_bucket (int nR) r (pairs t)) \<Longrightarrow>
    r + k = nR \<Longrightarrow>
    \<exists>c' fs'. Worker_Run k mapf reducef c fs = Some (c', fs') \<and> reduce_phase nM nR nR c'
      \<and> (\<forall>r'. r \<le> r' \<and> r' < nR \<longrightarrow> (\<exists>S. fs' (oname (int r')) = Some (recs S) \<and> records reducef kvs (bucket_keys nR r' kvs) S))
      \<and> (\<forall>r'. r' < r \<longrightarrow> fs' (oname (int r')) = fs (oname (int r')))"
proof (induction k arbitrary: r c fs)
  case 0
  then show ?case by auto
next
  case (Suc k)
  then have r: "r < nR" by simp
  obtain c1 c2 where c: "GetJob c = Some (c1, \<lparr>j_TaskType = ReduceTask, j_TaskNumber = int r, j_Buckets = int nR, j_Maps = int nM,
        j_Input = ''''\<rparr>)"
    "OnJobFinish \<lparr>f_TaskNumber = int r, f_TaskType = ReduceTask\<rparr> c1 = Some c2" "reduce_phase nM nR (Suc r) c2"
    using reduce_turn [OF Suc.prems(1) r] by blast
  have "\<forall>t \<in> set (go_range nM). fs (iname t (int r)) = file_of (in_bucket (int nR) (int r) (pairs t))"
    using Suc.prems(2) by blast
  from runReduce_records [OF this assms(1), of reducef] obtain S where
    S: "runReduceFunction reducef \<lparr>j_TaskType = ReduceTask, j_TaskNumber = int r, j_Buckets = int nR, j_Maps = int nM, j_Input = ''''\<rparr> fs
      = Some (fs(oname (int r) \<mapsto> recs S), \<lparr>f_TaskNumber = int r, f_TaskType = ReduceTask\<rparr>)"
      "records reducef kvs (bucket_keys nR r kvs) S"
    unfolding kvs_def [symmetric] bucket_keys_def by blast
  let ?fs = "fs(oname (int r) \<mapsto> recs S)"
  have "\<forall>t \<in> set (go_range nM). \<forall>r. ?fs (iname t r) = file_of (in_bucket (int nR) r (pairs t))"
    using Suc.prems(2) iname_oname by simp
  note ih = Suc.IH [of "Suc r" c2 ?fs, OF c(3) this]
  have "Suc r + k = nR" using Suc.prems(3) by simp
  from ih [OF this] obtain c' fs' where w: "Worker_Run k mapf reducef c2 ?fs = Some (c', fs')"
    "reduce_phase nM nR nR c'"
    "\<forall>r'. Suc r \<le> r' \<and> r' < nR \<longrightarrow> (\<exists>S. fs' (oname (int r')) = Some (recs S) \<and> records reducef kvs (bucket_keys nR r' kvs) S)"
    "\<forall>r'. r' < Suc r \<longrightarrow> fs' (oname (int r')) = ?fs (oname (int r'))" by blast
  have "Worker_Run (Suc k) mapf reducef c fs = Some (c', fs')" using c(1,2) S(1) w(1) by (simp add: run_job_def)
  moreover have "\<exists>S. fs' (oname (int r')) = Some (recs S) \<and> records reducef kvs (bucket_keys nR r' kvs) S"
    if "r \<le> r'" "r' < nR" for r'
  proof (cases "r' = r")
    case True
    then show ?thesis using w(4) S(2) by auto
  qed (use w(3) that in auto)
  moreover have "fs' (oname (int r')) = fs (oname (int r'))" if "r' < r" for r'
    using w(4) that by (simp add: oname_inject)
  ultimately show ?case using w(2) by blast
qed

lemma seq_map_concat:
  assumes "\<forall>f \<in> set files. fs f \<noteq> None"
  shows "seq_map mapf files fs = Some (concat (map (\<lambda>f. mapf f (the (fs f))) files))"
  using assms by (induction files) auto

lemma pairs_concat:
  "concat (map (pairs_of mapf files fs) (go_range (length files))) = concat (map (\<lambda>f. mapf f (the (fs f))) files)"
proof -
  have "map (pairs_of mapf files fs) (go_range (length files)) = map (\<lambda>f. mapf f (the (fs f))) files"
    by (rule nth_equalityI) (simp_all add: go_range_def pairs_of_def)
  then show ?thesis by simp
qed

text \<open>The records of all buckets together.\<close>

lemma records_buckets:
  assumes "\<forall>r < nR. records reducef kvs (bucket_keys nR r kvs) (D r)" and "0 < nR"
  shows "records reducef kvs (kv_Key ` set kvs) (concat (map D [0..<nR]))"
proof -
  have R: "distinct (map fst (concat (map D [0..<n]))) \<and> set (map fst (concat (map D [0..<n]))) = (\<Union>r < n. bucket_keys nR r kvs)
      \<and> (\<forall>x \<in> set (concat (map D [0..<n])). snd x = reducef (fst x) (map kv_Value (vals kv_Key kvs (fst x))))" if "n \<le> nR" for n
    using that
  proof (induction n)
    case (Suc n)
    have d: "records reducef kvs (bucket_keys nR n kvs) (D n)" using assms(1) Suc.prems by simp
    have disj: "(\<Union>r < n. bucket_keys nR r kvs) \<inter> bucket_keys nR n kvs = {}"
      by (auto simp: bucket_keys_def)
    have app: "concat (map D [0..<Suc n]) = concat (map D [0..<n]) @ D n" by simp
    have un: "(\<Union>r < Suc n. bucket_keys nR r kvs) = (\<Union>r < n. bucket_keys nR r kvs) \<union> bucket_keys nR n kvs"
      by (auto simp: lessThan_Suc)
    have IH: "distinct (map fst (concat (map D [0..<n])))" "set (map fst (concat (map D [0..<n]))) = (\<Union>r < n. bucket_keys nR r kvs)"
      "\<forall>x \<in> set (concat (map D [0..<n])). snd x = reducef (fst x) (map kv_Value (vals kv_Key kvs (fst x)))"
      using Suc by simp_all
    have D: "distinct (map fst (D n))" "set (map fst (D n)) = bucket_keys nR n kvs"
      "\<forall>x \<in> set (D n). snd x = reducef (fst x) (map kv_Value (vals kv_Key kvs (fst x)))"
      using d unfolding records_def by blast+
    have "distinct (map fst (concat (map D [0..<n]) @ D n))"
      unfolding map_append distinct_append using IH(1,2) D(1,2) disj by (simp only: simp_thms)
    moreover have "set (map fst (concat (map D [0..<n]) @ D n)) = (\<Union>r < n. bucket_keys nR r kvs) \<union> bucket_keys nR n kvs"
      unfolding map_append set_append using IH(2) D(2) by (simp only:)
    ultimately show ?case unfolding app un using IH(3) D(3) by (simp only: set_append) blast
  qed simp
  have "(\<Union>r < nR. bucket_keys nR r kvs) = kv_Key ` set kvs"
  proof -
    have "\<exists>r < nR. ihash key mod int nR = int r" for key
      using assms(2) by (intro exI [of _ "nat (ihash key mod int nR)"]) (simp add: nat_less_iff)
    then have "kv_Key kv \<in> (\<Union>r < nR. bucket_keys nR r kvs)" if "kv \<in> set kvs" for kv
      using that unfolding bucket_keys_def UN_iff mem_Collect_eq lessThan_iff by blast
    moreover have "bucket_keys nR r kvs \<subseteq> kv_Key ` set kvs" for r unfolding bucket_keys_def by blast
    ultimately show ?thesis by blast
  qed
  then show ?thesis using R [of nR] unfolding records_def by simp
qed

section \<open>Properties\<close>

text \<open>C36. The distributed run computes what the sequential program computes. One worker with the coordinator,
  as many turns as there are tasks, on a directory without left-over intermediate files: no step panics, the
  coordinator is done, and the records in the output files of all reduce tasks together are, as a
  multiset, the records \<^verbatim>\<open>mrsequential\<close> writes; provided keys have no space or newline, values have no newline,
  and the reduce function does not depend on the order of its values, which the sequential program's
  unstable sort does not fix either.\<close>

theorem mr_computes_sequential:
  assumes "0 < nReduce" and "\<forall>f \<in> set files. fs f \<noteq> None"
    and "\<forall>f \<in> set files. \<forall>t r. f \<noteq> iname t r" and "\<forall>t r. fs (iname t r) = None"
    and "\<forall>f content. \<forall>kv \<in> set (mapf f content). textual kv"
    and "\<forall>k xs ys. mset xs = mset ys \<longrightarrow> reducef k xs = reducef k ys"
    and "\<forall>xs. mset (sortf xs) = mset xs \<and> sorted_wrt (\<lambda>a b. \<not> ByKey_Less b a) (sortf xs)"
  shows "\<exists>c fs' fsq S D. Worker_Run (length files + nReduce) mapf reducef (MakeCoordinator files nReduce) fs = Some (c, fs')
    \<and> MDone c \<and> (\<forall>r < nReduce. fs' (oname (int r)) = Some (recs (D r)))
    \<and> mrsequential sortf mapf reducef files fs = Some fsq \<and> fsq ''mr-out-0'' = Some (recs S)
    \<and> mset S = mset (concat (map D [0..<nReduce]))"
proof -
  let ?nM = "length files" and ?pairs = "pairs_of mapf files fs" and ?c0 = "MakeCoordinator files nReduce"
  let ?kvs = "concat (map ?pairs (go_range ?nM))"
  have "t_taskNumber (map_tasks 0 files ! j) = int j \<and> t_state (map_tasks 0 files ! j) \<noteq> MDoneState" if "j < ?nM" for j
    using that by (simp add: map_tasks_nth new_task_def)
  moreover have "map t_file (map_tasks i files) = files" for i
    by (induction files arbitrary: i) (simp_all add: new_task_def)
  ultimately have mp: "map_phase files nReduce 0 ?c0"
    by (simp add: map_phase_def MakeCoordinator_def tasks_fresh_def go_range_def new_task_def)
  have md: "mapped mapf files (int nReduce) fs 0 fs" using assms(4) by (simp add: mapped_def)
  obtain c1 fs1 where 1: "map_phase files nReduce ?nM c1" "mapped mapf files (int nReduce) fs ?nM fs1"
    "Worker_Run (?nM + nReduce) mapf reducef ?c0 fs = Worker_Run nReduce mapf reducef c1 fs1"
    using run_maps [OF assms(1-3) mp md, of ?nM nReduce reducef] by auto
  have rp: "reduce_phase ?nM nReduce 0 c1" using 1(1) by (simp add: map_phase_def reduce_phase_def go_len_def)
  have files: "\<forall>t \<in> set (go_range ?nM). \<forall>r. fs1 (iname t r) = file_of (in_bucket (int nReduce) r (?pairs t))"
    using 1(2) by (simp add: mapped_def)
  have txl: "\<forall>t \<in> set (go_range ?nM). \<forall>kv \<in> set (?pairs t). textual kv" using assms(5) by (simp add: pairs_of_def)
  obtain c fs' where 2: "Worker_Run nReduce mapf reducef c1 fs1 = Some (c, fs')" "reduce_phase ?nM nReduce nReduce c"
    "\<forall>r. 0 \<le> r \<and> r < nReduce \<longrightarrow> (\<exists>S. fs' (oname (int r)) = Some (recs S) \<and> records reducef ?kvs (bucket_keys nReduce r ?kvs) S)"
    using run_reduces [OF txl rp files, of nReduce] by (metis add_0)
  then obtain D where D: "\<forall>r < nReduce. fs' (oname (int r)) = Some (recs (D r)) \<and> records reducef ?kvs (bucket_keys nReduce r ?kvs) (D r)"
    by (metis le0)
  have fin: "MDone c" using 2(2) by (simp add: MDone_def reduce_phase_def)
  let ?sorted = "sortf ?kvs"
  have "seq_map mapf files fs = Some ?kvs" using seq_map_concat [OF assms(2)] by (simp add: pairs_concat)
  then have seq: "mrsequential sortf mapf reducef files fs = Some (fs(''mr-out-0'' \<mapsto> recs (seq_reduce reducef ?sorted)))"
    by (simp add: mrsequential_def recs_def)
  have s: "sorted (map kv_Key ?sorted)" "mset ?sorted = mset ?kvs" using assms(7) by (simp_all add: sorted_map ByKey_Less_def not_less)
  have "kv_Key ` set ?sorted = kv_Key ` set ?kvs" using mset_eq_setD [OF s(2)] by (rule arg_cong)
  then have a: "records reducef ?kvs (kv_Key ` set ?kvs) (seq_reduce reducef ?sorted)"
    using records_mset [OF seq_reduce_records [OF s(1)] s(2) assms(6)] by (simp only:)
  have "\<forall>r < nReduce. records reducef ?kvs (bucket_keys nReduce r ?kvs) (D r)" using D by blast
  then have b: "records reducef ?kvs (kv_Key ` set ?kvs) (concat (map D [0..<nReduce]))"
    using assms(1) by (rule records_buckets)
  have e: "mset (seq_reduce reducef ?sorted) = mset (concat (map D [0..<nReduce]))" using a b by (rule records_unique)
  have w: "Worker_Run (length files + nReduce) mapf reducef ?c0 fs = Some (c, fs')" using 1(3) 2(1) by (rule trans)
  have "\<forall>r < nReduce. fs' (oname (int r)) = Some (recs (D r))" using D by blast
  with w fin e seq show ?thesis by (intro exI conjI) (assumption | rule fun_upd_same)+
qed

lemma fields_letters: "\<forall>c \<in> set w. is_letter c \<Longrightarrow> v \<in> set (fields w cs) \<Longrightarrow> c \<in> set v \<Longrightarrow> is_letter c"
  by (induction w cs rule: fields.induct) (auto split: if_splits)

lemma wc_textual: "kv \<in> set (wc_Map f content) \<Longrightarrow> textual kv"
proof -
  assume "kv \<in> set (wc_Map f content)"
  then obtain w where w: "w \<in> set (fields [] content)" "kv = \<lparr>kv_Key = w, kv_Value = ''1''\<rparr>" by (auto simp: wc_Map_def)
  have "is_letter c" if "c \<in> set w" for c using fields_letters [OF _ w(1) that] by simp
  moreover have "\<not> is_letter (CHR '' '')" "\<not> is_letter newline" by code_simp+
  ultimately have "CHR '' '' \<notin> set w" "newline \<notin> set w" by blast+
  then show ?thesis using w(2) by (simp add: textual_def newline_def)
qed

text \<open>The indexer's reduce function does not depend on the order of its values, and its pairs are one line each if the
  names of the documents are.\<close>

lemma indexer_Reduce_order: "mset xs = mset ys \<Longrightarrow> indexer_Reduce key xs = indexer_Reduce key ys"
  using mset_eq_length [of xs ys] properties_for_sort [of "sort ys" xs] by (simp add: indexer_Reduce_def go_len_def)

lemma indexer_textual: "newline \<notin> set document \<Longrightarrow> kv \<in> set (indexer_Map document val) \<Longrightarrow> textual kv"
  using wc_textual [of "\<lparr>kv_Key = kv_Key kv, kv_Value = ''1''\<rparr>" document val]
  by (auto simp: indexer_Map_def wc_Map_def textual_def)

theorem mr_computes_sequential_witness:
  "\<exists>c fs' fsq S D. Worker_Run 4 wc_Map wc_Reduce (MakeCoordinator [''a'', ''b''] 2)
        [''a'' \<mapsto> ''to be or not to be'', ''b'' \<mapsto> ''not''] = Some (c, fs') \<and> MDone c
    \<and> mrsequential (sort_key kv_Key) wc_Map wc_Reduce [''a'', ''b''] [''a'' \<mapsto> ''to be or not to be'', ''b'' \<mapsto> ''not'']
        = Some fsq \<and> fsq ''mr-out-0'' = Some (recs S) \<and> mset S = mset (concat (map D [0..<2]))"
proof -
  let ?files = "[''a'', ''b'']" and ?fs = "[''a'' \<mapsto> ''to be or not to be'', ''b'' \<mapsto> ''not''] :: directory"
  have n: "f \<noteq> iname t r" if "f = ''a'' \<or> f = ''b''" for f t r using that by (auto simp: iname_def)
  have h: "0 < (2 :: nat)" "\<forall>f \<in> set ?files. ?fs f \<noteq> None" "\<forall>f \<in> set ?files. \<forall>t r. f \<noteq> iname t r"
    "\<forall>t r. ?fs (iname t r) = None" "\<forall>f content. \<forall>kv \<in> set (wc_Map f content). textual kv"
    "\<forall>k xs ys. mset xs = mset ys \<longrightarrow> wc_Reduce k xs = wc_Reduce k ys"
    using n [of "''a''"] n [of "''b''"] wc_textual
    by (auto simp: wc_Reduce_def go_len_def iname_def dest: mset_eq_length)
  have "sorted_wrt (\<lambda>a b. \<not> ByKey_Less b a) (sort_key kv_Key xs)" for xs
    using sorted_sort_key [of kv_Key xs] unfolding sorted_map ByKey_Less_def not_less .
  then have o: "\<forall>xs. mset (sort_key kv_Key xs) = mset xs \<and> sorted_wrt (\<lambda>a b. \<not> ByKey_Less b a) (sort_key kv_Key xs)" by simp
  have "length ?files + 2 = 4" by simp
  from mr_computes_sequential [OF h o, unfolded this] show ?thesis by blast
qed

end
